(* ===== verification/Prelude.thy ===== *)
theory Prelude
  imports Main "HOL-Library.Word"
begin

unbundle bit_operations_syntax

text \<open>
  Vocabulary and automation shared by every component: the machine types of the
  sources, the C++ memory idioms (\<open>memcpy\<close> into a buffer, \<open>std::vector::resize\<close>),
  big-endian byte strings, and the wrap-around arithmetic of \<open>uint8_t\<close> sequence
  numbers. The sources are compiled for x64 (\<open>build.bat\<close>), so \<open>size_t\<close> is a
  64-bit word.
\<close>

type_synonym u8 = "8 word"
type_synonym u16 = "16 word"
type_synonym u32 = "32 word"
type_synonym u64 = "64 word"
type_synonym pcm = "16 word list"

named_theorems seq_simps \<open>wrap-around arithmetic of 8-bit sequence numbers\<close>
named_theorems mem_simps \<open>copies into buffers\<close>

section \<open>Memory idioms\<close>

text \<open>\<open>memcpy(buf + i, xs, n * sizeof(T))\<close>, where \<open>xs\<close> holds the \<open>n\<close> elements.\<close>

definition overwrite :: "nat \<Rightarrow> 'a list \<Rightarrow> 'a list \<Rightarrow> 'a list" where
  "overwrite i xs buf = take i buf @ xs @ drop (i + length xs) buf"

text \<open>\<open>vec.resize(n)\<close>: keeps the first elements, appends value-initialised ones.\<close>

definition vec_resize :: "nat \<Rightarrow> 'a \<Rightarrow> 'a list \<Rightarrow> 'a list" where
  "vec_resize n z xs = take n xs @ replicate (n - length xs) z"

lemma length_overwrite [simp, mem_simps]:
  "i + length xs \<le> length buf \<Longrightarrow> length (overwrite i xs buf) = length buf"
  by (simp add: overwrite_def)

lemma overwrite_Nil [simp, mem_simps]: "overwrite i [] buf = buf"
  by (simp add: overwrite_def)

lemma nth_overwrite [mem_simps]:
  assumes "i + length xs \<le> length buf" and "k < length buf"
  shows "overwrite i xs buf ! k = (if i \<le> k \<and> k < i + length xs then xs ! (k - i) else buf ! k)"
  using assms by (auto simp: overwrite_def nth_append)

lemma length_vec_resize [simp, mem_simps]: "length (vec_resize n z xs) = n"
  by (simp add: vec_resize_def)

lemma vec_resize_shrink [simp, mem_simps]: "n \<le> length xs \<Longrightarrow> vec_resize n z xs = take n xs"
  by (simp add: vec_resize_def)

section \<open>Big-endian byte strings\<close>

text \<open>
  \<open>be_bytes n w\<close> is the \<open>n\<close>-byte big-endian form of \<open>w\<close> (Rust's \<open>to_be_bytes\<close>),
  \<open>be_word\<close> reads one back (\<open>from_be_bytes\<close>).
\<close>

fun be_bytes :: "nat \<Rightarrow> 'a::len word \<Rightarrow> u8 list" where
  "be_bytes 0 w = []"
| "be_bytes (Suc n) w = ucast (drop_bit (8 * n) w) # be_bytes n w"

definition be_step :: "'a::len word \<Rightarrow> u8 \<Rightarrow> 'a word" where
  "be_step acc b = push_bit 8 acc OR ucast b"

definition be_word :: "u8 list \<Rightarrow> 'a::len word" where
  "be_word bs = foldl be_step 0 bs"

lemma length_be_bytes [simp]: "length (be_bytes n w) = n"
  by (induction n) auto

lemma foldl_be_step:
  "foldl be_step a (be_bytes n w) = push_bit (8 * n) a OR take_bit (8 * n) w"
  for a w :: "'a::len word"
proof (induction n arbitrary: a)
  case 0
  then show ?case by simp
next
  case (Suc n)
  have "push_bit (8 * n) (push_bit 8 a OR ucast (ucast (drop_bit (8 * n) w) :: u8)) OR take_bit (8 * n) w
      = push_bit (8 * Suc n) a OR take_bit (8 * Suc n) w"
    by (rule bit_word_eqI) (auto simp: bit_simps add.commute [of 8] dest: bit_imp_le_length)
  then show ?case
    by (simp only: be_bytes.simps foldl_Cons Suc.IH) (simp only: be_step_def)
qed

text \<open>The round trip, for every width that \<open>n\<close> bytes hold.\<close>

lemma be_word_be_bytes [simp]:
  assumes "LENGTH('a) \<le> 8 * n"
  shows "be_word (be_bytes n w) = (w :: 'a::len word)"
proof -
  have "take_bit (8 * n) w = w"
    using assms by (intro bit_word_eqI) (auto simp: bit_simps dest: bit_imp_le_length)
  then show ?thesis
    by (simp add: be_word_def foldl_be_step)
qed

lemma be_bytes_inject:
  assumes "LENGTH('a) \<le> 8 * n"
  shows "be_bytes n v = be_bytes n w \<longleftrightarrow> v = (w :: 'a::len word)"
  using assms be_word_be_bytes by metis

section \<open>Counters\<close>

lemma unat_u64_less [simp]: "unat (w :: u64) < 2 ^ 64"
  using unsigned_less [of w, where ?'a = nat] by simp

lemma unat_add_of_nat:
  assumes "unat w + n < 2 ^ LENGTH('a)"
  shows "unat (w + of_nat n :: 'a::len word) = unat w + n"
  using assms by (simp add: unat_word_ariths unat_of_nat mod_simps)

lemma unat_sub_of_nat:
  assumes "n \<le> unat w"
  shows "unat (w - of_nat n :: 'a::len word) = unat w - n"
proof -
  have "n < 2 ^ LENGTH('a)"
    using assms unsigned_less [of w, where ?'a = nat] by linarith
  then have "unat (of_nat n :: 'a word) = n" by (simp add: unat_of_nat)
  then show ?thesis using assms by (simp add: unat_sub word_le_nat_alt)
qed

section \<open>Sequence numbers modulo 256\<close>

text \<open>
  \<open>ahead e q\<close> is \<open>uint8_t(q - e)\<close>: how far \<open>q\<close> lies ahead of \<open>e\<close> on the
  circle of 256 sequence numbers.
\<close>

definition ahead :: "u8 \<Rightarrow> u8 \<Rightarrow> nat" where
  "ahead e q = unat (q - e)"

lemma ahead_less_256 [simp]: "ahead e q < 256"
  using unsigned_less [of "q - e"] by (simp add: ahead_def)

lemma ahead_self [simp, seq_simps]: "ahead e e = 0"
  by (simp add: ahead_def)

lemma ahead_eq_0 [simp, seq_simps]: "ahead e q = 0 \<longleftrightarrow> q = e"
  by (simp add: ahead_def unat_eq_0)

lemma ahead_add_of_nat [seq_simps]: "k < 256 \<Longrightarrow> ahead e (e + of_nat k) = k"
  by (simp add: ahead_def unat_of_nat)

lemma add_ahead [simp, seq_simps]: "e + of_nat (ahead e q) = q"
  by (simp add: ahead_def)

lemma ahead_inject [seq_simps]: "ahead e q = ahead e r \<longleftrightarrow> q = r"
  by (simp add: ahead_def word_unat_eq_iff [symmetric])

lemma ahead_Suc_base [seq_simps]:
  "ahead (e + 1) q = (if q = e then 255 else ahead e q - 1)"
proof -
  have "unat (q - e - 1) = (if q - e = 0 then 255 else unat (q - e) - 1)"
    using unat_minus_one [of "q - e"]
    by (simp add: unsigned_minus_1_eq_mask mask_eq_exp_minus_1)
  then show ?thesis by (simp add: ahead_def algebra_simps)
qed

lemma ahead_less_eq_word: "n < 256 \<Longrightarrow> (q - e < of_nat n) = (ahead e q < n)"
  by (simp add: ahead_def word_less_nat_alt unat_of_nat)

end
