(* ===== verification/Protocol.thy ===== *)
theory Protocol
  imports Prelude Complex_Main
begin

text \<open>
  \<open>protocol.h\<close>: the packed handshake packet, the codec tags, the sequence-number
  window \<open>isNewer\<close>, the sample-rate table and the sample conversion helper.
\<close>

record tcp_config_packet =
  cfg_version :: u8
  cfg_sampleRateIdx :: u8
  cfg_channels :: u8
  cfg_codec :: u8
  cfg_frameMs :: u8
  cfg_opusBitrateKbps :: u8

definition AUDIO_CODEC_PCM :: u8 where "AUDIO_CODEC_PCM = 0"
definition AUDIO_CODEC_OPUS :: u8 where "AUDIO_CODEC_OPUS = 1"
definition PROTOCOL_VERSION :: u8 where "PROTOCOL_VERSION = 1"

lemmas protocol_consts = AUDIO_CODEC_PCM_def AUDIO_CODEC_OPUS_def PROTOCOL_VERSION_def

text \<open>
  The packet is \<open>#pragma pack(1)\<close>: six bytes, in field order. \<open>config_of_bytes\<close> is
  the reinterpretation of the six received bytes as the struct.
\<close>

definition sizeof_TcpConfigPacket :: nat where "sizeof_TcpConfigPacket = 6"

definition config_of_bytes :: "u8 list \<Rightarrow> tcp_config_packet" where
  "config_of_bytes bs =
     \<lparr>cfg_version = bs ! 0, cfg_sampleRateIdx = bs ! 1, cfg_channels = bs ! 2,
      cfg_codec = bs ! 3, cfg_frameMs = bs ! 4, cfg_opusBitrateKbps = bs ! 5\<rparr>"

definition bytes_of_config :: "tcp_config_packet \<Rightarrow> u8 list" where
  "bytes_of_config c =
     [cfg_version c, cfg_sampleRateIdx c, cfg_channels c, cfg_codec c, cfg_frameMs c,
      cfg_opusBitrateKbps c]"

lemma config_of_bytes_of_config [simp]: "config_of_bytes (bytes_of_config c) = c"
  by (cases c) (simp add: config_of_bytes_def bytes_of_config_def)

lemma length_bytes_of_config [simp]: "length (bytes_of_config c) = sizeof_TcpConfigPacket"
  by (simp add: bytes_of_config_def sizeof_TcpConfigPacket_def)

section \<open>The sequence window\<close>

definition isNewer :: "u8 \<Rightarrow> u8 \<Rightarrow> bool" where
  "isNewer prev incoming \<longleftrightarrow> incoming \<noteq> prev \<and> incoming - prev < 15"

text \<open>
  Every caller passes \<open>expectedSeq - 1\<close>; in those terms the window is exactly the
  fourteen numbers that start at \<open>expectedSeq\<close>.
\<close>

definition in_window :: "u8 \<Rightarrow> u8 \<Rightarrow> bool" where
  "in_window e q \<longleftrightarrow> ahead e q < 14"

lemma isNewer_ahead: "isNewer l q \<longleftrightarrow> 1 \<le> ahead l q \<and> ahead l q \<le> 14"
proof -
  have "q \<noteq> l \<longleftrightarrow> 1 \<le> ahead l q" using ahead_eq_0 [of l q] by linarith
  moreover have "q - l < 15 \<longleftrightarrow> ahead l q \<le> 14" using ahead_less_eq_word [of 15 q l] by auto
  ultimately show ?thesis by (simp add: isNewer_def)
qed

lemma isNewer_expected: "isNewer (e - 1) q \<longleftrightarrow> in_window e q"
proof (cases "q = e - 1")
  case True
  then show ?thesis using ahead_Suc_base [of "e - 1" q] by (simp add: isNewer_ahead in_window_def)
next
  case False
  then have "ahead e q = ahead (e - 1) q - 1" and "1 \<le> ahead (e - 1) q"
    using ahead_Suc_base [of "e - 1" q] ahead_eq_0 [of "e - 1" q] by (simp, linarith)
  then show ?thesis by (auto simp: isNewer_ahead in_window_def)
qed

section \<open>Sample rates and sample conversion\<close>

definition getSampleRate :: "u8 \<Rightarrow> u32" where
  "getSampleRate index =
     (if index = 0 then 44100 else if index = 1 then 48000 else 0)"

lemma getSampleRate_supported: "getSampleRate i \<noteq> 0 \<longleftrightarrow> i = 0 \<or> i = 1"
  by (simp add: getSampleRate_def)

lemma getSampleRate_range:
  "getSampleRate i \<noteq> 0 \<Longrightarrow> getSampleRate i = 44100 \<or> getSampleRate i = 48000"
  by (auto simp: getSampleRate_def split: if_splits)

text \<open>
  \<open>convertInt16ToFloat32\<close>. An \<open>int16_t\<close> has at most 16 significant bits and the scale
  is a power of two, so the single-precision product is exact and is given here as the
  rational it denotes.
\<close>

definition convertInt16ToFloat32 :: "pcm \<Rightarrow> rat list" where
  "convertInt16ToFloat32 src = map (\<lambda>x. of_int (sint x) * (1 / 32768)) src"

end
