(* ===== verification/Fifo.thy ===== *)
theory Fifo
  imports Prelude
begin

text \<open>
  The contract between the receiving side and the rendering side of the program: a
  bounded first-in first-out queue that takes whole blocks, keeps what fits and drops
  the rest. \<open>bounded_fifo\<close> states the laws; what a sequence of operations preserves is
  proved once from them. \<open>Ring_Buffer\<close> interprets it.
\<close>

datatype 'a fifo_op = Put "'a list" | Get nat

text \<open>
  Runs a sequence of operations; returns the elements the queue took in, the elements it
  handed out, and the final queue.
\<close>

fun fifo_run ::
  "('a list \<Rightarrow> 'q \<Rightarrow> nat \<times> 'q) \<Rightarrow> (nat \<Rightarrow> 'q \<Rightarrow> 'a list \<times> 'q) \<Rightarrow> 'a fifo_op list \<Rightarrow> 'q \<Rightarrow>
     'a list \<times> 'a list \<times> 'q" where
  "fifo_run put get [] q = ([], [], q)"
| "fifo_run put get (Put xs # ops) q =
     (let (n, q1) = put xs q; (acc, out, q2) = fifo_run put get ops q1
      in (take n xs @ acc, out, q2))"
| "fifo_run put get (Get n # ops) q =
     (let (ys, q1) = get n q; (acc, out, q2) = fifo_run put get ops q1
      in (acc, ys @ out, q2))"

fun op_fits :: "nat \<Rightarrow> 'a fifo_op \<Rightarrow> bool" where
  "op_fits m (Put xs) = (length xs < m)"
| "op_fits m (Get n) = (n < m)"

text \<open>Every block and every request is a whole number of frames of \<open>c\<close> samples.\<close>

fun op_framed :: "nat \<Rightarrow> 'a fifo_op \<Rightarrow> bool" where
  "op_framed c (Put xs) = (c dvd length xs)"
| "op_framed c (Get n) = (c dvd n)"

locale bounded_fifo =
  fixes inv :: "'q \<Rightarrow> bool"
    and contents :: "'q \<Rightarrow> 'a list"
    and bound :: "'q \<Rightarrow> nat"
    and limit :: nat
    and put :: "'a list \<Rightarrow> 'q \<Rightarrow> nat \<times> 'q"
    and get :: "nat \<Rightarrow> 'q \<Rightarrow> 'a list \<times> 'q"
  assumes size_bound: "inv q \<Longrightarrow> length (contents q) \<le> bound q"
    and put_inv: "inv q \<Longrightarrow> length xs < limit \<Longrightarrow> put xs q = (n, q') \<Longrightarrow> inv q'"
    and put_count: "inv q \<Longrightarrow> length xs < limit \<Longrightarrow> put xs q = (n, q') \<Longrightarrow>
      n = min (length xs) (bound q - length (contents q))"
    and put_contents: "inv q \<Longrightarrow> length xs < limit \<Longrightarrow> put xs q = (n, q') \<Longrightarrow>
      contents q' = contents q @ take (bound q - length (contents q)) xs"
    and put_bound: "inv q \<Longrightarrow> length xs < limit \<Longrightarrow> put xs q = (n, q') \<Longrightarrow> bound q' = bound q"
    and get_inv: "inv q \<Longrightarrow> n < limit \<Longrightarrow> get n q = (ys, q') \<Longrightarrow> inv q'"
    and get_out: "inv q \<Longrightarrow> n < limit \<Longrightarrow> get n q = (ys, q') \<Longrightarrow> ys = take n (contents q)"
    and get_contents: "inv q \<Longrightarrow> n < limit \<Longrightarrow> get n q = (ys, q') \<Longrightarrow>
      contents q' = drop n (contents q)"
    and get_bound: "inv q \<Longrightarrow> n < limit \<Longrightarrow> get n q = (ys, q') \<Longrightarrow> bound q' = bound q"
begin

lemmas put_laws = put_inv put_count put_contents put_bound
lemmas get_laws = get_inv get_out get_contents get_bound

text \<open>What was inside, followed by what was taken in, is what came out, followed by what is left.\<close>

lemma run_fifo:
  assumes "inv q" and "list_all (op_fits limit) ops" and "fifo_run put get ops q = (acc, out, q')"
  shows "inv q' \<and> bound q' = bound q \<and> contents q @ acc = out @ contents q'"
  using assms
proof (induction ops arbitrary: q acc out)
  case Nil
  then show ?case by simp
next
  case (Cons op ops)
  show ?case
  proof (cases op)
    case (Put xs)
    obtain n q1 where p: "put xs q = (n, q1)" by fastforce
    obtain acc1 out1 where r: "fifo_run put get ops q1 = (acc1, out1, q')"
      "acc = take n xs @ acc1" "out = out1"
      using Cons.prems(3) by (auto simp: Put p split: prod.splits)
    have fits: "length xs < limit" using Cons.prems(2) by (simp add: Put)
    note laws = put_laws [OF Cons.prems(1) fits p]
    have "contents q1 = contents q @ take n xs"
      by (simp add: laws(2,3) min_def)
    then show ?thesis
      using Cons.IH [OF laws(1) _ r(1)] Cons.prems(2) laws(4) by (simp add: r)
  next
    case (Get n)
    obtain ys q1 where g: "get n q = (ys, q1)" by fastforce
    obtain acc1 out1 where r: "fifo_run put get ops q1 = (acc1, out1, q')"
      "acc = acc1" "out = ys @ out1"
      using Cons.prems(3) by (auto simp: Get g split: prod.splits)
    have fits: "n < limit" using Cons.prems(2) by (simp add: Get)
    note laws = get_laws [OF Cons.prems(1) fits g]
    have "contents q = ys @ contents q1"
      by (simp add: laws(2,3))
    then show ?thesis
      using Cons.IH [OF laws(1) _ r(1)] Cons.prems(2) laws(4) by (simp add: r)
  qed
qed

text \<open>
  Alignment: if the bound and every block and request are whole frames, the queue always
  holds whole frames, so no channel ever slips by a sample.
\<close>

lemma run_framed:
  assumes "inv q" and "c dvd bound q" and "c dvd length (contents q)"
    and "list_all (op_fits limit) ops" and "list_all (op_framed c) ops"
    and "fifo_run put get ops q = (acc, out, q')"
  shows "c dvd length (contents q') \<and> c dvd length out"
  using assms
proof (induction ops arbitrary: q acc out)
  case Nil
  then show ?case by simp
next
  case (Cons op ops)
  show ?case
  proof (cases op)
    case (Put xs)
    obtain n q1 where p: "put xs q = (n, q1)" by fastforce
    obtain acc1 out1 where r: "fifo_run put get ops q1 = (acc1, out1, q')" "out = out1"
      using Cons.prems(6) by (auto simp: Put p split: prod.splits)
    have fits: "length xs < limit" and framed: "c dvd length xs"
      using Cons.prems(4,5) by (simp_all add: Put)
    note laws = put_laws [OF Cons.prems(1) fits p]
    have "c dvd length (contents q1)"
      using framed Cons.prems(2,3) by (auto simp: laws(3) min_def)
    then show ?thesis
      using Cons.IH [OF laws(1) _ _ _ _ r(1)] Cons.prems(2,4,5) laws(4) by (simp add: r)
  next
    case (Get n)
    obtain ys q1 where g: "get n q = (ys, q1)" by fastforce
    obtain acc1 out1 where r: "fifo_run put get ops q1 = (acc1, out1, q')" "out = ys @ out1"
      using Cons.prems(6) by (auto simp: Get g split: prod.splits)
    have fits: "n < limit" and framed: "c dvd n" using Cons.prems(4,5) by (simp_all add: Get)
    note laws = get_laws [OF Cons.prems(1) fits g]
    have "c dvd length (contents q1)" and ys: "c dvd length ys"
      using framed Cons.prems(3) by (auto simp: laws(2,3) min_def)
    then show ?thesis
      using Cons.IH [OF laws(1) _ _ _ _ r(1)] Cons.prems(2,4,5) laws(4) by (simp add: r)
  qed
qed

end

end
