(* ===== verification/Ring_Buffer.thy ===== *)
theory Ring_Buffer
  imports Protocol Fifo
begin

text \<open>
  \<open>ring_buffer.h\<close>: the single-producer single-consumer sample buffer, its operations run
  one at a time. The interleaved executions are in \<open>Ring_Concurrent\<close>. \<open>head_\<close> and
  \<open>tail_\<close> are free-running 64-bit counters that are masked on use; the abstraction
  \<open>rb_contents\<close> reads the samples between them.
\<close>

section \<open>Copies that wrap around the end of a buffer\<close>

text \<open>The two \<open>memcpy\<close> calls of \<open>write\<close> and of \<open>read\<close>, as functions of the start slot.\<close>

definition wrap_store :: "nat \<Rightarrow> 'a list \<Rightarrow> 'a list \<Rightarrow> 'a list" where
  "wrap_store i xs buf =
     (let first = min (length xs) (length buf - i)
      in overwrite 0 (drop first xs) (overwrite i (take first xs) buf))"

definition wrap_load :: "nat \<Rightarrow> nat \<Rightarrow> 'a list \<Rightarrow> 'a list" where
  "wrap_load i n buf =
     (let first = min n (length buf - i)
      in take first (drop i buf) @ take (n - first) buf)"

lemma length_wrap_store [simp, mem_simps]:
  "i < length buf \<Longrightarrow> length xs \<le> length buf \<Longrightarrow> length (wrap_store i xs buf) = length buf"
  by (simp add: wrap_store_def Let_def)

lemma nth_wrap_store [mem_simps]:
  assumes "i < length buf" and "length xs \<le> length buf" and "p < length buf"
  shows "wrap_store i xs buf ! p =
    (let j = (p + length buf - i) mod length buf in if j < length xs then xs ! j else buf ! p)"
proof -
  have j: "(p + length buf - i) mod length buf = (if i \<le> p then p - i else p + length buf - i)"
    using assms by (auto simp: le_mod_geq)
  show ?thesis
    unfolding j using assms
    by (auto simp: wrap_store_def Let_def nth_overwrite min_def not_le intro!: arg_cong [of _ _ "(!) xs"])
qed

lemma slot_distance:
  fixes t i u c :: nat
  assumes "u \<le> c" and "0 < c"
  shows "((t + i) mod c + c - (t + u) mod c) mod c = (i + c - u) mod c"
proof -
  have "(t + u) mod c < c" using assms by simp
  then have "int (((t + i) mod c + c - (t + u) mod c) mod c)
      = ((int t + int i) mod int c + int c - (int t + int u) mod int c) mod int c"
    by (simp add: zmod_int of_nat_diff)
  also have "\<dots> = ((int t + int i) + int c - (int t + int u)) mod int c"
    by (intro mod_diff_cong mod_add_cong) simp_all
  also have "\<dots> = (int i + int c - int u) mod int c" by (simp add: algebra_simps)
  also have "\<dots> = int ((i + c - u) mod c)" using assms by (simp add: zmod_int of_nat_diff)
  finally show ?thesis by simp
qed

text \<open>
  A ring that holds \<open>u\<close> elements from counter \<open>t\<close> on, after storing \<open>xs\<close> behind them:
  the old elements stay, the new ones follow.
\<close>

lemma nth_ring_store:
  assumes "length buf = c" and "0 < c" and "u + length xs \<le> c" and "i < u + length xs"
  shows "wrap_store ((t + u) mod c) xs buf ! ((t + i) mod c) =
    (if i < u then buf ! ((t + i) mod c) else xs ! (i - u))"
proof -
  have "(i + c - u) mod c = (if i < u then i + c - u else i - u)"
    using assms by (auto simp: le_mod_geq)
  then show ?thesis
    using assms by (auto simp: nth_wrap_store slot_distance Let_def)
qed

lemma wrap_store_Nil [simp, mem_simps]: "wrap_store i [] buf = buf"
  by (simp add: wrap_store_def)

lemma wrap_store_take_Suc:
  assumes "length buf = c" and "i < c" and "length xs \<le> c" and "k < length xs"
  shows "wrap_store i (take (Suc k) xs) buf = (wrap_store i (take k xs) buf)[(i + k) mod c := xs ! k]"
proof (rule nth_equalityI)
  show "length (wrap_store i (take (Suc k) xs) buf)
      = length ((wrap_store i (take k xs) buf)[(i + k) mod c := xs ! k])"
    using assms by simp
  fix p assume "p < length (wrap_store i (take (Suc k) xs) buf)"
  then have p: "p < c" using assms by simp
  have "(p + c - i) mod c = k \<longleftrightarrow> p = (i + k) mod c"
    using p assms by (auto simp: mod_if)
  then show "wrap_store i (take (Suc k) xs) buf ! p
      = (wrap_store i (take k xs) buf)[(i + k) mod c := xs ! k] ! p"
    using p assms by (auto simp: nth_wrap_store Let_def nth_list_update less_Suc_eq)
qed

lemma length_wrap_load [simp, mem_simps]:
  "i < length buf \<Longrightarrow> n \<le> length buf \<Longrightarrow> length (wrap_load i n buf) = n"
  by (auto simp: wrap_load_def Let_def)

lemma wrap_load_map [mem_simps]:
  assumes "i < length buf" and "n \<le> length buf"
  shows "wrap_load i n buf = map (\<lambda>j. buf ! ((i + j) mod length buf)) [0..<n]"
proof (rule nth_equalityI)
  show "length (wrap_load i n buf) = length (map (\<lambda>j. buf ! ((i + j) mod length buf)) [0..<n])"
    using assms by simp
  fix j assume "j < length (wrap_load i n buf)"
  then have "j < n" using assms by simp
  then show "wrap_load i n buf ! j = map (\<lambda>j. buf ! ((i + j) mod length buf)) [0..<n] ! j"
    using assms
    by (auto simp: wrap_load_def Let_def nth_append le_mod_geq intro!: arg_cong [of _ _ "(!) buf"])
qed

section \<open>Capacity\<close>

definition nextPowerOf2 :: "u64 \<Rightarrow> u64" where
  "nextPowerOf2 n0 =
     (if n0 = 0 then 1
      else let n = n0 - 1;
               n = n OR drop_bit 1 n;
               n = n OR drop_bit 2 n;
               n = n OR drop_bit 4 n;
               n = n OR drop_bit 8 n;
               n = n OR drop_bit 16 n;
               n = n OR drop_bit 32 n
           in n + 1)"

text \<open>Each step doubles the distance over which set bits are smeared downwards.\<close>

definition smeared :: "nat \<Rightarrow> u64 \<Rightarrow> u64 \<Rightarrow> bool" where
  "smeared m n s \<longleftrightarrow> (\<forall>i. bit s i \<longleftrightarrow> (\<exists>j. i \<le> j \<and> j < i + m \<and> bit n j))"

lemma window_split:
  "(\<exists>j. i \<le> j \<and> j < i + 2 * m \<and> P j) \<longleftrightarrow>
     (\<exists>j. i \<le> j \<and> j < i + m \<and> P j) \<or> (\<exists>j. i + m \<le> j \<and> j < i + m + m \<and> P j)"
  for i m :: nat
proof
  assume "\<exists>j. i \<le> j \<and> j < i + 2 * m \<and> P j"
  then obtain j where "i \<le> j" "j < i + 2 * m" "P j" by blast
  then show "(\<exists>j. i \<le> j \<and> j < i + m \<and> P j) \<or> (\<exists>j. i + m \<le> j \<and> j < i + m + m \<and> P j)"
    by (cases "j < i + m") auto
next
  assume "(\<exists>j. i \<le> j \<and> j < i + m \<and> P j) \<or> (\<exists>j. i + m \<le> j \<and> j < i + m + m \<and> P j)"
  then show "\<exists>j. i \<le> j \<and> j < i + 2 * m \<and> P j"
  proof (elim disjE exE conjE)
    fix j assume "i \<le> j" "j < i + m" "P j"
    then show ?thesis by (intro exI [of _ j]) simp
  next
    fix j assume "i + m \<le> j" "j < i + m + m" "P j"
    then show ?thesis by (intro exI [of _ j]) simp
  qed
qed

lemma smeared_step:
  assumes "smeared m n s"
  shows "smeared (2 * m) n (s OR drop_bit m s)"
proof -
  have "bit (s OR drop_bit m s) i \<longleftrightarrow> bit s i \<or> bit s (i + m)" for i
    by (simp add: bit_or_iff bit_drop_bit_eq add.commute)
  then show ?thesis
    using assms by (simp add: smeared_def window_split)
qed

lemma smeared_64:
  assumes "smeared 64 n s" and "unat n < 2 ^ k" and "k = 0 \<or> 2 ^ (k - 1) \<le> unat n"
  shows "s = mask k"
proof (rule bit_word_eqI)
  fix i assume i: "i < LENGTH(64)"
  have above: "\<not> bit n j" if "k \<le> j" for j
  proof -
    have "unat n < 2 ^ j"
      using that assms(2) by (meson less_le_trans one_le_numeral power_increasing)
    then have "\<not> bit (unat n) j" by (simp add: bit_iff_odd)
    then show ?thesis by (simp add: bit_unsigned_iff)
  qed
  have top: "bit n (k - 1)" if "k \<noteq> 0"
  proof -
    have "(2::nat) ^ k = 2 ^ (k - 1) * Suc 1"
      using that by (simp add: power_eq_if)
    then have "unat n div 2 ^ (k - 1) = 1"
      using that assms(2,3) by (intro div_nat_eqI) auto
    then have "bit (unat n) (k - 1)" by (simp add: bit_iff_odd)
    then show ?thesis by (simp add: bit_unsigned_iff)
  qed
  have "bit s i \<longleftrightarrow> (\<exists>j. i \<le> j \<and> j < i + 64 \<and> bit n j)"
    using assms(1) by (simp add: smeared_def)
  also have "\<dots> \<longleftrightarrow> i < k"
  proof
    assume "\<exists>j. i \<le> j \<and> j < i + 64 \<and> bit n j"
    then show "i < k" using above by (meson le_less_trans linorder_not_le)
  next
    assume "i < k"
    then have "bit n (k - 1)" using top by simp
    moreover have "k - 1 < 64" using calculation bit_imp_le_length by fastforce
    ultimately show "\<exists>j. i \<le> j \<and> j < i + 64 \<and> bit n j"
      using \<open>i < k\<close> by (intro exI [of _ "k - 1"]) simp
  qed
  finally show "bit s i \<longleftrightarrow> bit (mask k :: u64) i"
    using i by (simp add: bit_mask_iff)
qed

lemma ex_bit_length: "\<exists>k. n < 2 ^ k \<and> (k = 0 \<or> 2 ^ (k - 1) \<le> n)" for n :: nat
proof -
  let ?k = "LEAST k. n < 2 ^ k"
  have "n < 2 ^ ?k" by (rule LeastI [of _ n]) (rule less_exp)
  moreover have "?k = 0 \<or> 2 ^ (?k - 1) \<le> n"
    using not_less_Least [of "?k - 1" "\<lambda>k. n < 2 ^ k"] by (cases "?k = 0") auto
  ultimately show ?thesis by blast
qed

lemma nextPowerOf2_mask:
  assumes "n \<noteq> 0" and "unat (n - 1) < 2 ^ k" and "k = 0 \<or> 2 ^ (k - 1) \<le> unat (n - 1)"
  shows "nextPowerOf2 n = mask k + 1"
proof -
  have "smeared 1 (n - 1) (n - 1)" by (auto simp: smeared_def le_less_Suc_eq)
  from this [THEN smeared_step, THEN smeared_step, THEN smeared_step, THEN smeared_step,
      THEN smeared_step, THEN smeared_step]
  have "smeared 64 (n - 1) (nextPowerOf2 n - 1)"
    using assms(1) by (simp add: nextPowerOf2_def Let_def)
  from smeared_64 [OF this assms(2,3)] show ?thesis by (metis diff_add_cancel)
qed

lemma unat_pow2_u64: "k \<le> 63 \<Longrightarrow> unat (2 ^ k :: u64) = 2 ^ k"
proof -
  assume "k \<le> 63"
  then have "(2::nat) ^ k < 2 ^ 64" by (intro power_strict_increasing) auto
  then have "unat (of_nat (2 ^ k) :: u64) = 2 ^ k"
    by (simp only: unat_of_nat len_num0 len_bit0 len_bit1 len_num1) simp
  then show ?thesis by simp
qed

text \<open>The capacity is the least power of two that holds the request.\<close>

lemma nextPowerOf2_least:
  assumes "0 < unat n" and "unat n \<le> 2 ^ 63"
  obtains k where "k \<le> 63" and "nextPowerOf2 n = 2 ^ k" and "unat (nextPowerOf2 n) = 2 ^ k"
    and "unat n \<le> 2 ^ k" and "2 ^ k < 2 * unat n"
proof -
  have n: "n \<noteq> 0" using assms(1) by auto
  have pred: "unat (n - 1) = unat n - 1" by (rule unat_minus_one [OF n])
  obtain k where k: "unat (n - 1) < 2 ^ k" "k = 0 \<or> 2 ^ (k - 1) \<le> unat (n - 1)"
    using ex_bit_length by blast
  have k63: "k \<le> 63"
  proof (rule ccontr)
    assume "\<not> k \<le> 63"
    then have "(2::nat) ^ 63 \<le> 2 ^ (k - 1)" by (intro power_increasing) auto
    then show False using k(2) \<open>\<not> k \<le> 63\<close> assms pred by simp
  qed
  have res: "nextPowerOf2 n = 2 ^ k"
    using nextPowerOf2_mask [OF n k] by (simp add: mask_eq_exp_minus_1)
  have "unat (2 ^ k :: u64) = 2 ^ k"
    using k63 by (rule unat_pow2_u64)
  moreover have "2 ^ k < 2 * unat n"
    using k(2) assms(1) pred by (cases k) auto
  ultimately show thesis
    using that [of k] k63 res k(1) pred assms(1) by simp
qed

section \<open>State and operations\<close>

record ring_buffer =
  rb_buffer :: pcm
  rb_capacity :: u64
  rb_mask :: u64
  rb_head :: u64
  rb_tail :: u64

definition ring_new :: "u64 \<Rightarrow> ring_buffer" where
  "ring_new capacity_samples =
     (let cap = nextPowerOf2 capacity_samples
      in \<lparr>rb_buffer = replicate (unat cap) 0, rb_capacity = cap, rb_mask = cap - 1,
          rb_head = 0, rb_tail = 0\<rparr>)"

definition rb_write :: "pcm \<Rightarrow> u64 \<Rightarrow> ring_buffer \<Rightarrow> u64 \<times> ring_buffer" where
  "rb_write data count rb =
     (let current_head = rb_head rb;
          current_tail = rb_tail rb;
          available = rb_capacity rb - (current_head - current_tail);
          to_write = min count available
      in if to_write = 0 then (0, rb)
         else let head_index = current_head AND rb_mask rb;
                  first_chunk = min to_write (rb_capacity rb - head_index);
                  second_chunk = to_write - first_chunk;
                  b1 = overwrite (unat head_index) (take (unat first_chunk) data) (rb_buffer rb);
                  b2 = (if second_chunk > 0
                        then overwrite 0 (take (unat second_chunk) (drop (unat first_chunk) data)) b1
                        else b1)
              in (to_write, rb\<lparr>rb_buffer := b2, rb_head := current_head + to_write\<rparr>))"

text \<open>
  \<open>rb_read\<close> returns the samples it stores at the front of the caller's array, beside the
  number of samples read.
\<close>

definition rb_read :: "u64 \<Rightarrow> ring_buffer \<Rightarrow> u64 \<times> pcm \<times> ring_buffer" where
  "rb_read count rb =
     (let current_tail = rb_tail rb;
          current_head = rb_head rb;
          available = current_head - current_tail;
          to_read = min count available
      in if to_read = 0 then (0, [], rb)
         else let tail_index = current_tail AND rb_mask rb;
                  first_chunk = min to_read (rb_capacity rb - tail_index);
                  second_chunk = to_read - first_chunk;
                  d1 = take (unat first_chunk) (drop (unat tail_index) (rb_buffer rb));
                  d2 = (if second_chunk > 0 then d1 @ take (unat second_chunk) (rb_buffer rb) else d1)
              in (to_read, d2, rb\<lparr>rb_tail := current_tail + to_read\<rparr>))"

definition rb_availableToRead :: "ring_buffer \<Rightarrow> u64" where
  "rb_availableToRead rb = rb_head rb - rb_tail rb"

definition rb_reset :: "ring_buffer \<Rightarrow> ring_buffer" where
  "rb_reset rb = rb\<lparr>rb_head := 0, rb_tail := 0\<rparr>"

section \<open>Abstraction and invariant\<close>

definition rb_cap :: "ring_buffer \<Rightarrow> nat" where
  "rb_cap rb = unat (rb_capacity rb)"

definition rb_used :: "ring_buffer \<Rightarrow> nat" where
  "rb_used rb = unat (rb_head rb - rb_tail rb)"

definition rb_contents :: "ring_buffer \<Rightarrow> pcm" where
  "rb_contents rb =
     map (\<lambda>j. rb_buffer rb ! ((unat (rb_tail rb) + j) mod rb_cap rb)) [0..<rb_used rb]"

text \<open>The capacity is a power of two, so that it divides the range of the counters.\<close>

definition rb_shape :: "ring_buffer \<Rightarrow> bool" where
  "rb_shape rb \<longleftrightarrow>
     (\<exists>k\<le>63. rb_cap rb = 2 ^ k) \<and> rb_mask rb = rb_capacity rb - 1 \<and>
     length (rb_buffer rb) = rb_cap rb"

definition rb_inv :: "ring_buffer \<Rightarrow> bool" where
  "rb_inv rb \<longleftrightarrow> rb_shape rb \<and> rb_used rb \<le> rb_cap rb"

lemma rb_inv_shape [simp]: "rb_inv rb \<Longrightarrow> rb_shape rb"
  by (simp add: rb_inv_def)

lemma rb_used_le_cap [simp]: "rb_inv rb \<Longrightarrow> rb_used rb \<le> rb_cap rb"
  by (simp add: rb_inv_def)

lemma rb_cap_pow2:
  assumes "rb_shape rb"
  obtains k where "k \<le> 63" and "rb_cap rb = 2 ^ k" and "rb_capacity rb = 2 ^ k"
proof -
  from assms obtain k where k: "k \<le> 63" "rb_cap rb = 2 ^ k" by (auto simp: rb_shape_def)
  then have "rb_capacity rb = 2 ^ k"
    using unat_pow2_u64 [of k] by (metis rb_cap_def word_unat_eq_iff)
  with k show thesis using that by blast
qed

lemma rb_cap_dvd: "rb_shape rb \<Longrightarrow> rb_cap rb dvd 2 ^ 64"
proof (erule rb_cap_pow2)
  fix k :: nat assume "k \<le> 63" and k: "rb_cap rb = 2 ^ k"
  then have "(2::nat) ^ k dvd 2 ^ 64" by (intro le_imp_power_dvd) simp
  then show "rb_cap rb dvd 2 ^ 64" by (simp only: k)
qed

lemma rb_cap_pos [simp]: "rb_shape rb \<Longrightarrow> 0 < rb_cap rb"
  by (erule rb_cap_pow2) simp

lemma rb_cap_less: "rb_cap rb < 2 ^ 64"
  by (simp only: rb_cap_def unat_u64_less)

lemma rb_mask_eq: "rb_shape rb \<Longrightarrow> rb_mask rb = rb_capacity rb - 1"
  by (simp add: rb_shape_def)

lemma rb_length_buffer [simp]: "rb_shape rb \<Longrightarrow> length (rb_buffer rb) = rb_cap rb"
  by (simp add: rb_shape_def)

lemma rb_shape_update [simp]:
  "rb_shape (rb\<lparr>rb_head := h\<rparr>) = rb_shape rb"
  "rb_shape (rb\<lparr>rb_tail := t\<rparr>) = rb_shape rb"
  "length b = length (rb_buffer rb) \<Longrightarrow> rb_shape (rb\<lparr>rb_buffer := b\<rparr>) = rb_shape rb"
  by (simp_all add: rb_shape_def rb_cap_def)

lemma rb_cap_update [simp]:
  "rb_cap (rb\<lparr>rb_head := h\<rparr>) = rb_cap rb"
  "rb_cap (rb\<lparr>rb_tail := t\<rparr>) = rb_cap rb"
  "rb_cap (rb\<lparr>rb_buffer := b\<rparr>) = rb_cap rb"
  by (simp_all add: rb_cap_def)

lemma rb_index:
  assumes "rb_shape rb"
  shows "unat (w AND rb_mask rb) = unat w mod rb_cap rb"
proof -
  obtain k where k: "k \<le> 63" "rb_cap rb = 2 ^ k" "rb_capacity rb = 2 ^ k"
    using assms by (rule rb_cap_pow2)
  have "rb_mask rb = mask k"
    by (simp only: rb_mask_eq [OF assms] k(3) mask_eq_exp_minus_1)
  then have "w AND rb_mask rb = take_bit k w" by (simp add: take_bit_eq_mask)
  then have "unat (w AND rb_mask rb) = take_bit k (unat w)"
    by (simp only: unsigned_take_bit_eq)
  then show ?thesis by (simp only: take_bit_eq_mod k(2))
qed

text \<open>Slots advance by one even where the 64-bit counter wraps.\<close>

lemma rb_slot_add:
  assumes "rb_shape rb"
  shows "unat (w + of_nat j :: u64) mod rb_cap rb = (unat w + j) mod rb_cap rb"
proof -
  have "unat (w + of_nat j) = (unat w + j) mod 2 ^ 64"
    by (simp add: unat_word_ariths unat_of_nat mod_simps)
  moreover have "rb_cap rb dvd 2 ^ 64" using assms by (rule rb_cap_dvd)
  ultimately show ?thesis by (simp add: mod_mod_cancel)
qed

lemma rb_index_of_nat:
  "rb_shape rb \<Longrightarrow> unat ((of_nat m :: u64) AND rb_mask rb) = m mod rb_cap rb"
  using rb_slot_add [of rb 0 m] by (simp add: rb_index)

section \<open>The operations as copies into the ring\<close>

text \<open>
  Under the invariant the word arithmetic of \<open>write\<close> and \<open>read\<close> does not overflow, and
  each is one wrapping copy between two counters.
\<close>

lemma rb_write_eq:
  assumes inv: "rb_inv rb" and len: "unat count \<le> length data"
  shows "rb_write data count rb =
    (let n = min (unat count) (rb_cap rb - rb_used rb) in
     (of_nat n,
      rb\<lparr>rb_buffer := wrap_store (unat (rb_head rb) mod rb_cap rb) (take n data) (rb_buffer rb),
         rb_head := rb_head rb + of_nat n\<rparr>))"
proof -
  define av where "av = rb_capacity rb - (rb_head rb - rb_tail rb)"
  define n where "n = min (unat count) (rb_cap rb - rb_used rb)"
  define hi where "hi = rb_head rb AND rb_mask rb"
  have "unat av = rb_cap rb - rb_used rb"
    using inv unat_sub [of "rb_head rb - rb_tail rb" "rb_capacity rb"]
    by (simp add: av_def rb_cap_def rb_used_def rb_inv_def word_le_nat_alt)
  then have w: "unat (min count av) = n"
    using len by (simp add: n_def min_def word_le_nat_alt)
  then have wn: "min count av = of_nat n" by (simp flip: w)
  have hi: "unat hi = unat (rb_head rb) mod rb_cap rb"
    using inv by (simp add: hi_def rb_index)
  then have hi_less: "unat hi < rb_cap rb" using inv by simp
  then have rest: "unat (rb_capacity rb - hi) = rb_cap rb - unat hi"
    by (simp add: unat_sub word_le_nat_alt rb_cap_def)
  define fc where "fc = min (min count av) (rb_capacity rb - hi)"
  have fc: "unat fc = min n (rb_cap rb - unat hi)"
    using w rest by (simp add: fc_def min_def word_le_nat_alt)
  then have sc: "unat (min count av - fc) = n - unat fc"
    using w by (simp add: unat_sub word_le_nat_alt)
  have first: "min (length (take n data)) (length (rb_buffer rb) - unat hi) = unat fc"
    using inv fc len by (simp add: n_def min_absorb2)
  have second: "drop (unat fc) (take n data) = take (n - unat fc) (drop (unat fc) data)"
    by (simp add: drop_take)
  have zero: "min count av = 0 \<longleftrightarrow> n = 0"
    using w by (metis unat_eq_zero)
  have sc0: "0 < min count av - fc \<longleftrightarrow> 0 < n - unat fc"
    using sc by (simp add: word_less_nat_alt)
  have copies: "wrap_store (unat hi) (take n data) (rb_buffer rb) =
      (let b1 = overwrite (unat hi) (take (unat fc) data) (rb_buffer rb)
       in if 0 < min count av - fc
          then overwrite 0 (take (unat (min count av - fc)) (drop (unat fc) data)) b1 else b1)"
    unfolding wrap_store_def Let_def first second sc0 sc using fc by (simp add: min_absorb1)
  have "rb_write data count rb =
      (if min count av = 0 then (0, rb)
       else (min count av, rb\<lparr>rb_buffer := wrap_store (unat hi) (take n data) (rb_buffer rb),
               rb_head := rb_head rb + min count av\<rparr>))"
    by (subst copies) (simp only: rb_write_def Let_def av_def hi_def fc_def)
  then show ?thesis
    unfolding Let_def n_def [symmetric] hi [symmetric] zero wn
    by (cases "n = 0") (simp_all add: zero flip: wn)
qed

lemma rb_read_eq:
  assumes inv: "rb_inv rb"
  shows "rb_read count rb =
    (let n = min (unat count) (rb_used rb) in
     (of_nat n, wrap_load (unat (rb_tail rb) mod rb_cap rb) n (rb_buffer rb),
      rb\<lparr>rb_tail := rb_tail rb + of_nat n\<rparr>))"
proof -
  define av where "av = rb_head rb - rb_tail rb"
  define n where "n = min (unat count) (rb_used rb)"
  define ti where "ti = rb_tail rb AND rb_mask rb"
  have w: "unat (min count av) = n"
    by (simp add: n_def av_def rb_used_def min_def word_le_nat_alt)
  then have wn: "min count av = of_nat n" by (simp flip: w)
  have ti: "unat ti = unat (rb_tail rb) mod rb_cap rb"
    using inv by (simp add: ti_def rb_index)
  then have ti_less: "unat ti < rb_cap rb" using inv by simp
  then have rest: "unat (rb_capacity rb - ti) = rb_cap rb - unat ti"
    by (simp add: unat_sub word_le_nat_alt rb_cap_def)
  define fc where "fc = min (min count av) (rb_capacity rb - ti)"
  have fc: "unat fc = min n (rb_cap rb - unat ti)"
    using w rest by (simp add: fc_def min_def word_le_nat_alt)
  then have sc: "unat (min count av - fc) = n - unat fc"
    using w by (simp add: unat_sub word_le_nat_alt)
  have first: "min n (length (rb_buffer rb) - unat ti) = unat fc"
    using inv fc by simp
  have zero: "min count av = 0 \<longleftrightarrow> n = 0"
    using w by (metis unat_eq_zero)
  have sc0: "0 < min count av - fc \<longleftrightarrow> 0 < n - unat fc"
    using sc by (simp add: word_less_nat_alt)
  have copies: "wrap_load (unat ti) n (rb_buffer rb) =
      (let d1 = take (unat fc) (drop (unat ti) (rb_buffer rb))
       in if 0 < min count av - fc
          then d1 @ take (unat (min count av - fc)) (rb_buffer rb) else d1)"
    unfolding wrap_load_def Let_def first sc0 sc by simp
  have "rb_read count rb =
      (if min count av = 0 then (0, [], rb)
       else (min count av, wrap_load (unat ti) n (rb_buffer rb),
             rb\<lparr>rb_tail := rb_tail rb + min count av\<rparr>))"
    by (subst copies) (simp only: rb_read_def Let_def av_def ti_def fc_def)
  moreover have "wrap_load (unat ti) 0 (rb_buffer rb) = []" by (simp add: wrap_load_def)
  ultimately show ?thesis
    unfolding Let_def n_def [symmetric] ti [symmetric] zero wn
    by (cases "n = 0") (simp_all add: zero flip: wn)
qed

section \<open>Refinement of a bounded FIFO of samples\<close>

lemma length_rb_contents [simp]: "length (rb_contents rb) = rb_used rb"
  by (simp add: rb_contents_def)

lemma nth_rb_contents:
  "i < rb_used rb \<Longrightarrow>
    rb_contents rb ! i = rb_buffer rb ! ((unat (rb_tail rb) + i) mod rb_cap rb)"
  by (simp add: rb_contents_def)

lemma rb_used_add:
  assumes "rb_inv rb" and "n \<le> rb_cap rb - rb_used rb"
  shows "unat (rb_head rb + of_nat n - rb_tail rb) = rb_used rb + n"
proof -
  have "rb_used rb + n < 2 ^ 64"
    using assms(2) rb_used_le_cap [OF assms(1)] unat_u64_less [of "rb_capacity rb"]
    unfolding rb_cap_def by linarith
  then have "unat ((rb_head rb - rb_tail rb) + of_nat n) = rb_used rb + n"
    unfolding rb_used_def by (intro unat_add_of_nat) simp
  then show ?thesis by (simp add: algebra_simps)
qed

lemma rb_used_sub:
  assumes "n \<le> rb_used rb"
  shows "unat (rb_head rb - (rb_tail rb + of_nat n)) = rb_used rb - n"
  using unat_sub_of_nat [of n "rb_head rb - rb_tail rb"] assms
  by (simp add: rb_used_def algebra_simps)

lemma rb_write_spec:
  assumes inv: "rb_inv rb" and len: "unat count \<le> length data" and res: "rb_write data count rb = (r, rb')"
  shows "rb_inv rb'" and "unat r = min (unat count) (rb_cap rb - rb_used rb)"
    and "rb_contents rb' = rb_contents rb @ take (min (unat count) (rb_cap rb - rb_used rb)) data"
    and "rb_cap rb' = rb_cap rb" and "rb_tail rb' = rb_tail rb"
proof -
  define n where "n = min (unat count) (rb_cap rb - rb_used rb)"
  let ?hs = "unat (rb_head rb) mod rb_cap rb"
  let ?ts = "unat (rb_tail rb)"
  have eq: "rb_write data count rb = (of_nat n,
      rb\<lparr>rb_buffer := wrap_store ?hs (take n data) (rb_buffer rb),
        rb_head := rb_head rb + of_nat n\<rparr>)"
    by (simp only: rb_write_eq [OF inv len] Let_def n_def)
  have r: "r = of_nat n" using arg_cong [OF eq, of fst] by (simp add: res)
  have rb': "rb' = rb\<lparr>rb_buffer := wrap_store ?hs (take n data) (rb_buffer rb),
        rb_head := rb_head rb + of_nat n\<rparr>"
    using arg_cong [OF eq, of snd] by (simp add: res)
  have n_le: "n \<le> rb_cap rb - rb_used rb" by (simp add: n_def)
  have used': "rb_used rb' = rb_used rb + n"
    using rb_used_add [OF inv n_le] by (simp add: rb' rb_used_def)
  show cap': "rb_cap rb' = rb_cap rb" by (simp add: rb' rb_cap_def)
  show tail': "rb_tail rb' = rb_tail rb" by (simp add: rb')
  have "n < 2 ^ 64" using unat_u64_less [of count] by (simp add: n_def)
  then show "unat r = min (unat count) (rb_cap rb - rb_used rb)"
    by (simp add: r unat_of_nat n_def)
  have pos: "0 < rb_cap rb" using inv by simp
  have xs: "length (take n data) \<le> length (rb_buffer rb)"
    using inv n_le by simp
  have len': "length (rb_buffer rb') = rb_cap rb"
    using inv pos xs by (simp add: rb')
  show "rb_inv rb'"
    using inv used' len' n_le rb_used_le_cap [OF inv] cap'
    by (simp add: rb_inv_def rb_shape_def) (simp add: rb')
  have head_slot: "?hs = (?ts + rb_used rb) mod rb_cap rb"
    using rb_slot_add [OF rb_inv_shape [OF inv], of "rb_tail rb" "rb_used rb"] by (simp add: rb_used_def)
  have room: "rb_used rb + n \<le> rb_cap rb" using n_le rb_used_le_cap [OF inv] by linarith
  have lenx: "length (take n data) = n" using len by (simp add: n_def)
  have "rb_contents rb' = rb_contents rb @ take n data"
  proof (rule nth_equalityI)
    show "length (rb_contents rb') = length (rb_contents rb @ take n data)"
      by (simp only: length_append length_rb_contents used' lenx)
    fix i assume "i < length (rb_contents rb')"
    then have i: "i < rb_used rb + n" by (simp add: used')
    then have "rb_contents rb' ! i = wrap_store ((?ts + rb_used rb) mod rb_cap rb) (take n data)
        (rb_buffer rb) ! ((?ts + i) mod rb_cap rb)"
      by (simp add: nth_rb_contents used' cap' tail') (simp add: rb' head_slot)
    also have "\<dots> = (if i < rb_used rb then rb_buffer rb ! ((?ts + i) mod rb_cap rb)
        else take n data ! (i - rb_used rb))"
      using inv pos i room by (intro nth_ring_store) (simp_all add: lenx del: length_take)
    finally show "rb_contents rb' ! i = (rb_contents rb @ take n data) ! i"
      using i by (simp add: nth_append nth_rb_contents)
  qed
  also have "take n data = take (min (unat count) (rb_cap rb - rb_used rb)) data" by (simp only: n_def)
  finally show "rb_contents rb' = rb_contents rb @ take (min (unat count) (rb_cap rb - rb_used rb)) data" .
qed

lemma rb_read_spec:
  assumes inv: "rb_inv rb" and res: "rb_read count rb = (r, out, rb')"
  shows "rb_inv rb'" and "unat r = min (unat count) (rb_used rb)"
    and "out = take (unat count) (rb_contents rb)"
    and "rb_contents rb' = drop (unat count) (rb_contents rb)"
    and "rb_cap rb' = rb_cap rb" and "rb_head rb' = rb_head rb" and "rb_buffer rb' = rb_buffer rb"
proof -
  define n where "n = min (unat count) (rb_used rb)"
  let ?ts = "unat (rb_tail rb)"
  have eq: "rb_read count rb = (of_nat n, wrap_load (?ts mod rb_cap rb) n (rb_buffer rb),
      rb\<lparr>rb_tail := rb_tail rb + of_nat n\<rparr>)"
    by (simp only: rb_read_eq [OF inv] Let_def n_def)
  have r: "r = of_nat n" using arg_cong [OF eq, of fst] by (simp add: res)
  have out: "out = wrap_load (?ts mod rb_cap rb) n (rb_buffer rb)"
    using arg_cong [OF eq, of "fst \<circ> snd"] by (simp add: res)
  have rb': "rb' = rb\<lparr>rb_tail := rb_tail rb + of_nat n\<rparr>"
    using arg_cong [OF eq, of "snd \<circ> snd"] by (simp add: res)
  have n_le: "n \<le> rb_used rb" by (simp add: n_def)
  have n_cap: "n \<le> rb_cap rb" using n_le rb_used_le_cap [OF inv] by simp
  have used': "rb_used rb' = rb_used rb - n"
    using rb_used_sub [OF n_le] by (simp add: rb' rb_used_def)
  show cap': "rb_cap rb' = rb_cap rb" by (simp add: rb' rb_cap_def)
  show "rb_head rb' = rb_head rb" and buf': "rb_buffer rb' = rb_buffer rb" by (simp_all add: rb')
  show "rb_inv rb'"
    using inv cap' used' rb_used_le_cap [OF inv] by (simp add: rb_inv_def) (simp add: rb')
  have "n < 2 ^ 64" using unat_u64_less [of count] by (simp add: n_def)
  then show "unat r = min (unat count) (rb_used rb)" by (simp add: r unat_of_nat n_def)
  have "out = map (\<lambda>j. rb_buffer rb ! ((?ts + j) mod rb_cap rb)) [0..<n]"
    using inv n_cap by (simp add: out wrap_load_map mod_simps)
  also have "\<dots> = take n (rb_contents rb)"
    using n_le by (simp add: rb_contents_def take_map take_upt)
  also have "\<dots> = take (unat count) (rb_contents rb)" by (simp add: n_def min_def)
  finally show "out = take (unat count) (rb_contents rb)" .
  have "rb_contents rb' = drop n (rb_contents rb)"
  proof (rule nth_equalityI)
    show "length (rb_contents rb') = length (drop n (rb_contents rb))" by (simp add: used')
    fix i assume "i < length (rb_contents rb')"
    then have i: "i < rb_used rb - n" by (simp add: used')
    then have "rb_contents rb' ! i = rb_buffer rb ! ((unat (rb_tail rb + of_nat n) + i) mod rb_cap rb)"
      by (simp add: nth_rb_contents used' cap' buf') (simp add: rb')
    also have "(unat (rb_tail rb + of_nat n) + i) mod rb_cap rb = (?ts + (n + i)) mod rb_cap rb"
      using rb_slot_add [OF rb_inv_shape [OF inv], of "rb_tail rb" n] by (metis add.assoc mod_add_left_eq)
    finally show "rb_contents rb' ! i = drop n (rb_contents rb) ! i"
      using i by (simp add: nth_rb_contents)
  qed
  also have "\<dots> = drop (unat count) (rb_contents rb)" by (simp add: n_def min_def)
  finally show "rb_contents rb' = drop (unat count) (rb_contents rb)" .
qed

lemma ring_new_spec:
  assumes "0 < unat n" and "unat n \<le> 2 ^ 63"
  shows "rb_inv (ring_new n)" and "rb_contents (ring_new n) = []"
    and "unat n \<le> rb_cap (ring_new n)" and "rb_cap (ring_new n) < 2 * unat n"
proof -
  obtain k where k: "k \<le> 63" "nextPowerOf2 n = 2 ^ k" "unat (nextPowerOf2 n) = 2 ^ k"
      "unat n \<le> 2 ^ k" "2 ^ k < 2 * unat n"
    using nextPowerOf2_least [OF assms] .
  have cap: "rb_cap (ring_new n) = 2 ^ k"
    by (simp only: rb_cap_def ring_new_def Let_def ring_buffer.simps k(3))
  show "rb_contents (ring_new n) = []"
    by (simp add: rb_contents_def rb_used_def ring_new_def Let_def)
  show "unat n \<le> rb_cap (ring_new n)" and "rb_cap (ring_new n) < 2 * unat n"
    using k cap by simp_all
  have "\<exists>k\<le>63. rb_cap (ring_new n) = 2 ^ k" using k(1) cap by blast
  moreover have "rb_mask (ring_new n) = rb_capacity (ring_new n) - 1"
    and "length (rb_buffer (ring_new n)) = rb_cap (ring_new n)"
    and "rb_used (ring_new n) \<le> rb_cap (ring_new n)"
    by (simp_all add: ring_new_def Let_def rb_cap_def rb_used_def)
  ultimately show "rb_inv (ring_new n)" by (simp only: rb_inv_def rb_shape_def simp_thms)
qed

lemma rb_availableToRead_spec: "unat (rb_availableToRead rb) = length (rb_contents rb)"
  by (simp add: rb_availableToRead_def rb_used_def)

lemma rb_reset_spec:
  assumes "rb_inv rb"
  shows "rb_inv (rb_reset rb)" and "rb_contents (rb_reset rb) = []"
  using assms by (simp_all add: rb_inv_def rb_reset_def rb_contents_def rb_used_def)

section \<open>The ring buffer implements the FIFO interface\<close>

text \<open>\<open>ringBuffer->write(pcm.data(), pcm.size())\<close>, the only way the program writes.\<close>

definition rb_put :: "pcm \<Rightarrow> ring_buffer \<Rightarrow> nat \<times> ring_buffer" where
  "rb_put xs rb = (case rb_write xs (of_nat (length xs)) rb of (r, rb') \<Rightarrow> (unat r, rb'))"

definition rb_get :: "nat \<Rightarrow> ring_buffer \<Rightarrow> pcm \<times> ring_buffer" where
  "rb_get n rb = (case rb_read (of_nat n) rb of (r, out, rb') \<Rightarrow> (out, rb'))"

lemma unat_of_nat_u64: "n < 2 ^ 64 \<Longrightarrow> unat (of_nat n :: u64) = n"
  by (simp add: unat_of_nat)

lemma rb_put_spec:
  assumes "rb_inv rb" and "length xs < 2 ^ 64" and "rb_put xs rb = (n, rb')"
  shows "rb_inv rb'" and "n = min (length xs) (rb_cap rb - length (rb_contents rb))"
    and "rb_contents rb' = rb_contents rb @ take (rb_cap rb - length (rb_contents rb)) xs"
    and "rb_cap rb' = rb_cap rb"
proof -
  obtain r where r: "rb_write xs (of_nat (length xs)) rb = (r, rb')" "n = unat r"
    using assms(3) by (auto simp: rb_put_def split: prod.splits)
  have count: "unat (of_nat (length xs) :: u64) = length xs" by (rule unat_of_nat_u64 [OF assms(2)])
  then have le: "unat (of_nat (length xs) :: u64) \<le> length xs" by simp
  note spec = rb_write_spec [OF assms(1) le r(1), unfolded count]
  show "rb_inv rb'" and "n = min (length xs) (rb_cap rb - length (rb_contents rb))"
    and "rb_contents rb' = rb_contents rb @ take (rb_cap rb - length (rb_contents rb)) xs"
    and "rb_cap rb' = rb_cap rb"
    using spec r(2) by (simp_all add: min_def)
qed

text \<open>Whatever the block, a write keeps the invariant and the capacity and only appends.\<close>

lemma rb_put_keeps:
  assumes "rb_inv rb"
  shows "rb_inv (snd (rb_put xs rb))" and "rb_cap (snd (rb_put xs rb)) = rb_cap rb"
    and "\<exists>ys. rb_contents (snd (rb_put xs rb)) = rb_contents rb @ ys"
proof -
  obtain r rb' where w: "rb_write xs (of_nat (length xs)) rb = (r, rb')" by fastforce
  then have p: "snd (rb_put xs rb) = rb'" by (simp add: rb_put_def)
  have "unat (of_nat (length xs) :: u64) \<le> length xs" by (simp add: unat_of_nat)
  note spec = rb_write_spec [OF assms this w]
  show "rb_inv (snd (rb_put xs rb))" and "rb_cap (snd (rb_put xs rb)) = rb_cap rb"
    and "\<exists>ys. rb_contents (snd (rb_put xs rb)) = rb_contents rb @ ys"
    using spec by (simp_all add: p)
qed

lemma rb_get_spec:
  assumes "rb_inv rb" and "n < 2 ^ 64" and "rb_get n rb = (out, rb')"
  shows "rb_inv rb'" and "out = take n (rb_contents rb)"
    and "rb_contents rb' = drop n (rb_contents rb)" and "rb_cap rb' = rb_cap rb"
proof -
  obtain r where r: "rb_read (of_nat n) rb = (r, out, rb')"
    using assms(3) by (auto simp: rb_get_def split: prod.splits)
  note spec = rb_read_spec [OF assms(1) r, unfolded unat_of_nat_u64 [OF assms(2)]]
  show "rb_inv rb'" and "out = take n (rb_contents rb)"
    and "rb_contents rb' = drop n (rb_contents rb)" and "rb_cap rb' = rb_cap rb"
    using spec by simp_all
qed

interpretation ring: bounded_fifo rb_inv rb_contents rb_cap "2 ^ 64" rb_put rb_get
  by unfold_locales (simp, (erule (2) rb_put_spec | erule (2) rb_get_spec)+)

section \<open>Properties\<close>

text \<open>
  C10: The ring buffer is a first-in first-out queue. Starting from the constructor, whatever
  sequence of writes and reads is run, the samples taken in are exactly the samples handed
  out followed by the samples still inside, in order; the structure stays well-formed and
  keeps its capacity. The counters may wrap past \<open>2 ^ 64\<close> any number of times.
\<close>

theorem ring_buffer_fifo:
  assumes "0 < unat n" and "unat n \<le> 2 ^ 63" and "list_all (op_fits (2 ^ 64)) ops"
    and "fifo_run rb_put rb_get ops (ring_new n) = (acc, out, rb)"
  shows "acc = out @ rb_contents rb \<and> rb_inv rb \<and> rb_cap rb = rb_cap (ring_new n)"
  using ring.run_fifo [OF ring_new_spec(1) [OF assms(1,2)] assms(3,4)]
  by (simp add: ring_new_spec(2) [OF assms(1,2)])

theorem ring_buffer_fifo_witness:
  "\<exists>rb. fifo_run rb_put rb_get [Put [1,2,3], Get 2, Put [4,5,6,7], Get 3] (ring_new 3) =
      ([1,2,3,4,5,6], [1,2,3,4,5], rb) \<and>
    [1,2,3,4,5,6] = [1,2,3,4,5] @ rb_contents rb"
proof -
  let ?rb = "(ring_new 3)\<lparr>rb_buffer := [5,6,3,4], rb_head := 6, rb_tail := 5\<rparr>"
  have run: "fifo_run rb_put rb_get [Put [1,2,3], Get 2, Put [4,5,6,7], Get 3] (ring_new 3) =
      ([1,2,3,4,5,6], [1,2,3,4,5], ?rb)"
    by code_simp
  show ?thesis using ring_buffer_fifo [OF _ _ _ run] run by simp
qed

text \<open>
  \<open>write\<close> takes as many samples as fit and no more: it returns the smaller of \<open>count\<close> and
  the free space, appends exactly that prefix of the data, leaves the read side alone, and
  never writes outside the buffer (the buffer keeps its length).
\<close>

theorem ring_buffer_write:
  assumes "rb_inv rb" and "unat count \<le> length data" and "rb_write data count rb = (r, rb')"
  shows "unat r = min (unat count) (rb_cap rb - length (rb_contents rb)) \<and>
    rb_contents rb' = rb_contents rb @ take (unat r) data \<and>
    rb_inv rb' \<and> rb_tail rb' = rb_tail rb \<and> length (rb_buffer rb') = length (rb_buffer rb)"
  using rb_write_spec [OF assms] assms(1) by simp

theorem ring_buffer_write_witness:
  "\<exists>rb'. rb_write [1,2,3] 3 ((ring_new 4)\<lparr>rb_head := 18446744073709551614, rb_tail := 18446744073709551614\<rparr>)
      = (3, rb') \<and> rb_head rb' = 1 \<and> rb_contents rb' = [1,2,3]"
proof -
  let ?rb = "(ring_new 4)\<lparr>rb_head := 18446744073709551614, rb_tail := 18446744073709551614\<rparr>"
  let ?rb' = "(ring_new 4)\<lparr>rb_buffer := [3,0,1,2], rb_head := 1, rb_tail := 18446744073709551614\<rparr>"
  have run: "rb_write [1,2,3] 3 ?rb = (3, ?rb')" by code_simp
  have cap: "rb_cap (ring_new 4) = 4" by code_simp
  have inv: "rb_inv ?rb" using ring_new_spec(1) [of 4] by (simp add: rb_inv_def rb_used_def)
  have "rb_contents ?rb = []" by (simp add: rb_contents_def rb_used_def)
  then show ?thesis using ring_buffer_write [OF inv _ run] run cap by simp
qed

text \<open>
  \<open>read\<close> delivers the oldest samples: it returns the smaller of \<open>count\<close> and what is
  stored, hands out exactly that prefix, removes it, and leaves the write side and the
  stored samples alone.
\<close>

theorem ring_buffer_read:
  assumes "rb_inv rb" and "rb_read count rb = (r, out, rb')"
  shows "unat r = min (unat count) (length (rb_contents rb)) \<and>
    out @ rb_contents rb' = rb_contents rb \<and> length out = unat r \<and>
    rb_inv rb' \<and> rb_head rb' = rb_head rb \<and> rb_buffer rb' = rb_buffer rb"
  using rb_read_spec [OF assms] by auto

theorem ring_buffer_read_witness:
  "\<exists>rb'. rb_read 2 (snd (rb_put [7,8,9] (ring_new 4))) = (2, [7,8], rb') \<and> rb_contents rb' = [9]"
proof -
  let ?rb = "snd (rb_put [7,8,9] (ring_new 4))"
  have inv: "rb_inv ?rb" by (intro rb_put_keeps ring_new_spec) simp_all
  have run: "rb_read 2 ?rb = (2, [7,8], ?rb\<lparr>rb_tail := 2\<rparr>)" by code_simp
  have "rb_contents ?rb = [7,8,9]" by code_simp
  then show ?thesis using ring_buffer_read [OF inv run] run by simp
qed

text \<open>
  C32: No channel slips: if the capacity is a whole number of frames of \<open>c\<close> samples and every
  write and every read request is, then after any sequence of operations the buffer holds
  whole frames and has delivered whole frames, also when writes were cut short because the
  buffer was full.
\<close>

theorem ring_buffer_keeps_frames:
  assumes "0 < unat n" and "unat n \<le> 2 ^ 63" and "c dvd rb_cap (ring_new n)"
    and "list_all (op_fits (2 ^ 64)) ops" and "list_all (op_framed c) ops"
    and "fifo_run rb_put rb_get ops (ring_new n) = (acc, out, rb)"
  shows "c dvd length (rb_contents rb) \<and> c dvd length out"
  using ring.run_framed [OF ring_new_spec(1) [OF assms(1,2)] assms(3) _ assms(4-6)]
  by (simp only: ring_new_spec(2) [OF assms(1,2)]) simp

theorem ring_buffer_keeps_frames_witness:
  "\<exists>acc rb. fifo_run rb_put rb_get [Put [1,2,3,4,5,6], Get 2] (ring_new 3) = (acc, [1,2], rb) \<and>
    2 dvd length (rb_contents rb)"
proof -
  let ?rb = "(ring_new 3)\<lparr>rb_buffer := [1,2,3,4], rb_head := 4, rb_tail := 2\<rparr>"
  have run: "fifo_run rb_put rb_get [Put [1,2,3,4,5,6], Get 2] (ring_new 3) = ([1,2,3,4], [1,2], ?rb)"
    by code_simp
  have cap: "rb_cap (ring_new 3) = 4" by code_simp
  show ?thesis using ring_buffer_keeps_frames [of 3 2, OF _ _ _ _ _ run] run cap by simp
qed

text \<open>
  The constructor rounds the requested capacity up to the least power of two that holds
  it, so that masking a counter is reducing it modulo the capacity; the new buffer is empty.
\<close>

theorem ring_buffer_capacity:
  assumes "0 < unat n" and "unat n \<le> 2 ^ 63"
  shows "(\<exists>k. rb_cap (ring_new n) = 2 ^ k) \<and> unat n \<le> rb_cap (ring_new n) \<and>
    rb_cap (ring_new n) < 2 * unat n \<and> rb_contents (ring_new n) = [] \<and>
    (\<forall>w. unat (w AND rb_mask (ring_new n)) = unat w mod rb_cap (ring_new n))"
proof -
  note spec = ring_new_spec [OF assms]
  show ?thesis using spec rb_index [of "ring_new n"] by (auto simp: rb_inv_def rb_shape_def)
qed

theorem ring_buffer_capacity_witness:
  "192000 \<le> rb_cap (ring_new 192000) \<and> rb_cap (ring_new 192000) < 384000"
  using ring_buffer_capacity [of 192000] by simp

end
