(* ===== verification/Ring_Concurrent.thy ===== *)
theory Ring_Concurrent
  imports Ring_Buffer
begin

text \<open>
  \<open>RingBuffer::write\<close> and \<open>RingBuffer::read\<close> as the two threads run them: each call is
  broken at its atomic accesses and at every copied sample, and the steps of the network
  thread and of the render thread interleave freely. The acquire loads see the last
  released store (each counter has one writer, and a release store publishes the copies
  before it), so interleavings of these steps are the executions the code allows.
  \<open>s_sent\<close> and \<open>s_got\<close> are history variables: the samples published and delivered.
\<close>

datatype prod_pc =
    P_Idle
  | P_Loaded pcm u64                \<comment> \<open>\<open>current_head\<close> loaded\<close>
  | P_Copy pcm u64 u64 nat          \<comment> \<open>\<open>to_write\<close> known, so many samples copied\<close>

datatype cons_pc =
    C_Idle
  | C_Loaded u64 u64                \<comment> \<open>\<open>count\<close>; \<open>current_tail\<close> loaded\<close>
  | C_Copy u64 u64 pcm              \<comment> \<open>\<open>current_tail\<close>, \<open>to_read\<close>, samples copied\<close>

record spsc =
  s_rb :: ring_buffer
  s_prod :: prod_pc
  s_cons :: cons_pc
  s_sent :: pcm
  s_got :: pcm

definition spsc_init :: "u64 \<Rightarrow> spsc" where
  "spsc_init n =
     \<lparr>s_rb = ring_new n, s_prod = P_Idle, s_cons = C_Idle, s_sent = [], s_got = []\<rparr>"

inductive prod_step :: "spsc \<Rightarrow> spsc \<Rightarrow> bool" where
  p_load_head: "s_prod s = P_Idle \<Longrightarrow> length data < 2 ^ 64 \<Longrightarrow>
    prod_step s (s\<lparr>s_prod := P_Loaded data (rb_head (s_rb s))\<rparr>)"
| p_load_tail: "s_prod s = P_Loaded data h \<Longrightarrow>
    n = min (of_nat (length data)) (rb_capacity (s_rb s) - (h - rb_tail (s_rb s))) \<Longrightarrow>
    prod_step s (s\<lparr>s_prod := (if n = 0 then P_Idle else P_Copy data h n 0)\<rparr>)"
| p_copy: "s_prod s = P_Copy data h n k \<Longrightarrow> k < unat n \<Longrightarrow>
    prod_step s (s\<lparr>s_rb := (s_rb s)\<lparr>rb_buffer :=
        (rb_buffer (s_rb s))[unat ((h + of_nat k) AND rb_mask (s_rb s)) := data ! k]\<rparr>,
      s_prod := P_Copy data h n (Suc k)\<rparr>)"
| p_publish: "s_prod s = P_Copy data h n k \<Longrightarrow> k = unat n \<Longrightarrow>
    prod_step s (s\<lparr>s_rb := (s_rb s)\<lparr>rb_head := h + n\<rparr>, s_prod := P_Idle,
      s_sent := s_sent s @ take (unat n) data\<rparr>)"

inductive cons_step :: "spsc \<Rightarrow> spsc \<Rightarrow> bool" where
  c_load_tail: "s_cons s = C_Idle \<Longrightarrow>
    cons_step s (s\<lparr>s_cons := C_Loaded count (rb_tail (s_rb s))\<rparr>)"
| c_load_head: "s_cons s = C_Loaded count t \<Longrightarrow> n = min count (rb_head (s_rb s) - t) \<Longrightarrow>
    cons_step s (s\<lparr>s_cons := (if n = 0 then C_Idle else C_Copy t n [])\<rparr>)"
| c_copy: "s_cons s = C_Copy t n out \<Longrightarrow> length out < unat n \<Longrightarrow>
    cons_step s (s\<lparr>s_cons := C_Copy t n
      (out @ [rb_buffer (s_rb s) ! unat ((t + of_nat (length out)) AND rb_mask (s_rb s))])\<rparr>)"
| c_release: "s_cons s = C_Copy t n out \<Longrightarrow> length out = unat n \<Longrightarrow>
    cons_step s (s\<lparr>s_rb := (s_rb s)\<lparr>rb_tail := t + n\<rparr>, s_cons := C_Idle,
      s_got := s_got s @ out\<rparr>)"

inductive spsc_reach :: "u64 \<Rightarrow> spsc \<Rightarrow> bool" for cap where
  start: "spsc_reach cap (spsc_init cap)"
| produce: "spsc_reach cap s \<Longrightarrow> prod_step s s' \<Longrightarrow> spsc_reach cap s'"
| consume: "spsc_reach cap s \<Longrightarrow> cons_step s s' \<Longrightarrow> spsc_reach cap s'"

section \<open>The invariant\<close>

text \<open>
  The counters are the lengths of the histories, modulo \<open>2 ^ 64\<close>; the slots between them
  hold the published, undelivered samples; what either thread has snapshotted stays
  within what the other one leaves alone.
\<close>

fun prod_inv :: "spsc \<Rightarrow> prod_pc \<Rightarrow> bool" where
  "prod_inv s P_Idle = True"
| "prod_inv s (P_Loaded data h) = (h = rb_head (s_rb s) \<and> length data < 2 ^ 64)"
| "prod_inv s (P_Copy data h n k) =
     (h = rb_head (s_rb s) \<and> unat n \<le> length data \<and> k \<le> unat n \<and>
      length (s_sent s) + unat n \<le> length (s_got s) + rb_cap (s_rb s) \<and>
      (\<forall>j<k. rb_buffer (s_rb s) ! ((length (s_sent s) + j) mod rb_cap (s_rb s)) = data ! j))"

fun cons_inv :: "spsc \<Rightarrow> cons_pc \<Rightarrow> bool" where
  "cons_inv s C_Idle = True"
| "cons_inv s (C_Loaded count t) = (t = rb_tail (s_rb s))"
| "cons_inv s (C_Copy t n out) =
     (t = rb_tail (s_rb s) \<and> length out \<le> unat n \<and>
      length (s_got s) + unat n \<le> length (s_sent s) \<and>
      out = take (length out) (drop (length (s_got s)) (s_sent s)))"

definition spsc_inv :: "spsc \<Rightarrow> bool" where
  "spsc_inv s \<longleftrightarrow>
     rb_shape (s_rb s) \<and>
     rb_head (s_rb s) = of_nat (length (s_sent s)) \<and>
     rb_tail (s_rb s) = of_nat (length (s_got s)) \<and>
     length (s_got s) \<le> length (s_sent s) \<and>
     length (s_sent s) \<le> length (s_got s) + rb_cap (s_rb s) \<and>
     s_got s = take (length (s_got s)) (s_sent s) \<and>
     (\<forall>i. length (s_got s) \<le> i \<longrightarrow> i < length (s_sent s) \<longrightarrow>
        rb_buffer (s_rb s) ! (i mod rb_cap (s_rb s)) = s_sent s ! i) \<and>
     prod_inv s (s_prod s) \<and> cons_inv s (s_cons s)"

lemma spsc_invD:
  assumes "spsc_inv s"
  shows "rb_shape (s_rb s)" and "rb_head (s_rb s) = of_nat (length (s_sent s))"
    and "rb_tail (s_rb s) = of_nat (length (s_got s))"
    and "length (s_got s) \<le> length (s_sent s)"
    and "length (s_sent s) \<le> length (s_got s) + rb_cap (s_rb s)"
    and "s_got s = take (length (s_got s)) (s_sent s)"
    and "\<And>i. length (s_got s) \<le> i \<Longrightarrow> i < length (s_sent s) \<Longrightarrow>
      rb_buffer (s_rb s) ! (i mod rb_cap (s_rb s)) = s_sent s ! i"
    and "prod_inv s (s_prod s)" and "cons_inv s (s_cons s)"
  using assms by (auto simp: spsc_inv_def)

lemma counters_diff:
  assumes "spsc_inv s"
  shows "unat (rb_head (s_rb s) - rb_tail (s_rb s)) = length (s_sent s) - length (s_got s)"
proof -
  note D = spsc_invD [OF assms]
  have "rb_head (s_rb s) - rb_tail (s_rb s) = of_nat (length (s_sent s) - length (s_got s))"
    using D(4) by (simp add: D(2,3) of_nat_diff)
  moreover have "length (s_sent s) - length (s_got s) < 2 ^ 64"
    using D(5) rb_cap_less [of "s_rb s"] by linarith
  ultimately show ?thesis by (simp only: unat_of_nat_u64)
qed

lemma spsc_rb_inv: "spsc_inv s \<Longrightarrow> rb_inv (s_rb s)"
  using counters_diff [of s] spsc_invD [of s] by (simp add: rb_inv_def rb_used_def)

lemma spsc_init_inv:
  assumes "0 < unat n" and "unat n \<le> 2 ^ 63"
  shows "spsc_inv (spsc_init n)"
proof -
  have "rb_shape (ring_new n)" using ring_new_spec(1) [OF assms] by simp
  moreover have "rb_head (ring_new n) = 0" and "rb_tail (ring_new n) = 0"
    by (simp_all add: ring_new_def Let_def)
  ultimately show ?thesis by (simp add: spsc_inv_def spsc_init_def)
qed

text \<open>Two counters less than a whole ring apart use different slots.\<close>

lemma slots_differ:
  fixes a b c :: nat
  assumes "a < b" and "b < a + c"
  shows "a mod c \<noteq> b mod c"
proof
  assume "a mod c = b mod c"
  then have "c dvd b - a" using assms by (metis mod_eq_dvd_iff_nat less_imp_le)
  then show False using assms by (auto dest: dvd_imp_le)
qed

section \<open>Every step of either thread keeps the invariant\<close>

lemma prod_step_inv:
  assumes "prod_step s s'" and "spsc_inv s"
  shows "spsc_inv s'"
  using assms
proof (induction rule: prod_step.induct)
  case (p_load_head s data)
  note D = spsc_invD [OF p_load_head.prems]
  show ?case using p_load_head D by (cases "s_cons s") (auto simp: spsc_inv_def)
next
  case (p_load_tail s data h n)
  note D = spsc_invD [OF p_load_tail.prems]
  have h: "h = rb_head (s_rb s)" and len: "length data < 2 ^ 64"
    using D(8) p_load_tail.hyps(1) by simp_all
  have room: "unat (rb_capacity (s_rb s) - (h - rb_tail (s_rb s))) =
      rb_cap (s_rb s) - (length (s_sent s) - length (s_got s))"
    using D(5) counters_diff [OF p_load_tail.prems]
    by (simp add: h unat_sub word_le_nat_alt rb_cap_def)
  have "unat n = min (length data) (rb_cap (s_rb s) - (length (s_sent s) - length (s_got s)))"
    unfolding p_load_tail.hyps(2) min_def word_le_nat_alt room unat_of_nat_u64 [OF len]
    by (simp add: room unat_of_nat_u64 [OF len])
  then have "unat n \<le> length data" "length (s_sent s) + unat n \<le> length (s_got s) + rb_cap (s_rb s)"
    using D(4,5) by auto
  then show ?case using D h by (cases "s_cons s") (auto simp: spsc_inv_def)
next
  case (p_copy s data h n k)
  note D = spsc_invD [OF p_copy.prems]
  let ?c = "rb_cap (s_rb s)" and ?H = "length (s_sent s)" and ?T = "length (s_got s)"
  let ?slot = "(?H + k) mod ?c"
  have P: "h = of_nat ?H" "?H + unat n \<le> ?T + ?c" "unat n \<le> length data" "k < unat n"
      "\<forall>j<k. rb_buffer (s_rb s) ! ((?H + j) mod ?c) = data ! j"
    using D(2,8) p_copy.hyps by simp_all
  have slot: "unat ((of_nat ?H + of_nat k) AND rb_mask (s_rb s)) = ?slot"
    using rb_index_of_nat [OF D(1), of "?H + k"] by simp
  have less: "?slot < length (rb_buffer (s_rb s))" using D(1) by simp
  have published: "i mod ?c \<noteq> ?slot" if "?T \<le> i" "i < ?H" for i
    using slots_differ [of i "?H + k" ?c] that P by simp
  have copied: "(?H + j) mod ?c \<noteq> ?slot" if "j < k" for j
    using slots_differ [of "?H + j" "?H + k" ?c] that P D(4) by simp
  let ?b = "(rb_buffer (s_rb s))[?slot := data ! k]"
  have "?b ! (i mod ?c) = s_sent s ! i" if "?T \<le> i" "i < ?H" for i
    using published [OF that] D(7) [OF that] by (metis nth_list_update_neq)
  moreover have "\<forall>j<Suc k. ?b ! ((?H + j) mod ?c) = data ! j"
    using copied P(5) less by (auto simp: less_Suc_eq nth_list_update_neq [OF not_sym])
  ultimately show ?case
    using D P p_copy.hyps by (cases "s_cons s") (auto simp: spsc_inv_def slot)
next
  case (p_publish s data h n k)
  note D = spsc_invD [OF p_publish.prems]
  let ?c = "rb_cap (s_rb s)" and ?H = "length (s_sent s)" and ?T = "length (s_got s)"
  have P: "h = of_nat ?H" "?H + unat n \<le> ?T + ?c" "unat n \<le> length data"
      "\<forall>j<unat n. rb_buffer (s_rb s) ! ((?H + j) mod ?c) = data ! j"
    using D(2,8) p_publish.hyps by simp_all
  have head: "h + n = of_nat (?H + unat n)" by (simp add: P(1))
  have "rb_buffer (s_rb s) ! (i mod ?c) = (s_sent s @ take (unat n) data) ! i"
    if "?T \<le> i" "i < ?H + unat n" for i
    using that D(7) [of i] P(3) P(4) [rule_format, of "i - ?H"] by (auto simp: nth_append)
  then show ?case
    using D P head
    by (cases "s_cons s") (auto simp: spsc_inv_def min_def)
qed

lemma cons_step_inv:
  assumes "cons_step s s'" and "spsc_inv s"
  shows "spsc_inv s'"
  using assms
proof (induction rule: cons_step.induct)
  case (c_load_tail s count)
  note D = spsc_invD [OF c_load_tail.prems]
  show ?case using c_load_tail D by (cases "s_prod s") (auto simp: spsc_inv_def)
next
  case (c_load_head s count t n)
  note D = spsc_invD [OF c_load_head.prems]
  have t: "t = rb_tail (s_rb s)" using D(9) c_load_head.hyps(1) by simp
  have "unat n \<le> length (s_sent s) - length (s_got s)"
    using counters_diff [OF c_load_head.prems]
    by (simp add: c_load_head.hyps(2) t min_def word_le_nat_alt)
  then have "length (s_got s) + unat n \<le> length (s_sent s)" using D(4) by linarith
  then show ?case using D t by (cases "s_prod s") (auto simp: spsc_inv_def)
next
  case (c_copy s t n out)
  note D = spsc_invD [OF c_copy.prems]
  let ?c = "rb_cap (s_rb s)" and ?H = "length (s_sent s)" and ?T = "length (s_got s)"
  let ?x = "rb_buffer (s_rb s) ! unat ((of_nat ?T + of_nat (length out)) AND rb_mask (s_rb s))"
  have P: "t = of_nat ?T" "?T + unat n \<le> ?H" "out = take (length out) (drop ?T (s_sent s))"
    using D(3,9) c_copy.hyps(1) by simp_all
  have "unat ((of_nat ?T + of_nat (length out)) AND rb_mask (s_rb s)) = (?T + length out) mod ?c"
    using rb_index_of_nat [OF D(1), of "?T + length out"] by simp
  then have x: "?x = s_sent s ! (?T + length out)"
    using D(7) [of "?T + length out"] P(2) c_copy.hyps(2) by simp
  have "out @ [?x] = take (length (out @ [?x])) (drop ?T (s_sent s))"
    using P c_copy.hyps(2) by (simp add: x take_Suc_conv_app_nth flip: P(3))
  then show ?case using D P c_copy.hyps by (cases "s_prod s") (auto simp: spsc_inv_def)
next
  case (c_release s t n out)
  note D = spsc_invD [OF c_release.prems]
  let ?H = "length (s_sent s)" and ?T = "length (s_got s)"
  have P: "t = of_nat ?T" "?T + unat n \<le> ?H" "out = take (length out) (drop ?T (s_sent s))"
    using D(3,9) c_release.hyps(1) by simp_all
  have tail: "t + n = of_nat (?T + length out)" using c_release.hyps(2) by (simp add: P(1))
  have "s_got s @ out = take (?T + length out) (s_sent s)"
    using D(6) P(3) by (metis take_add)
  moreover have "length (s_got s @ out) = ?T + length out" by simp
  ultimately show ?case
    using D P tail c_release.hyps by (cases "s_prod s") (auto simp: spsc_inv_def)
qed

lemma spsc_reach_inv:
  assumes "spsc_reach n s" and "0 < unat n" and "unat n \<le> 2 ^ 63"
  shows "spsc_inv s"
  using assms
  by (induction rule: spsc_reach.induct)
    (auto intro: spsc_init_inv prod_step_inv cons_step_inv)

section \<open>The two threads never touch the same sample\<close>

definition writing_slot :: "spsc \<Rightarrow> nat option" where
  "writing_slot s = (case s_prod s of
     P_Copy data h n k \<Rightarrow>
       if k < unat n then Some (unat ((h + of_nat k) AND rb_mask (s_rb s))) else None
   | _ \<Rightarrow> None)"

definition reading_slot :: "spsc \<Rightarrow> nat option" where
  "reading_slot s = (case s_cons s of
     C_Copy t n out \<Rightarrow>
       if length out < unat n then Some (unat ((t + of_nat (length out)) AND rb_mask (s_rb s)))
       else None
   | _ \<Rightarrow> None)"

lemma writing_slotD:
  assumes "spsc_inv s" and "writing_slot s = Some a"
  obtains m where "a = m mod rb_cap (s_rb s)" and "length (s_sent s) \<le> m"
    and "m < length (s_got s) + rb_cap (s_rb s)"
proof -
  note D = spsc_invD [OF assms(1)]
  obtain data h n k where P: "s_prod s = P_Copy data h n k" "k < unat n"
      "a = unat ((h + of_nat k) AND rb_mask (s_rb s))"
    using assms(2) by (auto simp: writing_slot_def split: prod_pc.splits if_splits)
  have "a = (length (s_sent s) + k) mod rb_cap (s_rb s)"
    using rb_index_of_nat [OF D(1), of "length (s_sent s) + k"] D(2,8) P by simp
  then show thesis using that D(8) P by simp
qed

lemma reading_slotD:
  assumes "spsc_inv s" and "reading_slot s = Some b"
  obtains m where "b = m mod rb_cap (s_rb s)" and "length (s_got s) \<le> m"
    and "m < length (s_sent s)"
proof -
  note D = spsc_invD [OF assms(1)]
  obtain t n out where P: "s_cons s = C_Copy t n out" "length out < unat n"
      "b = unat ((t + of_nat (length out)) AND rb_mask (s_rb s))"
    using assms(2) by (auto simp: reading_slot_def split: cons_pc.splits if_splits)
  have "b = (length (s_got s) + length out) mod rb_cap (s_rb s)"
    using rb_index_of_nat [OF D(1), of "length (s_got s) + length out"] D(3,9) P by simp
  then show thesis using that [of "length (s_got s) + length out"] D(9) P by simp
qed

lemma slots_in_ring:
  assumes "spsc_inv s" and "writing_slot s = Some a \<or> reading_slot s = Some a"
  shows "a < length (rb_buffer (s_rb s))"
  using assms(2) spsc_invD(1) [OF assms(1)]
  by (auto elim: writing_slotD [OF assms(1)] reading_slotD [OF assms(1)])

lemma slots_disjoint:
  assumes "spsc_inv s" and "writing_slot s = Some a" and "reading_slot s = Some b"
  shows "a \<noteq> b"
proof -
  obtain m where m: "a = m mod rb_cap (s_rb s)" "length (s_sent s) \<le> m"
      "m < length (s_got s) + rb_cap (s_rb s)"
    using writing_slotD [OF assms(1,2)] .
  obtain m' where m': "b = m' mod rb_cap (s_rb s)" "length (s_got s) \<le> m'" "m' < length (s_sent s)"
    using reading_slotD [OF assms(1,3)] .
  show ?thesis using slots_differ [of m' m "rb_cap (s_rb s)"] m m' by simp
qed

section \<open>A call that is not interleaved is the sequential operation\<close>

text \<open>A step inside a call of \<open>write\<close>, which does not begin the next one.\<close>

definition busy_step :: "spsc \<Rightarrow> spsc \<Rightarrow> bool" where
  "busy_step s s' \<longleftrightarrow> s_prod s \<noteq> P_Idle \<and> prod_step s s'"

inductive_cases prod_stepE: "prod_step s s'"

lemma busy_step_deterministic: "busy_step s a \<Longrightarrow> busy_step s b \<Longrightarrow> a = b"
  unfolding busy_step_def by (elim conjE prod_stepE) auto

lemma busy_steps_end:
  assumes "busy_step\<^sup>*\<^sup>* s a" and "busy_step\<^sup>*\<^sup>* s b" and "s_prod a = P_Idle" and "s_prod b = P_Idle"
  shows "a = b"
  using assms
proof (induction arbitrary: b rule: converse_rtranclp_induct)
  case base
  then show ?case by (metis busy_step_def converse_rtranclpE)
next
  case (step s s1)
  have "s \<noteq> b" using step.hyps(1) step.prems(3) by (auto simp: busy_step_def)
  then obtain s2 where "busy_step s s2" "busy_step\<^sup>*\<^sup>* s2 b" using step.prems(1) by (metis converse_rtranclpE)
  then show ?case using step busy_step_deterministic by metis
qed

text \<open>Until a call ends, it publishes nothing.\<close>

lemma busy_steps_publish_last:
  assumes "busy_step\<^sup>*\<^sup>* s s'" and "s_prod s' \<noteq> P_Idle"
  shows "s_sent s' = s_sent s \<and> rb_head (s_rb s') = rb_head (s_rb s)"
  using assms
proof (induction rule: rtranclp_induct)
  case base
  then show ?case by simp
next
  case (step s1 s2)
  have "s_prod s1 \<noteq> P_Idle" "prod_step s1 s2" using step.hyps(2) by (simp_all add: busy_step_def)
  then have "s_sent s2 = s_sent s1 \<and> rb_head (s_rb s2) = rb_head (s_rb s1)"
    using step.prems by (auto elim: prod_stepE)
  then show ?case using step.IH \<open>s_prod s1 \<noteq> P_Idle\<close> by simp
qed

lemma prod_copies:
  assumes "s_prod s = P_Copy data h n k" and "k + m \<le> unat n"
  shows "busy_step\<^sup>*\<^sup>* s (s\<lparr>s_rb := (s_rb s)\<lparr>rb_buffer :=
      fold (\<lambda>j b. b[unat ((h + of_nat j) AND rb_mask (s_rb s)) := data ! j]) [k..<k + m]
        (rb_buffer (s_rb s))\<rparr>, s_prod := P_Copy data h n (k + m)\<rparr>)"
  using assms(2)
proof (induction m)
  case 0
  have "s\<lparr>s_rb := (s_rb s)\<lparr>rb_buffer := rb_buffer (s_rb s)\<rparr>, s_prod := P_Copy data h n k\<rparr> = s"
    using assms(1) by simp
  then show ?case by simp
next
  case (Suc m)
  let ?f = "\<lambda>j b. b[unat ((h + of_nat j) AND rb_mask (s_rb s)) := data ! j]"
  let ?s1 = "s\<lparr>s_rb := (s_rb s)\<lparr>rb_buffer := fold ?f [k..<k + m] (rb_buffer (s_rb s))\<rparr>,
      s_prod := P_Copy data h n (k + m)\<rparr>"
  have "busy_step\<^sup>*\<^sup>* s ?s1" using Suc by simp
  moreover have "busy_step ?s1 (s\<lparr>s_rb := (s_rb s)\<lparr>rb_buffer :=
      fold ?f [k..<k + Suc m] (rb_buffer (s_rb s))\<rparr>, s_prod := P_Copy data h n (k + Suc m)\<rparr>)"
    using p_copy [of ?s1 data h n "k + m"] Suc.prems by (simp add: busy_step_def)
  ultimately show ?case by (rule rtranclp.rtrancl_into_rtrancl)
qed

lemma fold_copies:
  assumes "rb_shape rb" and "m \<le> length xs" and "m \<le> rb_cap rb"
  shows "fold (\<lambda>j b. b[unat ((h + of_nat j) AND rb_mask rb) := xs ! j]) [0..<m] (rb_buffer rb)
    = wrap_store (unat h mod rb_cap rb) (take m xs) (rb_buffer rb)"
  using assms(2,3)
proof (induction m)
  case 0
  then show ?case by simp
next
  case (Suc m)
  have "unat ((h + of_nat m) AND rb_mask rb) = (unat h mod rb_cap rb + m) mod rb_cap rb"
    using assms(1) by (simp add: rb_index rb_slot_add mod_simps)
  then show ?case
    using Suc assms(1) wrap_store_take_Suc [of "rb_buffer rb" "rb_cap rb" "unat h mod rb_cap rb"
        "take (Suc m) xs" m]
    by (simp add: min_def)
qed

lemma producer_alone:
  assumes inv: "spsc_inv s" and idle: "s_prod s = P_Idle" and len: "length data < 2 ^ 64"
  shows "\<exists>s'. busy_step\<^sup>*\<^sup>* (s\<lparr>s_prod := P_Loaded data (rb_head (s_rb s))\<rparr>) s' \<and> s_prod s' = P_Idle \<and>
    s_rb s' = snd (rb_write data (of_nat (length data)) (s_rb s)) \<and>
    s_sent s' = s_sent s @ take (unat (fst (rb_write data (of_nat (length data)) (s_rb s)))) data \<and>
    s_cons s' = s_cons s \<and> s_got s' = s_got s"
proof -
  let ?rb = "s_rb s"
  define h where "h = rb_head ?rb"
  define n where "n = min (of_nat (length data)) (rb_capacity ?rb - (h - rb_tail ?rb))"
  define N where "N = min (length data) (rb_cap ?rb - rb_used ?rb)"
  note rbi = spsc_rb_inv [OF inv]
  have "unat (rb_capacity ?rb - (h - rb_tail ?rb)) = rb_cap ?rb - rb_used ?rb"
    using rb_used_le_cap [OF rbi] by (simp add: h_def unat_sub word_le_nat_alt rb_cap_def rb_used_def)
  then have unat_n: "unat n = N"
    by (simp add: n_def N_def min_def word_le_nat_alt unat_of_nat_u64 [OF len])
  have n: "n = of_nat N" by (simp flip: unat_n)
  have rbw: "rb_write data (of_nat (length data)) ?rb = (n, ?rb\<lparr>
      rb_buffer := wrap_store (unat h mod rb_cap ?rb) (take N data) (rb_buffer ?rb),
      rb_head := h + n\<rparr>)"
    using rb_write_eq [OF rbi, of "of_nat (length data)" data] unat_of_nat_u64 [OF len]
    by (simp add: Let_def N_def h_def n)
  have s2: "busy_step (s\<lparr>s_prod := P_Loaded data h\<rparr>)
      (s\<lparr>s_prod := (if n = 0 then P_Idle else P_Copy data h n 0)\<rparr>)"
    using p_load_tail [of "s\<lparr>s_prod := P_Loaded data h\<rparr>" data h n] by (simp add: n_def busy_step_def)
  have h: "P_Loaded data (rb_head ?rb) = P_Loaded data h" by (simp add: h_def)
  show ?thesis
  proof (cases "n = 0")
    case True
    then have "N = 0" using unat_n by simp
    then have "s_rb (s\<lparr>s_prod := P_Idle\<rparr>) = snd (rb_write data (of_nat (length data)) ?rb)"
      using True by (simp add: rbw h_def)
    then show ?thesis using s2 True unfolding h
      by (intro exI [of _ "s\<lparr>s_prod := P_Idle\<rparr>"]) (auto simp: rbw)
  next
    case False
    let ?s2 = "s\<lparr>s_prod := P_Copy data h n 0\<rparr>"
    define buf where "buf =
      fold (\<lambda>j b. b[unat ((h + of_nat j) AND rb_mask ?rb) := data ! j]) [0..<N] (rb_buffer ?rb)"
    let ?s3 = "s\<lparr>s_rb := ?rb\<lparr>rb_buffer := buf\<rparr>, s_prod := P_Copy data h n N\<rparr>"
    let ?s4 = "s\<lparr>s_rb := ?rb\<lparr>rb_buffer := buf, rb_head := h + n\<rparr>, s_prod := P_Idle,
        s_sent := s_sent s @ take N data\<rparr>"
    have "busy_step\<^sup>*\<^sup>* ?s2 ?s3"
      using prod_copies [of ?s2 data h n 0 N] by (simp add: unat_n flip: buf_def)
    moreover have "busy_step ?s3 ?s4"
    proof -
      have "prod_step ?s3 (?s3\<lparr>s_rb := (s_rb ?s3)\<lparr>rb_head := h + n\<rparr>, s_prod := P_Idle,
          s_sent := s_sent ?s3 @ take (unat n) data\<rparr>)"
        by (rule p_publish [where k = N]) (simp, rule unat_n [symmetric])
      then show ?thesis by (simp add: unat_n busy_step_def)
    qed
    moreover have "busy_step\<^sup>*\<^sup>* (s\<lparr>s_prod := P_Loaded data h\<rparr>) ?s2" using s2 False by simp
    ultimately have "busy_step\<^sup>*\<^sup>* (s\<lparr>s_prod := P_Loaded data h\<rparr>) ?s4" by (meson rtranclp.rtrancl_into_rtrancl rtranclp_trans)
    moreover have "buf = wrap_store (unat h mod rb_cap ?rb) (take N data) (rb_buffer ?rb)"
      unfolding buf_def using rbi by (intro fold_copies) (simp_all add: N_def)
    then have "s_rb ?s4 = snd (rb_write data (of_nat (length data)) ?rb)" by (simp add: rbw)
    ultimately show ?thesis unfolding h by (intro exI [of _ ?s4]) (simp add: rbw unat_n)
  qed
qed

lemma spsc_contents:
  assumes "spsc_inv s"
  shows "rb_contents (s_rb s) = drop (length (s_got s)) (s_sent s)"
proof (rule nth_equalityI)
  note D = spsc_invD [OF assms]
  have used: "rb_used (s_rb s) = length (s_sent s) - length (s_got s)"
    using counters_diff [OF assms] by (simp add: rb_used_def)
  then show "length (rb_contents (s_rb s)) = length (drop (length (s_got s)) (s_sent s))" by simp
  fix i assume "i < length (rb_contents (s_rb s))"
  then have i: "i < rb_used (s_rb s)" by simp
  have "unat (rb_tail (s_rb s)) mod rb_cap (s_rb s) = length (s_got s) mod rb_cap (s_rb s)"
    using rb_slot_add [OF D(1), of 0 "length (s_got s)"] by (simp add: D(3))
  then have "(unat (rb_tail (s_rb s)) + i) mod rb_cap (s_rb s) = (length (s_got s) + i) mod rb_cap (s_rb s)"
    by (rule mod_add_cong) simp
  then show "rb_contents (s_rb s) ! i = drop (length (s_got s)) (s_sent s) ! i"
    using D(7) [of "length (s_got s) + i"] i used by (simp add: nth_rb_contents)
qed

section \<open>Properties\<close>

text \<open>
  C1: The ring buffer is correct under every interleaving of one writing and one reading
  thread: what the reader was handed, followed by what the buffer holds, is exactly what
  the writer published, in order. No sample is lost, repeated, torn or read before it was
  published.
\<close>

theorem spsc_linear:
  assumes "spsc_reach n s" and "0 < unat n" and "unat n \<le> 2 ^ 63"
  shows "s_sent s = s_got s @ rb_contents (s_rb s)"
proof -
  note inv = spsc_reach_inv [OF assms]
  show ?thesis using spsc_contents [OF inv] spsc_invD(6) [OF inv] by (metis append_take_drop_id)
qed

text \<open>A run in which the reader's load falls between the writer's load and its publication.\<close>

definition spsc_demo :: spsc where
  "spsc_demo = \<lparr>s_rb = (ring_new 1)\<lparr>rb_buffer := [7], rb_head := 1\<rparr>, s_prod = P_Idle, s_cons = C_Loaded 1 0,
     s_sent = [7], s_got = []\<rparr>"

lemma spsc_demo_reach: "spsc_reach 1 spsc_demo"
proof -
  have new: "ring_new 1 = \<lparr>rb_buffer = [0], rb_capacity = 1, rb_mask = 0, rb_head = 0, rb_tail = 0\<rparr>"
    by code_simp
  let ?s1 = "(spsc_init 1)\<lparr>s_prod := P_Loaded [7] 0\<rparr>"
  let ?s2 = "?s1\<lparr>s_cons := C_Loaded 1 0\<rparr>"
  let ?s3 = "?s2\<lparr>s_prod := P_Copy [7] 0 1 0\<rparr>"
  let ?s4 = "?s3\<lparr>s_rb := (ring_new 1)\<lparr>rb_buffer := [7]\<rparr>, s_prod := P_Copy [7] 0 1 1\<rparr>"
  have "prod_step (spsc_init 1) ?s1"
    using p_load_head [of "spsc_init 1" "[7]"] by (simp add: spsc_init_def new)
  moreover have "cons_step ?s1 ?s2"
    using c_load_tail [of ?s1 1] by (simp add: spsc_init_def new)
  moreover have "prod_step ?s2 ?s3"
    using p_load_tail [of ?s2 "[7]" 0 1] by (simp add: spsc_init_def new)
  moreover have "prod_step ?s3 ?s4"
    using p_copy [of ?s3 "[7]" 0 1 0] by (simp add: spsc_init_def new)
  moreover have "prod_step ?s4 spsc_demo"
    using p_publish [of ?s4 "[7]" 0 1 1] by (simp add: spsc_init_def new spsc_demo_def)
  ultimately show ?thesis by (meson spsc_reach.intros)
qed

theorem spsc_linear_witness: "s_sent spsc_demo = s_got spsc_demo @ rb_contents (s_rb spsc_demo)"
  by (rule spsc_linear [OF spsc_demo_reach]) simp_all

text \<open>
  C9: Race freedom: in no reachable state does the writer store into the slot that the
  reader is about to copy from, and both always index inside the buffer. The copies
  themselves therefore need no synchronisation beyond the two counters.
\<close>

theorem spsc_race_free:
  assumes "spsc_reach n s" and "0 < unat n" and "unat n \<le> 2 ^ 63"
    and "writing_slot s = Some a" and "reading_slot s = Some b"
  shows "a \<noteq> b \<and> a < length (rb_buffer (s_rb s)) \<and> b < length (rb_buffer (s_rb s))"
proof -
  note inv = spsc_reach_inv [OF assms(1-3)]
  show ?thesis
    using slots_disjoint [OF inv assms(4,5)] slots_in_ring [OF inv] assms(4,5) by blast
qed

definition spsc_busy :: spsc where
  "spsc_busy = \<lparr>s_rb = (ring_new 2)\<lparr>rb_buffer := [7, 0], rb_head := 1\<rparr>, s_prod = P_Copy [8] 1 1 0,
     s_cons = C_Copy 0 1 [], s_sent = [7], s_got = []\<rparr>"

lemma spsc_busy_reach: "spsc_reach 2 spsc_busy"
proof -
  have new: "ring_new 2 = \<lparr>rb_buffer = [0, 0], rb_capacity = 2, rb_mask = 1, rb_head = 0, rb_tail = 0\<rparr>"
    by code_simp
  let ?s1 = "(spsc_init 2)\<lparr>s_prod := P_Loaded [7] 0\<rparr>"
  let ?s2 = "?s1\<lparr>s_prod := P_Copy [7] 0 1 0\<rparr>"
  let ?s3 = "?s2\<lparr>s_rb := (ring_new 2)\<lparr>rb_buffer := [7, 0]\<rparr>, s_prod := P_Copy [7] 0 1 1\<rparr>"
  let ?s4 = "?s3\<lparr>s_rb := (ring_new 2)\<lparr>rb_buffer := [7, 0], rb_head := 1\<rparr>, s_prod := P_Idle, s_sent := [7]\<rparr>"
  let ?s5 = "?s4\<lparr>s_prod := P_Loaded [8] 1\<rparr>"
  let ?s6 = "?s5\<lparr>s_prod := P_Copy [8] 1 1 0\<rparr>"
  let ?s7 = "?s6\<lparr>s_cons := C_Loaded 1 0\<rparr>"
  have "prod_step (spsc_init 2) ?s1"
    using p_load_head [of "spsc_init 2" "[7]"] by (simp add: spsc_init_def new)
  moreover have "prod_step ?s1 ?s2"
    using p_load_tail [of ?s1 "[7]" 0 1] by (simp add: spsc_init_def new)
  moreover have "prod_step ?s2 ?s3"
    using p_copy [of ?s2 "[7]" 0 1 0] by (simp add: spsc_init_def new)
  moreover have "prod_step ?s3 ?s4"
    using p_publish [of ?s3 "[7]" 0 1 1] by (simp add: spsc_init_def new)
  moreover have "prod_step ?s4 ?s5"
    using p_load_head [of ?s4 "[8]"] by (simp add: spsc_init_def new)
  moreover have "prod_step ?s5 ?s6"
    using p_load_tail [of ?s5 "[8]" 1 1] by (simp add: spsc_init_def new)
  moreover have "cons_step ?s6 ?s7"
    using c_load_tail [of ?s6 1] by (simp add: spsc_init_def new)
  moreover have "cons_step ?s7 spsc_busy"
    using c_load_head [of ?s7 1 0 1] by (simp add: spsc_init_def new spsc_busy_def)
  ultimately show ?thesis by (meson spsc_reach.intros)
qed

theorem spsc_race_free_witness:
  "writing_slot spsc_busy = Some 1 \<and> reading_slot spsc_busy = Some 0 \<and> (1 :: nat) \<noteq> 0"
proof -
  have "writing_slot spsc_busy = Some 1" and "reading_slot spsc_busy = Some 0" by code_simp+
  then show ?thesis using spsc_race_free [OF spsc_busy_reach, of 1 0] by simp
qed

text \<open>
  C35: The two-thread model refines the sequential one. From any reachable state in which the
  writer is idle, a call of \<open>write\<close> begins by loading the head; with the reader at rest it then runs in
  exactly one way to exactly one end. There the buffer is what \<open>rb_write\<close> computes, and the
  samples published are those that \<open>rb_write\<close> reports as written; until then the call has
  published nothing and moved no counter.
\<close>

theorem spsc_write_refines:
  assumes "spsc_reach n s" and "0 < unat n" and "unat n \<le> 2 ^ 63"
    and "s_prod s = P_Idle" and "length data < 2 ^ 64"
    and "s1 = s\<lparr>s_prod := P_Loaded data (rb_head (s_rb s))\<rparr>"
  shows "prod_step s s1 \<and> (\<exists>!s'. busy_step\<^sup>*\<^sup>* s1 s' \<and> s_prod s' = P_Idle) \<and>
    (\<forall>s'. busy_step\<^sup>*\<^sup>* s1 s' \<and> s_prod s' = P_Idle \<longrightarrow>
      s_rb s' = snd (rb_write data (of_nat (length data)) (s_rb s)) \<and>
      s_sent s' = s_sent s @ take (unat (fst (rb_write data (of_nat (length data)) (s_rb s)))) data \<and>
      s_cons s' = s_cons s \<and> s_got s' = s_got s) \<and>
    (\<forall>s'. busy_step\<^sup>*\<^sup>* s1 s' \<and> s_prod s' \<noteq> P_Idle \<longrightarrow>
      s_sent s' = s_sent s \<and> rb_head (s_rb s') = rb_head (s_rb s))"
proof -
  obtain s' where s': "busy_step\<^sup>*\<^sup>* s1 s'" "s_prod s' = P_Idle"
      "s_rb s' = snd (rb_write data (of_nat (length data)) (s_rb s))"
      "s_sent s' = s_sent s @ take (unat (fst (rb_write data (of_nat (length data)) (s_rb s)))) data"
      "s_cons s' = s_cons s" "s_got s' = s_got s"
    using producer_alone [OF spsc_reach_inv [OF assms(1-3)] assms(4,5)] unfolding assms(6) [symmetric] by blast
  have only: "t = s'" if "busy_step\<^sup>*\<^sup>* s1 t" "s_prod t = P_Idle" for t
    using busy_steps_end [OF that(1) s'(1) that(2) s'(2)] .
  have "prod_step s s1" using p_load_head [OF assms(4,5)] by (simp add: assms(6))
  moreover have "s_sent t = s_sent s \<and> rb_head (s_rb t) = rb_head (s_rb s)"
    if "busy_step\<^sup>*\<^sup>* s1 t" "s_prod t \<noteq> P_Idle" for t
    using busy_steps_publish_last [OF that] by (simp add: assms(6))
  ultimately show ?thesis using s' only by blast
qed

theorem spsc_write_refines_witness:
  "\<exists>!s'. busy_step\<^sup>*\<^sup>* ((spsc_init 4)\<lparr>s_prod := P_Loaded [1,2,3,4,5] 0\<rparr>) s' \<and> s_prod s' = P_Idle"
proof -
  have idle: "s_prod (spsc_init 4) = P_Idle" and head: "rb_head (s_rb (spsc_init 4)) = 0" by code_simp+
  have four: "0 < unat (4 :: u64)" "unat (4 :: u64) \<le> 2 ^ 63" by simp_all
  have five: "length [1,2,3,4,5 :: 16 word] < 2 ^ 64" by simp
  note refines = spsc_write_refines [OF spsc_reach.start four idle five refl, unfolded head]
  show ?thesis by (rule refines [THEN conjunct2, THEN conjunct1])
qed

end
