(* ===== verification/Packet_Queue.thy ===== *)
theory Packet_Queue
  imports Prelude
begin

text \<open>
  \<open>packet_queue.h\<close>: the lock-free queue of packet pointers (declared, not yet used by
  \<open>main.cpp\<close>). A slot is \<open>None\<close> for \<open>nullptr\<close>. \<open>push\<close> and \<open>pop\<close> reduce indices with
  \<open>% capacity_\<close>, which is undefined for a queue built with capacity 0: there the model
  returns \<open>None\<close>.
\<close>

record audio_packet =
  ap_seq :: u8
  ap_data :: "u8 list"

record packet_queue =
  pq_capacity :: u64
  pq_queue :: "audio_packet option list"
  pq_head :: u64
  pq_tail :: u64

definition pq_new :: "u64 \<Rightarrow> packet_queue" where
  "pq_new capacity =
     \<lparr>pq_capacity = capacity, pq_queue = replicate (unat capacity) None, pq_head = 0, pq_tail = 0\<rparr>"

definition pq_push :: "audio_packet \<Rightarrow> packet_queue \<Rightarrow> (bool \<times> packet_queue) option" where
  "pq_push packet q =
     (let t = pq_tail q in
      if pq_capacity q = 0 then None
      else let next_t = (t + 1) mod pq_capacity q in
           if next_t = pq_head q then Some (False, q)
           else Some (True, q\<lparr>pq_queue := (pq_queue q)[unat t := Some packet], pq_tail := next_t\<rparr>))"

definition pq_pop :: "packet_queue \<Rightarrow> (audio_packet option \<times> packet_queue) option" where
  "pq_pop q =
     (let h = pq_head q in
      if h = pq_tail q then Some (None, q)
      else if pq_capacity q = 0 then None
      else let packet = pq_queue q ! unat h in
           Some (packet, q\<lparr>pq_queue := (pq_queue q)[unat h := None],
                           pq_head := (h + 1) mod pq_capacity q\<rparr>))"

section \<open>Abstraction and invariant\<close>

definition pq_cap :: "packet_queue \<Rightarrow> nat" where
  "pq_cap q = unat (pq_capacity q)"

definition pq_count :: "packet_queue \<Rightarrow> nat" where
  "pq_count q = (unat (pq_tail q) + pq_cap q - unat (pq_head q)) mod pq_cap q"

definition pq_slot :: "packet_queue \<Rightarrow> nat \<Rightarrow> nat" where
  "pq_slot q i = (unat (pq_head q) + i) mod pq_cap q"

definition pq_contents :: "packet_queue \<Rightarrow> audio_packet list" where
  "pq_contents q = map (\<lambda>i. the (pq_queue q ! pq_slot q i)) [0..<pq_count q]"

text \<open>
  Exactly the slots between head and tail hold a packet: what the destructor deletes is
  what the queue still owns.
\<close>

definition pq_inv :: "packet_queue \<Rightarrow> bool" where
  "pq_inv q \<longleftrightarrow>
     0 < pq_cap q \<and> length (pq_queue q) = pq_cap q \<and>
     unat (pq_head q) < pq_cap q \<and> unat (pq_tail q) < pq_cap q \<and>
     (\<forall>i<pq_cap q. pq_queue q ! pq_slot q i \<noteq> None \<longleftrightarrow> i < pq_count q)"

lemma pq_invI:
  assumes "0 < pq_cap q" and "length (pq_queue q) = pq_cap q"
    and "unat (pq_head q) < pq_cap q" and "unat (pq_tail q) < pq_cap q"
    and "\<And>i. i < pq_cap q \<Longrightarrow> pq_queue q ! pq_slot q i \<noteq> None \<longleftrightarrow> i < pq_count q"
  shows "pq_inv q"
  using assms by (auto simp: pq_inv_def)

lemma pq_new_inv: "n \<noteq> 0 \<Longrightarrow> pq_inv (pq_new n)"
  by (auto simp: pq_inv_def pq_new_def pq_cap_def pq_count_def pq_slot_def unat_gt_0)

lemma pq_new_contents: "n \<noteq> 0 \<Longrightarrow> pq_contents (pq_new n) = []"
  by (simp add: pq_contents_def pq_new_def pq_cap_def pq_count_def)

lemma pq_count_less: "pq_inv q \<Longrightarrow> pq_count q < pq_cap q"
  by (simp add: pq_inv_def pq_count_def)

lemma length_pq_contents [simp]: "length (pq_contents q) = pq_count q"
  by (simp add: pq_contents_def)

lemma unat_succ_mod:
  assumes "unat t < unat (c :: u64)"
  shows "unat ((t + 1) mod c) = (unat t + 1) mod unat c"
proof -
  have "unat (t + 1) = unat t + 1"
    using unat_add_of_nat [of t 1] assms unat_u64_less [of c] by simp
  then show ?thesis by (simp add: unat_mod_distrib)
qed

lemma pq_slot_inj:
  assumes "pq_inv q" and "i < pq_cap q" and "j < pq_cap q"
  shows "pq_slot q i = pq_slot q j \<longleftrightarrow> i = j"
proof -
  have "unat (pq_head q) < pq_cap q" using assms(1) by (simp add: pq_inv_def)
  then show ?thesis using assms(2,3) by (auto simp: pq_slot_def le_mod_geq mod_if split: if_splits)
qed

lemma pq_slot_count: "pq_inv q \<Longrightarrow> pq_slot q (pq_count q) = unat (pq_tail q)"
  by (auto simp: pq_inv_def pq_slot_def pq_count_def mod_if)

lemma pq_full:
  assumes "pq_inv q"
  shows "(pq_tail q + 1) mod pq_capacity q = pq_head q \<longleftrightarrow> pq_count q + 1 = pq_cap q"
proof -
  have lt: "unat (pq_tail q) < pq_cap q" "unat (pq_head q) < pq_cap q"
    using assms by (simp_all add: pq_inv_def)
  have "(pq_tail q + 1) mod pq_capacity q = pq_head q \<longleftrightarrow>
      (unat (pq_tail q) + 1) mod pq_cap q = unat (pq_head q)"
    using unat_succ_mod [of "pq_tail q" "pq_capacity q"] lt
    by (simp add: pq_cap_def word_unat_eq_iff)
  also have "\<dots> \<longleftrightarrow> pq_count q + 1 = pq_cap q"
    using lt by (auto simp: pq_count_def mod_if)
  finally show ?thesis .
qed

lemma pq_empty: "pq_inv q \<Longrightarrow> pq_head q = pq_tail q \<longleftrightarrow> pq_count q = 0"
  by (auto simp: pq_inv_def pq_count_def mod_if word_unat_eq_iff)

section \<open>The operations refine a list bounded by capacity minus one\<close>

lemma pq_push_spec:
  assumes inv: "pq_inv q" and res: "pq_push p q = Some (ok, q')"
  shows "pq_inv q'" and "ok \<longleftrightarrow> length (pq_contents q) + 1 < pq_cap q"
    and "pq_contents q' = (if ok then pq_contents q @ [p] else pq_contents q)"
    and "pq_cap q' = pq_cap q"
proof -
  have cap: "pq_capacity q \<noteq> 0" using inv by (auto simp: pq_inv_def pq_cap_def)
  have less: "pq_count q < pq_cap q" using inv by (rule pq_count_less)
  have "pq_inv q' \<and> (ok \<longleftrightarrow> length (pq_contents q) + 1 < pq_cap q) \<and>
      pq_contents q' = (if ok then pq_contents q @ [p] else pq_contents q) \<and> pq_cap q' = pq_cap q"
  proof (cases "pq_count q + 1 = pq_cap q")
    case True
    then have "ok = False \<and> q' = q"
      using res cap pq_full [OF inv] by (simp add: pq_push_def Let_def)
    then show ?thesis using inv True by simp
  next
    case False
    then have ok: "ok" and q': "q' = q\<lparr>pq_queue := (pq_queue q)[unat (pq_tail q) := Some p],
        pq_tail := (pq_tail q + 1) mod pq_capacity q\<rparr>"
      using res cap pq_full [OF inv] by (auto simp: pq_push_def Let_def)
    have cap': "pq_cap q' = pq_cap q" and slot': "pq_slot q' i = pq_slot q i" for i
      by (simp_all add: q' pq_cap_def pq_slot_def)
    have bounds: "unat (pq_tail q) < pq_cap q" "unat (pq_head q) < pq_cap q"
        "length (pq_queue q) = pq_cap q"
      using inv by (simp_all add: pq_inv_def)
    have tail': "unat (pq_tail q') = (unat (pq_tail q) + 1) mod pq_cap q"
      using bounds(1) by (simp add: q' unat_succ_mod pq_cap_def)
    have count': "pq_count q' = pq_count q + 1"
      using False less bounds tail' cap' by (auto simp: pq_count_def q' mod_if split: if_splits)
    have read: "pq_queue q' ! pq_slot q i = (if i = pq_count q then Some p else pq_queue q ! pq_slot q i)"
      if "i < pq_cap q" for i
      using pq_slot_inj [OF inv that less] pq_slot_count [OF inv] bounds
      by (auto simp: q' nth_list_update)
    have occ: "\<forall>i<pq_cap q. pq_queue q ! pq_slot q i \<noteq> None \<longleftrightarrow> i < pq_count q"
      using inv by (simp add: pq_inv_def)
    have "pq_queue q' ! pq_slot q' i \<noteq> None \<longleftrightarrow> i < pq_count q'" if "i < pq_cap q" for i
      using read [OF that] occ that by (auto simp: slot' count')
    moreover have "length (pq_queue q') = pq_cap q" and "pq_head q' = pq_head q"
      using bounds by (simp_all add: q')
    ultimately have "pq_inv q'"
      using bounds tail' less by (intro pq_invI) (simp_all add: cap')
    moreover have "pq_contents q' = pq_contents q @ [p]"
      using read less by (auto simp: pq_contents_def count' slot')
    ultimately show ?thesis using ok False less cap' by simp
  qed
  then show "pq_inv q'" and "ok \<longleftrightarrow> length (pq_contents q) + 1 < pq_cap q"
    and "pq_contents q' = (if ok then pq_contents q @ [p] else pq_contents q)"
    and "pq_cap q' = pq_cap q"
    by blast+
qed

lemma pq_pop_spec:
  assumes inv: "pq_inv q" and res: "pq_pop q = Some (r, q')"
  shows "pq_inv q'" and "r = (case pq_contents q of [] \<Rightarrow> None | p # _ \<Rightarrow> Some p)"
    and "pq_contents q' = tl (pq_contents q)" and "pq_cap q' = pq_cap q"
proof -
  have cap: "pq_capacity q \<noteq> 0" using inv by (auto simp: pq_inv_def pq_cap_def)
  have less: "pq_count q < pq_cap q" using inv by (rule pq_count_less)
  have "pq_inv q' \<and> r = (case pq_contents q of [] \<Rightarrow> None | p # _ \<Rightarrow> Some p) \<and>
      pq_contents q' = tl (pq_contents q) \<and> pq_cap q' = pq_cap q"
  proof (cases "pq_count q")
    case 0
    then have "r = None \<and> q' = q"
      using res pq_empty [OF inv] by (simp add: pq_pop_def Let_def)
    moreover have "pq_contents q = []" using 0 by (simp add: pq_contents_def)
    ultimately show ?thesis using inv by simp
  next
    case (Suc n)
    then have r: "r = pq_queue q ! unat (pq_head q)"
      and q': "q' = q\<lparr>pq_queue := (pq_queue q)[unat (pq_head q) := None],
          pq_head := (pq_head q + 1) mod pq_capacity q\<rparr>"
      using res cap pq_empty [OF inv] by (auto simp: pq_pop_def Let_def)
    have bounds: "unat (pq_tail q) < pq_cap q" "unat (pq_head q) < pq_cap q"
        "length (pq_queue q) = pq_cap q"
      using inv by (simp_all add: pq_inv_def)
    have cap': "pq_cap q' = pq_cap q" by (simp add: q' pq_cap_def)
    have head': "unat (pq_head q') = (unat (pq_head q) + 1) mod pq_cap q"
      using bounds(2) by (simp add: q' unat_succ_mod pq_cap_def)
    have slot': "pq_slot q' i = pq_slot q (i + 1)" for i
      by (simp add: pq_slot_def head' cap' mod_simps)
    have count': "pq_count q' = n"
      using Suc less bounds head' cap' by (auto simp: pq_count_def q' mod_if split: if_splits)
    have slot0: "pq_slot q 0 = unat (pq_head q)" using bounds by (simp add: pq_slot_def)
    have wrap: "pq_slot q (pq_cap q) = pq_slot q 0" by (simp add: pq_slot_def)
    have read: "pq_queue q' ! pq_slot q (i + 1) =
        (if i + 1 = pq_cap q then None else pq_queue q ! pq_slot q (i + 1))" if "i < pq_cap q" for i
      using pq_slot_inj [OF inv, of "i + 1" 0] that bounds slot0 wrap
      by (auto simp: q' nth_list_update)
    have occ: "\<forall>i<pq_cap q. pq_queue q ! pq_slot q i \<noteq> None \<longleftrightarrow> i < Suc n"
      using inv by (simp add: pq_inv_def Suc)
    have "pq_queue q' ! pq_slot q' i \<noteq> None \<longleftrightarrow> i < pq_count q'" if "i < pq_cap q" for i
      using read [OF that] occ that less Suc by (auto simp: slot' count')
    moreover have "length (pq_queue q') = pq_cap q" and "pq_tail q' = pq_tail q"
      using bounds by (simp_all add: q')
    ultimately have "pq_inv q'"
      using bounds head' less by (intro pq_invI) (simp_all add: cap')
    moreover have "pq_contents q = the (pq_queue q ! unat (pq_head q)) # pq_contents q'"
    proof -
      have "pq_contents q' = map (\<lambda>i. the (pq_queue q ! pq_slot q (i + 1))) [0..<n]"
        using read less Suc by (auto simp: pq_contents_def count' slot')
      then show ?thesis
        by (simp add: pq_contents_def Suc slot0 upt_conv_Cons map_Suc_upt [symmetric] del: upt_Suc)
    qed
    moreover have "pq_queue q ! unat (pq_head q) \<noteq> None"
      using occ slot0 less by (metis le_less_trans zero_le zero_less_Suc)
    ultimately show ?thesis using r cap' by auto
  qed
  then show "pq_inv q'" and "r = (case pq_contents q of [] \<Rightarrow> None | p # _ \<Rightarrow> Some p)"
    and "pq_contents q' = tl (pq_contents q)" and "pq_cap q' = pq_cap q"
    by blast+
qed

section \<open>Properties\<close>

text \<open>
  A run of \<open>push\<close> (\<open>Some p\<close>) and \<open>pop\<close> (\<open>None\<close>) calls: the packets accepted, the packets
  handed out, and the final queue.
\<close>

fun pq_run :: "audio_packet option list \<Rightarrow> packet_queue \<Rightarrow>
    (audio_packet list \<times> audio_packet list \<times> packet_queue) option" where
  "pq_run [] q = Some ([], [], q)"
| "pq_run (Some p # ops) q =
     (case pq_push p q of None \<Rightarrow> None
      | Some (ok, q1) \<Rightarrow> map_option (\<lambda>(acc, out, q'). (if ok then p # acc else acc, out, q')) (pq_run ops q1))"
| "pq_run (None # ops) q =
     (case pq_pop q of None \<Rightarrow> None
      | Some (r, q1) \<Rightarrow> map_option (\<lambda>(acc, out, q'). (acc, case r of None \<Rightarrow> out | Some p \<Rightarrow> p # out, q'))
          (pq_run ops q1))"

lemma pq_ops_defined:
  assumes "pq_inv q"
  shows "\<exists>ok q'. pq_push p q = Some (ok, q')" and "\<exists>r q'. pq_pop q = Some (r, q')"
proof -
  have "pq_capacity q \<noteq> 0" using assms by (auto simp: pq_inv_def pq_cap_def)
  then show "\<exists>ok q'. pq_push p q = Some (ok, q')" and "\<exists>r q'. pq_pop q = Some (r, q')"
    by (auto simp: pq_push_def pq_pop_def Let_def)
qed

text \<open>The same calls on a list that takes at most \<open>bound\<close> packets.\<close>

fun queue_run :: "nat \<Rightarrow> audio_packet option list \<Rightarrow> audio_packet list \<Rightarrow>
    audio_packet list \<times> audio_packet list \<times> audio_packet list" where
  "queue_run bound [] ps = ([], [], ps)"
| "queue_run bound (Some p # ops) ps =
     (if length ps < bound
      then let (acc, out, rest) = queue_run bound ops (ps @ [p]) in (p # acc, out, rest)
      else queue_run bound ops ps)"
| "queue_run bound (None # ops) ps =
     (case ps of [] \<Rightarrow> queue_run bound ops []
      | p # ps' \<Rightarrow> let (acc, out, rest) = queue_run bound ops ps' in (acc, p # out, rest))"

lemma queue_run_fifo:
  "queue_run bound ops ps = (acc, out, rest) \<Longrightarrow> length ps \<le> bound \<Longrightarrow>
    ps @ acc = out @ rest \<and> length rest \<le> bound"
proof (induction bound ops ps arbitrary: acc out rest rule: queue_run.induct)
  case (1 bound ps)
  then show ?case by simp
next
  case (2 bound p ops ps)
  then show ?case by (fastforce split: if_splits prod.splits)
next
  case (3 bound ops ps)
  then show ?case by (cases ps) (fastforce split: prod.splits)+
qed

lemma pq_run_spec:
  assumes "pq_inv q" and "queue_run (pq_cap q - 1) ops (pq_contents q) = (acc, out, rest)"
  shows "\<exists>q'. pq_run ops q = Some (acc, out, q') \<and> pq_inv q' \<and> pq_contents q' = rest"
  using assms
proof (induction ops arbitrary: q acc out)
  case Nil
  then show ?case by simp
next
  case (Cons op ops)
  show ?case
  proof (cases op)
    case (Some p)
    obtain ok q1 where s: "pq_push p q = Some (ok, q1)" using pq_ops_defined(1) [OF Cons.prems(1)] by blast
    note spec = pq_push_spec [OF Cons.prems(1) s]
    have ok: "length (pq_contents q) < pq_cap q - 1 \<longleftrightarrow> ok" using spec(2) by linarith
    show ?thesis
    proof (cases ok)
      case True
      then obtain acc1 where r: "queue_run (pq_cap q1 - 1) ops (pq_contents q1) = (acc1, out, rest)" "acc = p # acc1"
        using Cons.prems(2) unfolding Some queue_run.simps ok spec(3,4) by (auto split: prod.splits)
      show ?thesis using Cons.IH [OF spec(1) r(1)] True by (auto simp: Some s r(2))
    next
      case False
      then have "queue_run (pq_cap q1 - 1) ops (pq_contents q1) = (acc, out, rest)"
        using Cons.prems(2) unfolding Some queue_run.simps ok spec(3,4) by simp
      then show ?thesis using Cons.IH [OF spec(1)] False by (auto simp: Some s)
    qed
  next
    case None
    obtain r q1 where s: "pq_pop q = Some (r, q1)" using pq_ops_defined(2) [OF Cons.prems(1)] by blast
    note spec = pq_pop_spec [OF Cons.prems(1) s]
    show ?thesis
    proof (cases "pq_contents q")
      case Nil
      then have "queue_run (pq_cap q1 - 1) ops (pq_contents q1) = (acc, out, rest)"
        using Cons.prems(2) spec(3,4) by (simp add: None)
      then show ?thesis using Cons.IH [OF spec(1)] spec(2) Nil by (auto simp: None s)
    next
      case c: (Cons p ps)
      then obtain out1 where r: "queue_run (pq_cap q1 - 1) ops (pq_contents q1) = (acc, out1, rest)" "out = p # out1"
        using Cons.prems(2) spec(3,4) by (auto simp: None split: prod.splits)
      show ?thesis using Cons.IH [OF spec(1) r(1)] spec(2) c by (auto simp: None s r(2))
    qed
  qed
qed

text \<open>
  C37: The packet queue is a first-in first-out queue with room for exactly \<open>capacity - 1\<close>
  packets. On a queue of any non-zero capacity every sequence of \<open>push\<close> and \<open>pop\<close> calls is defined (no
  division by zero, no index out of range) and does what the list machine \<open>queue_run\<close> does: a
  push is refused exactly when \<open>capacity - 1\<close> packets are inside, a pop hands out the
  oldest packet or none. So the packets accepted are those handed out followed by those still inside.
\<close>

theorem packet_queue_fifo:
  assumes "n \<noteq> 0" and "queue_run (unat n - 1) ops [] = (acc, out, rest)"
  shows "(\<exists>q. pq_run ops (pq_new n) = Some (acc, out, q) \<and> pq_contents q = rest \<and> pq_inv q) \<and>
    acc = out @ rest \<and> length rest \<le> unat n - 1"
proof -
  have "queue_run (pq_cap (pq_new n) - 1) ops (pq_contents (pq_new n)) = (acc, out, rest)"
    using assms(2) pq_new_contents [OF assms(1)] by (simp add: pq_cap_def pq_new_def)
  note run = pq_run_spec [OF pq_new_inv [OF assms(1)] this]
  have "acc = out @ rest \<and> length rest \<le> unat n - 1" using queue_run_fifo [OF assms(2)] by simp
  then show ?thesis using run by blast
qed

theorem packet_queue_fifo_witness:
  "\<exists>q. pq_run [Some \<lparr>ap_seq = 1, ap_data = []\<rparr>, Some \<lparr>ap_seq = 2, ap_data = []\<rparr>, None,
        Some \<lparr>ap_seq = 3, ap_data = []\<rparr>, None, None] (pq_new 2)
      = Some ([\<lparr>ap_seq = 1, ap_data = []\<rparr>, \<lparr>ap_seq = 3, ap_data = []\<rparr>],
          [\<lparr>ap_seq = 1, ap_data = []\<rparr>, \<lparr>ap_seq = 3, ap_data = []\<rparr>], q) \<and> pq_contents q = []"
proof -
  let ?ops = "[Some \<lparr>ap_seq = 1, ap_data = []\<rparr>, Some \<lparr>ap_seq = 2, ap_data = []\<rparr>, None,
    Some \<lparr>ap_seq = 3, ap_data = []\<rparr>, None, None]"
  have "queue_run (unat (2 :: u64) - 1) ?ops [] = ([\<lparr>ap_seq = 1, ap_data = []\<rparr>, \<lparr>ap_seq = 3, ap_data = []\<rparr>],
      [\<lparr>ap_seq = 1, ap_data = []\<rparr>, \<lparr>ap_seq = 3, ap_data = []\<rparr>], [])"
    by simp
  moreover have "(2 :: u64) \<noteq> 0" by simp
  ultimately show ?thesis using packet_queue_fifo by blast
qed

end
