(* ===== verification/Opus_Runtime.thy ===== *)
theory Opus_Runtime
  imports Protocol
begin

text \<open>
  \<open>opus_decoder.h/.cpp\<close>: the wrapper around a libopus decoder. libopus is not part of the
  repository, so its two entry points the wrapper calls are the fields of \<open>opus_lib\<close>, over
  an arbitrary type of decoder states: \<open>opus_create\<close> returns the decoder (or \<open>nullptr\<close>) and
  the error code; \<open>opus_dec\<close> takes the decoder, the packet (\<open>None\<close> for the null packet of
  loss concealment) and the frame size, and returns the status, the samples it wrote at the
  front of the buffer and the decoder's next state.
\<close>

record 'd opus_lib =
  opus_create :: "int \<Rightarrow> int \<Rightarrow> 'd option \<times> int"
  opus_dec :: "'d \<Rightarrow> u8 list option \<Rightarrow> int \<Rightarrow> int \<times> pcm \<times> 'd"

record 'd opus_rt =
  rt_decoder :: "'d option"
  rt_sampleRate :: u32
  rt_channels :: u8
  rt_frameSamples :: int

text \<open>\<open>(size_t)i\<close> of a C \<open>int\<close>.\<close>

definition size_of_int :: "int \<Rightarrow> nat" where
  "size_of_int i = unat (word_of_int i :: u64)"

lemma size_of_int_nat: "0 \<le> i \<Longrightarrow> i < 2 ^ 63 \<Longrightarrow> size_of_int i = nat i"
  by (simp add: size_of_int_def unsigned_of_int nat_take_bit_eq take_bit_nat_eq_self nat_less_iff)

definition opus_reset :: "'d opus_rt \<Rightarrow> 'd opus_rt" where
  "opus_reset rt = \<lparr>rt_decoder = None, rt_sampleRate = 0, rt_channels = 0, rt_frameSamples = 0\<rparr>"

definition opus_init :: "'d opus_lib \<Rightarrow> u32 \<Rightarrow> u8 \<Rightarrow> u8 \<Rightarrow> 'd opus_rt \<Rightarrow> bool \<times> 'd opus_rt" where
  "opus_init L sampleRate channels frameMs rt0 =
     (let rt = opus_reset rt0;
          (dec, error) = opus_create L (sint sampleRate) (uint channels)
      in if dec = None \<or> error \<noteq> 0 then (False, rt\<lparr>rt_decoder := None\<rparr>)
         else (True, rt\<lparr>rt_decoder := dec, rt_sampleRate := sampleRate, rt_channels := channels,
                  rt_frameSamples := sint (sampleRate * ucast frameMs div 1000)\<rparr>))"

text \<open>
  The common tail of \<open>decode\<close> and \<open>decodeLoss\<close>: size the vector for one frame, let the
  library fill it, keep \<open>decodedFrames * channels\<close> samples.
\<close>

definition opus_fill :: "'d opus_lib \<Rightarrow> 'd \<Rightarrow> u8 list option \<Rightarrow> pcm \<Rightarrow> 'd opus_rt \<Rightarrow>
    bool \<times> pcm \<times> 'd opus_rt" where
  "opus_fill L d packet pcm rt =
     (let buf = vec_resize (size_of_int (rt_frameSamples rt) * unat (rt_channels rt)) 0 pcm;
          (decodedFrames, out, d') = opus_dec L d packet (rt_frameSamples rt);
          buf' = overwrite 0 out buf;
          rt' = rt\<lparr>rt_decoder := Some d'\<rparr>
      in if decodedFrames < 0 then (False, [], rt')
         else (True, vec_resize (size_of_int decodedFrames * unat (rt_channels rt)) 0 buf', rt'))"

definition opus_decode :: "'d opus_lib \<Rightarrow> u8 list \<Rightarrow> pcm \<Rightarrow> 'd opus_rt \<Rightarrow> bool \<times> pcm \<times> 'd opus_rt" where
  "opus_decode L data pcm rt =
     (case rt_decoder rt of
        None \<Rightarrow> (False, pcm, rt)
      | Some d \<Rightarrow> if data = [] then (False, pcm, rt) else opus_fill L d (Some data) pcm rt)"

definition opus_decodeLoss :: "'d opus_lib \<Rightarrow> pcm \<Rightarrow> 'd opus_rt \<Rightarrow> bool \<times> pcm \<times> 'd opus_rt" where
  "opus_decodeLoss L pcm rt =
     (case rt_decoder rt of
        None \<Rightarrow> (False, pcm, rt)
      | Some d \<Rightarrow> opus_fill L d None pcm rt)"

section \<open>What a call guarantees\<close>

text \<open>Whatever the library does, a successful call yields whole frames.\<close>

lemma opus_fill_framed:
  "opus_fill L d packet pcm rt = (True, out, rt') \<Longrightarrow> unat (rt_channels rt) dvd length out"
  by (auto simp: opus_fill_def Let_def split: prod.splits if_splits)

lemma opus_fill_failed: "opus_fill L d packet pcm rt = (False, out, rt') \<Longrightarrow> out = []"
  by (auto simp: opus_fill_def Let_def split: prod.splits if_splits)

lemma opus_fill_keeps:
  "opus_fill L d packet pcm rt = (ok, out, rt') \<Longrightarrow>
    rt_channels rt' = rt_channels rt \<and> rt_frameSamples rt' = rt_frameSamples rt \<and>
    rt_sampleRate rt' = rt_sampleRate rt \<and> rt_decoder rt' \<noteq> None"
  by (auto simp: opus_fill_def Let_def split: prod.splits if_splits)

lemma opus_decode_framed:
  "opus_decode L data pcm rt = (True, out, rt') \<Longrightarrow> unat (rt_channels rt) dvd length out"
  by (auto simp: opus_decode_def dest: opus_fill_framed split: option.splits if_splits)

lemma opus_decodeLoss_framed:
  "opus_decodeLoss L pcm rt = (True, out, rt') \<Longrightarrow> unat (rt_channels rt) dvd length out"
  by (auto simp: opus_decodeLoss_def dest: opus_fill_framed split: option.splits if_splits)

lemma opus_decode_keeps:
  "opus_decode L data pcm rt = (ok, out, rt') \<Longrightarrow>
    rt_channels rt' = rt_channels rt \<and> rt_frameSamples rt' = rt_frameSamples rt \<and>
    (rt_decoder rt' = None \<longleftrightarrow> rt_decoder rt = None)"
  by (auto simp: opus_decode_def dest: opus_fill_keeps split: option.splits if_splits)

lemma opus_decodeLoss_keeps:
  "opus_decodeLoss L pcm rt = (ok, out, rt') \<Longrightarrow>
    rt_channels rt' = rt_channels rt \<and> rt_frameSamples rt' = rt_frameSamples rt \<and>
    (rt_decoder rt' = None \<longleftrightarrow> rt_decoder rt = None)"
  by (auto simp: opus_decodeLoss_def dest: opus_fill_keeps split: option.splits if_splits)

text \<open>
  The documented contract of \<open>opus_decode\<close>: never more frames than asked for. Then a call
  writes at most one negotiated frame.
\<close>

definition opus_bounded :: "'d opus_lib \<Rightarrow> bool" where
  "opus_bounded L \<longleftrightarrow> (\<forall>d packet n r out d'. opus_dec L d packet n = (r, out, d') \<longrightarrow> r \<le> n)"

lemma opus_fill_bounded:
  assumes "opus_bounded L" and "0 \<le> rt_frameSamples rt" and "rt_frameSamples rt < 2 ^ 63"
    and "opus_fill L d packet pcm rt = (True, out, rt')"
  shows "length out \<le> nat (rt_frameSamples rt) * unat (rt_channels rt)"
proof -
  obtain r o' d' where d: "opus_dec L d packet (rt_frameSamples rt) = (r, o', d')"
    by (metis prod_cases3)
  then have r: "r \<le> rt_frameSamples rt" using assms(1) unfolding opus_bounded_def by blast
  have "0 \<le> r" and "length out = size_of_int r * unat (rt_channels rt)"
    using assms(4) d by (auto simp: opus_fill_def Let_def split: if_splits)
  then show ?thesis using r assms(3) by (simp add: size_of_int_nat nat_mono)
qed

text \<open>The negotiated rates and frame lengths give the frame sizes of the Opus specification.\<close>

lemma opus_init_frameSamples:
  assumes "opus_init L sr ch ms rt0 = (True, rt)"
  shows "rt_frameSamples rt = sint (sr * ucast ms div 1000)" and "rt_channels rt = ch"
    and "rt_decoder rt \<noteq> None"
  using assms by (auto simp: opus_init_def Let_def split: prod.splits if_splits)

lemma opus_init_failed:
  assumes "opus_init L sr ch ms rt0 = (False, rt)"
  shows "rt = opus_reset rt0"
  using assms by (auto simp: opus_init_def opus_reset_def Let_def split: prod.splits if_splits)

section \<open>Properties\<close>

text \<open>A library that decodes everything to one sample per byte, for the witnesses.\<close>

definition demo_opus :: "unit opus_lib" where
  "demo_opus = \<lparr>opus_create = (\<lambda>sr ch. (Some (), 0)),
     opus_dec = (\<lambda>d packet n. (min n 1, [1, 2], d))\<rparr>"

lemma demo_opus_bounded: "opus_bounded demo_opus"
  by (simp add: opus_bounded_def demo_opus_def)

text \<open>
  C36: After a successful \<open>init\<close> for a rate, channel count and frame length, every decoder
  call, for a packet or for a lost one, yields either failure or whole frames of \<open>channels\<close>
  samples, and no more of them than the negotiated frame length. The hypothesis is the
  documented contract of libopus: it never returns more samples than the frame size it was
  given.
\<close>

theorem opus_decodes_frames:
  assumes "opus_bounded L" and "opus_init L sr ch ms rt0 = (True, rt)"
    and "opus_decode L data pcm rt = (True, out, rt') \<or> opus_decodeLoss L pcm rt = (True, out, rt')"
  shows "unat ch dvd length out \<and> length out \<le> unat (sr * ucast ms div 1000) * unat ch \<and>
    rt_channels rt' = ch \<and> rt_frameSamples rt' = rt_frameSamples rt"
proof -
  note I = opus_init_frameSamples [OF assms(2)]
  let ?n = "sr * ucast ms div 1000"
  have small: "unat ?n < 2 ^ 31"
  proof -
    have "unat (sr * ucast ms) < 2 ^ 32" using unsigned_less [of "sr * ucast ms", where ?'a = nat] by simp
    then show ?thesis by (simp add: unat_div_distrib)
  qed
  then have "int (unat ?n) < int (2 ^ 31)" by (simp only: of_nat_less_iff)
  then have lt: "uint ?n < 2 ^ 31" by simp
  then have fs: "rt_frameSamples rt = int (unat ?n)"
    using uint_ge_0 [of ?n] unfolding I(1) sint_uint uint_nat [symmetric]
    by (intro signed_take_bit_int_eq_self) (rule order_trans [of _ 0], simp_all)
  obtain d packet where f: "opus_fill L d packet pcm rt = (True, out, rt')"
    using assms(3) by (auto simp: opus_decode_def opus_decodeLoss_def split: option.splits if_splits)
  have "length out \<le> nat (rt_frameSamples rt) * unat (rt_channels rt)"
    using lt by (intro opus_fill_bounded [OF assms(1) _ _ f]) (simp_all add: fs)
  then show ?thesis using opus_fill_framed [OF f] opus_fill_keeps [OF f] fs I(2) by simp
qed

theorem opus_decodes_frames_witness:
  "\<exists>rt rt'. opus_init demo_opus 48000 2 20
      \<lparr>rt_decoder = None, rt_sampleRate = 0, rt_channels = 0, rt_frameSamples = 0\<rparr> = (True, rt) \<and>
    opus_decode demo_opus [9] [] rt = (True, [1, 2], rt') \<and> unat (2 :: u8) dvd length [1 :: 16 word, 2]"
proof -
  let ?rt = "\<lparr>rt_decoder = Some (), rt_sampleRate = 48000, rt_channels = 2, rt_frameSamples = 960\<rparr>"
  have i: "opus_init demo_opus 48000 2 20 \<lparr>rt_decoder = None, rt_sampleRate = 0, rt_channels = 0, rt_frameSamples = 0\<rparr> = (True, ?rt)"
    by (simp add: opus_init_def opus_reset_def demo_opus_def)
  have d: "opus_decode demo_opus [9] [] ?rt = (True, [1, 2], ?rt)" by code_simp
  show ?thesis using opus_decodes_frames [OF demo_opus_bounded i] i d by blast
qed

end
