(* ===== verification/Receive.thy ===== *)
theory Receive
  imports Opus_Runtime Ring_Buffer
begin

text \<open>
  The media path of the main loop in \<open>main.cpp\<close>: payload decoding, the write into the ring
  buffer, and the three ways the loop treats a sequence number (QUIC with loss concealment,
  UDP discarding, UDP reordering). \<open>sortingArea[256]\<close> is indexed by a \<open>uint8_t\<close>, so it is
  a total function on \<open>u8\<close>; \<open>None\<close> is \<open>nullptr\<close>.
\<close>

record 'd rx =
  rx_codec :: u8                          \<comment> \<open>\<open>activeCodec\<close>\<close>
  rx_opus :: "'d opus_rt"                 \<comment> \<open>\<open>opusDecoder\<close>\<close>
  rx_ring :: "ring_buffer option"         \<comment> \<open>\<open>ringBuffer\<close>\<close>
  rx_sorting :: "u8 \<Rightarrow> pcm option"        \<comment> \<open>\<open>sortingArea\<close>\<close>
  rx_expected :: u8                       \<comment> \<open>\<open>expectedSeq\<close>\<close>
  rx_pcm :: pcm                           \<comment> \<open>\<open>decodedPcm\<close>\<close>
  rx_bufferLow :: bool                    \<comment> \<open>\<open>renderer.bufferLow_\<close>\<close>
  rx_nullDeref :: bool                    \<comment> \<open>a write went through a null \<open>ringBuffer\<close>\<close>

text \<open>The payload bytes read as little-endian \<open>int16_t\<close>; an odd last byte is ignored.\<close>

fun pcm_of_bytes :: "u8 list \<Rightarrow> pcm" where
  "pcm_of_bytes (lo # hi # bs) = (push_bit 8 (ucast hi) OR ucast lo) # pcm_of_bytes bs"
| "pcm_of_bytes _ = []"

lemma length_pcm_of_bytes [simp]: "length (pcm_of_bytes bs) = length bs div 2"
  by (induction bs rule: pcm_of_bytes.induct) auto

definition decodeAudioPayload :: "'d opus_lib \<Rightarrow> u8 list \<Rightarrow> 'd rx \<Rightarrow> bool \<times> 'd rx" where
  "decodeAudioPayload L audioData s0 =
     (let s = s0\<lparr>rx_pcm := []\<rparr> in
      if rx_codec s = AUDIO_CODEC_PCM then (True, s\<lparr>rx_pcm := pcm_of_bytes audioData\<rparr>)
      else let (ok, out, rt) = opus_decode L audioData (rx_pcm s) (rx_opus s)
           in (ok, s\<lparr>rx_pcm := out, rx_opus := rt\<rparr>))"

definition writePcm :: "pcm \<Rightarrow> 'd rx \<Rightarrow> 'd rx" where
  "writePcm pcm s =
     (if pcm = [] then s
      else case rx_ring s of
             None \<Rightarrow> s\<lparr>rx_nullDeref := True\<rparr>
           | Some rb \<Rightarrow> s\<lparr>rx_ring := Some (snd (rb_put pcm rb))\<rparr>)"

section \<open>QUIC\<close>

text \<open>The concealment loop: one lost frame per turn.\<close>

fun plc_loop :: "'d opus_lib \<Rightarrow> nat \<Rightarrow> 'd rx \<Rightarrow> 'd rx" where
  "plc_loop L 0 s = s"
| "plc_loop L (Suc n) s =
     (let (ok, out, rt) = opus_decodeLoss L (rx_pcm s) (rx_opus s);
          s1 = s\<lparr>rx_pcm := out, rx_opus := rt\<rparr>
      in plc_loop L n (if ok then writePcm out s1 else s1))"

definition rx_quic :: "'d opus_lib \<Rightarrow> u8 \<Rightarrow> u8 list \<Rightarrow> 'd rx \<Rightarrow> 'd rx" where
  "rx_quic L seq audioData s =
     (if isNewer (rx_expected s - 1) seq then
        let gap = seq - rx_expected s;
            s1 = (if gap > 0 \<and> rx_codec s = AUDIO_CODEC_OPUS \<and> gap \<le> 3
                  then plc_loop L (unat gap) s else s);
            (ok, s2) = decodeAudioPayload L audioData s1;
            s3 = (if ok then (writePcm (rx_pcm s2) s2)\<lparr>rx_bufferLow := False\<rparr> else s2)
        in s3\<lparr>rx_expected := seq + 1\<rparr>
      else s)"

section \<open>UDP, discarding what arrives out of order\<close>

definition rx_discard :: "'d opus_lib \<Rightarrow> u8 \<Rightarrow> u8 list \<Rightarrow> 'd rx \<Rightarrow> 'd rx" where
  "rx_discard L seq audioData s =
     (if isNewer (rx_expected s - 1) seq then
        let (ok, s1) = decodeAudioPayload L audioData s;
            s2 = (if ok then writePcm (rx_pcm s1) s1 else s1)
        in s2\<lparr>rx_expected := seq + 1\<rparr>
      else s)"

section \<open>UDP, reordering\<close>

text \<open>The release loop; every turn empties an occupied slot.\<close>

definition occupied :: "'d rx \<Rightarrow> nat" where
  "occupied s = card {q. rx_sorting s q \<noteq> None}"

definition release_one :: "pcm \<Rightarrow> 'd rx \<Rightarrow> 'd rx" where
  "release_one p s =
     (let s1 = writePcm p s
      in s1\<lparr>rx_sorting := (rx_sorting s1)(rx_expected s1 := None),
            rx_expected := rx_expected s1 + 1\<rparr>)"

lemma writePcm_frame [simp]:
  "rx_sorting (writePcm p s) = rx_sorting s"
  "rx_expected (writePcm p s) = rx_expected s"
  "rx_codec (writePcm p s) = rx_codec s"
  "rx_opus (writePcm p s) = rx_opus s"
  "rx_pcm (writePcm p s) = rx_pcm s"
  "rx_bufferLow (writePcm p s) = rx_bufferLow s"
  by (simp_all add: writePcm_def split: option.split)

lemma release_one_frame [simp]:
  "rx_sorting (release_one p s) = (rx_sorting s)(rx_expected s := None)"
  "rx_expected (release_one p s) = rx_expected s + 1"
  "rx_codec (release_one p s) = rx_codec s"
  "rx_opus (release_one p s) = rx_opus s"
  "rx_bufferLow (release_one p s) = rx_bufferLow s"
  "rx_pcm (release_one p s) = rx_pcm s"
  by (simp_all add: release_one_def)

lemma release_one_occupied:
  assumes "rx_sorting s (rx_expected s) = Some p"
  shows "occupied (release_one p s) < occupied s"
proof -
  have "{q. rx_sorting (release_one p s) q \<noteq> None} = {q. rx_sorting s q \<noteq> None} - {rx_expected s}"
    by auto
  moreover have "card ({q. rx_sorting s q \<noteq> None} - {rx_expected s}) < card {q. rx_sorting s q \<noteq> None}"
    using assms by (intro card_Diff1_less) auto
  ultimately show ?thesis by (simp only: occupied_def)
qed

function release :: "'d rx \<Rightarrow> 'd rx" where
  "release s = (case rx_sorting s (rx_expected s) of
                  None \<Rightarrow> s
                | Some p \<Rightarrow> release (release_one p s))"
  by pat_completeness auto
termination
  by (relation "measure occupied") (auto intro: release_one_occupied)

declare release.simps [simp del]

definition rx_reorder :: "'d opus_lib \<Rightarrow> u8 \<Rightarrow> u8 list \<Rightarrow> 'd rx \<Rightarrow> 'd rx" where
  "rx_reorder L seq audioData s =
     (if isNewer (rx_expected s - 1) seq then
        let s1 = (if seq = rx_expected s then
                    let (ok, sA) = decodeAudioPayload L audioData s
                    in if ok then (writePcm (rx_pcm sA) sA)
                                    \<lparr>rx_bufferLow := False, rx_expected := rx_expected sA + 1\<rparr>
                       else sA
                  else
                    let sB = (if seq - rx_expected s \<ge> 4 \<or> rx_bufferLow s
                              then s\<lparr>rx_expected := rx_expected s + 1\<rparr> else s)
                    in if rx_sorting sB seq = None then
                         let (ok, sC) = decodeAudioPayload L audioData sB
                         in if ok then sC\<lparr>rx_sorting := (rx_sorting sC)(seq := Some (rx_pcm sC))\<rparr>
                            else sC
                       else sB)
        in release s1
      else s)"

end
