(* ===== verification/Jitter_Spec.thy ===== *)
theory Jitter_Spec
  imports Prelude
begin

text \<open>
  What the reordering receiver promises, without sequence-number arithmetic: packets carry
  unbounded indices, a window of fourteen indices is accepted, a packet is held until every
  earlier index has been played or given up, and held packets are released in runs.
  \<open>Receive_Refine\<close> shows that \<open>rx_reorder\<close> implements this on 8-bit numbers.
\<close>

record jb =
  jb_next :: nat                  \<comment> \<open>the next index to play\<close>
  jb_held :: "nat \<Rightarrow> pcm option"  \<comment> \<open>what waits for an earlier index\<close>
  jb_low :: bool                  \<comment> \<open>the renderer ran dry since the last packet in order\<close>

definition jb_window :: nat where "jb_window = 14"

text \<open>Held packets lie inside the window; between two packets the next index is not held.\<close>

definition jb_bounded :: "jb \<Rightarrow> bool" where
  "jb_bounded j \<longleftrightarrow> (\<forall>n. jb_held j n \<noteq> None \<longrightarrow> jb_next j \<le> n \<and> n < jb_next j + jb_window)"

definition jb_wf :: "jb \<Rightarrow> bool" where
  "jb_wf j \<longleftrightarrow> jb_bounded j \<and> jb_held j (jb_next j) = None"

text \<open>The maximal run of held packets from the next index on is released at once.\<close>

definition jb_run :: "jb \<Rightarrow> nat" where
  "jb_run j = length (takeWhile (\<lambda>k. jb_held j (jb_next j + k) \<noteq> None) [0..<jb_window])"

definition jb_flush :: "jb \<Rightarrow> (nat \<times> pcm) list \<times> jb" where
  "jb_flush j =
     (let k = jb_run j
      in (map (\<lambda>i. (jb_next j + i, the (jb_held j (jb_next j + i)))) [0..<k],
          j\<lparr>jb_next := jb_next j + k,
            jb_held := (\<lambda>n. if n < jb_next j + k then None else jb_held j n)\<rparr>))"

text \<open>
  One packet with index \<open>n\<close>; \<open>dec\<close> is its decoded form, if it decodes. When the renderer ran
  dry, or a packet is four or more ahead, the receiver gives up one index.
\<close>

definition jb_admit :: "nat \<Rightarrow> pcm option \<Rightarrow> jb \<Rightarrow> jb" where
  "jb_admit n dec j =
     (let j1 = (if 4 \<le> n - jb_next j \<or> jb_low j then j\<lparr>jb_next := Suc (jb_next j)\<rparr> else j)
      in if jb_held j1 n = None then j1\<lparr>jb_held := (jb_held j1)(n := dec)\<rparr> else j1)"

definition jb_step :: "nat \<Rightarrow> pcm option \<Rightarrow> jb \<Rightarrow> (nat \<times> pcm) list \<times> jb" where
  "jb_step n dec j =
     (if n < jb_next j \<or> jb_next j + jb_window \<le> n then ([], j)
      else if n = jb_next j then
        (case dec of
           None \<Rightarrow> ([], j)
         | Some p \<Rightarrow> let (out, j') = jb_flush (j\<lparr>jb_next := Suc n, jb_low := False\<rparr>)
                     in ((n, p) # out, j'))
      else jb_flush (jb_admit n dec j))"

text \<open>A session: packets, each with the news whether the renderer ran dry before it.\<close>

definition jb_hear :: "bool \<Rightarrow> jb \<Rightarrow> jb" where
  "jb_hear dry j = (if dry then j\<lparr>jb_low := True\<rparr> else j)"

fun jb_steps :: "(nat \<times> pcm option \<times> bool) list \<Rightarrow> jb \<Rightarrow> (nat \<times> pcm) list \<times> jb" where
  "jb_steps [] j = ([], j)"
| "jb_steps ((n, dec, dry) # xs) j =
     (let (out, j1) = jb_step n dec (jb_hear dry j); (outs, j2) = jb_steps xs j1
      in (out @ outs, j2))"

lemma jb_hear_simps [simp]:
  "jb_next (jb_hear dry j) = jb_next j" "jb_held (jb_hear dry j) = jb_held j"
  "jb_bounded (jb_hear dry j) = jb_bounded j" "jb_wf (jb_hear dry j) = jb_wf j"
  by (simp_all add: jb_hear_def jb_bounded_def jb_wf_def)

lemma jb_boundedD: "jb_bounded j \<Longrightarrow> jb_held j n = Some p \<Longrightarrow> jb_next j \<le> n \<and> n < jb_next j + jb_window"
  unfolding jb_bounded_def by blast

lemma jb_bounded_None:
  "jb_bounded j \<Longrightarrow> n < jb_next j \<or> jb_next j + jb_window \<le> n \<Longrightarrow> jb_held j n = None"
  unfolding jb_bounded_def by (meson leD)

section \<open>The run at the front\<close>

lemma jb_run_held:
  assumes "i < jb_run j"
  shows "jb_held j (jb_next j + i) = Some (the (jb_held j (jb_next j + i)))"
proof -
  let ?P = "\<lambda>k. jb_held j (jb_next j + k) \<noteq> None"
  have i: "i < length (takeWhile ?P [0..<jb_window])" using assms by (simp add: jb_run_def)
  then have "i < jb_window"
    using length_takeWhile_le [of ?P "[0..<jb_window]"] by simp
  then have "takeWhile ?P [0..<jb_window] ! i = i" using i by (simp add: takeWhile_nth)
  then have "?P i" using nth_mem [OF i] by (metis (mono_tags, lifting) set_takeWhileD)
  then show ?thesis by auto
qed

lemma jb_run_ex:
  assumes "jb_bounded j"
  shows "jb_held j (jb_next j + jb_run j) = None"
proof (cases "jb_run j < jb_window")
  case True
  let ?P = "\<lambda>k. jb_held j (jb_next j + k) \<noteq> None"
  have "length (takeWhile ?P [0..<jb_window]) < length [0..<jb_window]"
    using True by (simp add: jb_run_def)
  from nth_length_takeWhile [OF this] show ?thesis using True by (simp add: jb_run_def)
next
  case False
  then show ?thesis using assms by (intro jb_bounded_None) auto
qed

lemma jb_run_Least:
  assumes "jb_bounded j"
  shows "jb_run j = (LEAST k. jb_held j (jb_next j + k) = None)"
proof (rule Least_equality [symmetric])
  show "jb_held j (jb_next j + jb_run j) = None" by (rule jb_run_ex [OF assms])
  show "jb_run j \<le> k" if "jb_held j (jb_next j + k) = None" for k
    using that jb_run_held [of k j] by (cases "k < jb_run j") simp_all
qed

lemma jb_run_0: "jb_held j (jb_next j) = None \<Longrightarrow> jb_run j = 0"
  by (simp add: jb_run_def jb_window_def upt_conv_Cons)

lemma jb_run_Suc:
  assumes "jb_bounded j" and "jb_held j (jb_next j) = Some p"
  shows "jb_run j = Suc (jb_run (j\<lparr>jb_next := Suc (jb_next j),
    jb_held := (jb_held j)(jb_next j := None)\<rparr>))"
proof -
  let ?j = "j\<lparr>jb_next := Suc (jb_next j), jb_held := (jb_held j)(jb_next j := None)\<rparr>"
  have "jb_bounded ?j" using jb_boundedD [OF assms(1)] by (fastforce simp: jb_bounded_def)
  moreover have "(LEAST k. jb_held j (jb_next j + k) = None)
      = Suc (LEAST k. jb_held j (jb_next j + Suc k) = None)"
    by (rule Least_Suc [where n = "jb_run j"]) (use jb_run_ex [OF assms(1)] assms(2) in simp_all)
  ultimately show ?thesis using assms(1) by (simp add: jb_run_Least)
qed

text \<open>Releasing a run one packet at a time is releasing it at once.\<close>

lemma jb_flush_0: "jb_held j (jb_next j) = None \<Longrightarrow> jb_bounded j \<Longrightarrow> jb_flush j = ([], j)"
  by (cases j) (auto simp: jb_flush_def Let_def jb_run_0 fun_eq_iff dest: jb_bounded_None)

lemma jb_flush_Suc:
  assumes "jb_bounded j" and "jb_held j (jb_next j) = Some p"
    and "jb_flush (j\<lparr>jb_next := Suc (jb_next j), jb_held := (jb_held j)(jb_next j := None)\<rparr>) = (out, j')"
  shows "jb_flush j = ((jb_next j, p) # out, j')"
proof -
  let ?j = "j\<lparr>jb_next := Suc (jb_next j), jb_held := (jb_held j)(jb_next j := None)\<rparr>"
  have run: "jb_run j = Suc (jb_run ?j)" by (rule jb_run_Suc [OF assms(1,2)])
  show ?thesis
    using assms(2,3)
    by (auto simp: jb_flush_def Let_def run upt_conv_Cons map_Suc_upt [symmetric] fun_eq_iff
        simp del: upt_Suc)
qed

lemma jb_flush_props:
  assumes "jb_bounded j" and "jb_flush j = (out, j')"
  shows "jb_wf j'" and "map fst out = [jb_next j..<jb_next j']" and "jb_next j \<le> jb_next j'"
    and "\<And>n p. (n, p) \<in> set out \<Longrightarrow> jb_held j n = Some p"
    and "\<And>n. jb_held j' n = (if n < jb_next j' then None else jb_held j n)"
proof -
  have out: "out = map (\<lambda>i. (jb_next j + i, the (jb_held j (jb_next j + i)))) [0..<jb_run j]"
    and j': "j' = j\<lparr>jb_next := jb_next j + jb_run j,
        jb_held := (\<lambda>n. if n < jb_next j + jb_run j then None else jb_held j n)\<rparr>"
    using assms(2) by (simp_all add: jb_flush_def Let_def)
  show "jb_wf j'"
    using assms(1) jb_run_ex [OF assms(1)] jb_boundedD [OF assms(1)]
    by (fastforce simp: jb_wf_def jb_bounded_def j')
  show "map fst out = [jb_next j..<jb_next j']"
    by (simp add: out j' comp_def map_add_upt add.commute [of "jb_next j"])
  show "jb_next j \<le> jb_next j'" by (simp add: j')
  show "jb_held j n = Some p" if "(n, p) \<in> set out" for n p
    using that jb_run_held by (auto simp: out)
  show "jb_held j' n = (if n < jb_next j' then None else jb_held j n)" for n
    by (simp add: j')
qed

section \<open>Order and completeness of what is played\<close>

lemma jb_admit_next:
  "jb_next j \<le> jb_next (jb_admit n dec j)" "jb_next (jb_admit n dec j) \<le> Suc (jb_next j)"
  by (simp_all add: jb_admit_def Let_def)

lemma jb_admit_held:
  "jb_held (jb_admit n dec j) m = Some p \<Longrightarrow>
    jb_held j m = Some p \<or> m = n \<and> dec = Some p"
  by (auto simp: jb_admit_def Let_def split: if_splits)

lemma jb_wf_held:
  assumes "jb_wf j" and "jb_held j m = Some p"
  shows "jb_next j < m \<and> m < jb_next j + jb_window"
proof -
  have "m \<noteq> jb_next j" using assms by (auto simp: jb_wf_def)
  then show ?thesis using assms jb_boundedD [of j m p] by (simp add: jb_wf_def)
qed

lemma jb_admit_bounded:
  assumes "jb_wf j" and "jb_next j < n" and "n < jb_next j + jb_window"
  shows "jb_bounded (jb_admit n dec j)"
proof -
  have "jb_next j < m \<and> m < jb_next j + jb_window"
    if "jb_held (jb_admit n dec j) m = Some p" for m p
    using jb_admit_held [OF that] jb_wf_held [OF assms(1)] assms(2,3) by blast
  then show ?thesis
    using jb_admit_next [where n = n and dec = dec and j = j]
    by (fastforce simp: jb_bounded_def)
qed

text \<open>
  What one step from \<open>j\<close> on packet \<open>n\<close> may do: stay well-formed, move forward, play in
  strictly increasing order what lies between the old and the new front, and play or hold
  nothing but this packet and what was held.
\<close>

definition jb_ok :: "nat \<Rightarrow> pcm option \<Rightarrow> jb \<Rightarrow> (nat \<times> pcm) list \<Rightarrow> jb \<Rightarrow> bool" where
  "jb_ok n dec j out j' \<longleftrightarrow>
     jb_wf j' \<and> jb_next j \<le> jb_next j' \<and> sorted_wrt (<) (map fst out) \<and>
     (\<forall>(m, p) \<in> set out. jb_next j \<le> m \<and> m < jb_next j') \<and>
     (\<forall>(m, p) \<in> set out. jb_held j m = Some p \<or> m = n \<and> dec = Some p) \<and>
     (\<forall>m p. jb_held j' m = Some p \<longrightarrow> jb_held j m = Some p \<or> m = n \<and> dec = Some p)"

lemma jb_okD:
  assumes "jb_ok n dec j out j'"
  shows "jb_wf j'" and "jb_next j \<le> jb_next j'" and "sorted_wrt (<) (map fst out)"
    and "\<And>m p. (m, p) \<in> set out \<Longrightarrow> jb_next j \<le> m \<and> m < jb_next j'"
    and "\<And>m p. (m, p) \<in> set out \<Longrightarrow> jb_held j m = Some p \<or> m = n \<and> dec = Some p"
    and "\<And>m p. jb_held j' m = Some p \<Longrightarrow> jb_held j m = Some p \<or> m = n \<and> dec = Some p"
  using assms unfolding jb_ok_def by blast+

lemma jb_okI:
  assumes "jb_wf j'" and "jb_next j \<le> jb_next j'" and "sorted_wrt (<) (map fst out)"
    and "\<And>m p. (m, p) \<in> set out \<Longrightarrow> jb_next j \<le> m \<and> m < jb_next j'"
    and "\<And>m p. (m, p) \<in> set out \<Longrightarrow> jb_held j m = Some p \<or> m = n \<and> dec = Some p"
    and "\<And>m p. jb_held j' m = Some p \<Longrightarrow> jb_held j m = Some p \<or> m = n \<and> dec = Some p"
  shows "jb_ok n dec j out j'"
  using assms unfolding jb_ok_def by blast

lemma jb_flush_ok:
  assumes "jb_bounded j1" and "jb_flush j1 = (out, j')" and "jb_next j \<le> jb_next j1"
    and "\<And>m p. jb_held j1 m = Some p \<Longrightarrow> jb_held j m = Some p \<or> m = n \<and> dec = Some p"
  shows "jb_ok n dec j out j'"
proof -
  note F = jb_flush_props [OF assms(1,2)]
  have "m \<in> set [jb_next j1..<jb_next j']" if "(m, p) \<in> set out" for m p
    using that by (metis F(2) fst_conv image_eqI set_map)
  then show ?thesis
    using F assms(3,4)
    by (fastforce simp: jb_ok_def sorted_wrt_upt split: if_splits)
qed

lemma jb_step_ok:
  assumes "jb_wf j" and "jb_step n dec j = (out, j')"
  shows "jb_ok n dec j out j'"
proof -
  consider (ignored) "n < jb_next j \<or> jb_next j + jb_window \<le> n \<or> n = jb_next j \<and> dec = None"
    | (front) p where "n = jb_next j" "dec = Some p"
    | (ahead) "jb_next j < n" "n < jb_next j + jb_window"
    by (metis linorder_neqE_nat not_Some_eq not_le)
  then show ?thesis
  proof cases
    case ignored
    then have "out = []" "j' = j"
      using assms(2) by (auto simp: jb_step_def jb_window_def split: if_splits)
    then show ?thesis using assms(1) by (simp add: jb_ok_def)
  next
    case front
    let ?j1 = "j\<lparr>jb_next := Suc n, jb_low := False\<rparr>"
    obtain out1 where f: "jb_flush ?j1 = (out1, j')" and out: "out = (n, p) # out1"
      using assms(2) front by (auto simp: jb_step_def jb_window_def split: prod.splits)
    have b: "jb_bounded ?j1"
      using jb_wf_held [OF assms(1)] front by (fastforce simp: jb_bounded_def)
    have "jb_ok n dec ?j1 out1 j'" using jb_flush_ok [OF b f, of ?j1] by simp
    note ok = jb_okD [OF this]
    show ?thesis
    proof (rule jb_okI)
      show "sorted_wrt (<) (map fst out)" using ok(3,4) by (fastforce simp: out)
      show "jb_next j \<le> m \<and> m < jb_next j'" if "(m, q) \<in> set out" for m q
        using that ok(2) ok(4) [of m q] front by (auto simp: out)
      show "jb_held j m = Some q \<or> m = n \<and> dec = Some q" if "(m, q) \<in> set out" for m q
        using that ok(5) [of m q] front by (auto simp: out)
      show "jb_wf j'" by (rule ok(1))
      show "jb_next j \<le> jb_next j'" using ok(2) front by simp
      show "jb_held j m = Some q \<or> m = n \<and> dec = Some q" if "jb_held j' m = Some q" for m q
        using ok(6) [OF that] by simp
    qed
  next
    case ahead
    then have f: "jb_flush (jb_admit n dec j) = (out, j')"
      using assms(2) by (simp add: jb_step_def)
    show ?thesis
      by (rule jb_flush_ok [OF jb_admit_bounded [OF assms(1) ahead] f jb_admit_next(1) jb_admit_held])
  qed
qed

text \<open>A whole session: indices leave in strictly increasing order, each at most once.\<close>

lemma jb_steps_ok:
  assumes "jb_wf j" and "jb_steps xs j = (out, j')"
  shows "jb_wf j' \<and> jb_next j \<le> jb_next j' \<and> sorted_wrt (<) (map fst out) \<and>
    (\<forall>(m, p) \<in> set out. jb_next j \<le> m \<and> m < jb_next j') \<and>
    (\<forall>(m, p) \<in> set out. jb_held j m = Some p \<or> (\<exists>dry. (m, Some p, dry) \<in> set xs))"
  using assms
proof (induction xs arbitrary: j out)
  case Nil
  then show ?case by simp
next
  case (Cons x xs)
  obtain n dec dry where x: "x = (n, dec, dry)" by (cases x)
  obtain out1 j1 outs where s: "jb_step n dec (jb_hear dry j) = (out1, j1)" "jb_steps xs j1 = (outs, j')"
    and out: "out = out1 @ outs"
    using Cons.prems(2) by (auto simp: x split: prod.splits)
  have "jb_ok n dec (jb_hear dry j) out1 j1" using Cons.prems(1) s(1) by (intro jb_step_ok) simp_all
  note ok = jb_okD [OF this, simplified]
  have IH: "jb_wf j'" "jb_next j1 \<le> jb_next j'" "sorted_wrt (<) (map fst outs)"
    "\<And>m p. (m, p) \<in> set outs \<Longrightarrow> jb_next j1 \<le> m \<and> m < jb_next j'"
    "\<And>m p. (m, p) \<in> set outs \<Longrightarrow> jb_held j1 m = Some p \<or> (\<exists>dry. (m, Some p, dry) \<in> set xs)"
    using Cons.IH [OF ok(1) s(2)] by blast+
  have "a < b" if ab: "a \<in> set (map fst out1)" "b \<in> set (map fst outs)" for a b
  proof -
    obtain p q where "(a, p) \<in> set out1" "(b, q) \<in> set outs" using ab by auto
    then show ?thesis using ok(4) [of a p] IH(4) [of b q] by linarith
  qed
  then have "sorted_wrt (<) (map fst out)"
    using ok(3) IH(3) by (simp add: out sorted_wrt_append)
  moreover have "jb_next j \<le> m \<and> m < jb_next j'" if "(m, p) \<in> set out" for m p
    using that ok(2) ok(4) [of m p] IH(2) IH(4) [of m p] by (auto simp: out)
  moreover have "jb_held j m = Some p \<or> (\<exists>dry. (m, Some p, dry) \<in> set (x # xs))"
    if "(m, p) \<in> set out" for m p
  proof -
    from that consider "(m, p) \<in> set out1" | "(m, p) \<in> set outs" by (auto simp: out)
    then show ?thesis
    proof cases
      case 1
      then show ?thesis using ok(5) [of m p] by (auto simp: x)
    next
      case 2
      then show ?thesis using IH(5) [of m p] ok(6) [of m p] by (auto simp: x)
    qed
  qed
  ultimately show ?case using ok(2) IH(1,2) by auto
qed

section \<open>Mild reordering loses nothing\<close>

text \<open>
  A packet may overtake at most three others, and an old duplicate may come at most 241
  packets late; \<open>rs\<close> are the indices that have arrived. Duplicates are unrestricted
  otherwise.
\<close>

fun mild :: "nat list \<Rightarrow> nat list \<Rightarrow> bool" where
  "mild rs [] = True"
| "mild rs (i # is) =
     (list_all (\<lambda>m. m \<in> set rs) [0..<i - 3] \<and> list_all (\<lambda>m. m \<le> i + 241) rs \<and> mild (i # rs) is)"

text \<open>Everything that arrived was played or is held, and the front is the first that is missing.\<close>

definition jb_complete :: "(nat \<Rightarrow> pcm) \<Rightarrow> nat set \<Rightarrow> jb \<Rightarrow> bool" where
  "jb_complete pay R j \<longleftrightarrow>
     jb_wf j \<and> \<not> jb_low j \<and> {..<jb_next j} \<subseteq> R \<and> jb_next j \<notin> R \<and>
     (\<forall>n>jb_next j. jb_held j n = (if n \<in> R then Some (pay n) else None))"

lemma jb_completeD:
  assumes "jb_complete pay R j"
  shows "jb_wf j" and "\<not> jb_low j" and "n < jb_next j \<Longrightarrow> n \<in> R" and "jb_next j \<notin> R"
    and "jb_next j < n \<Longrightarrow> jb_held j n = (if n \<in> R then Some (pay n) else None)"
  using assms by (auto simp: jb_complete_def)

lemma jb_flush_low: "jb_flush j = (out, j') \<Longrightarrow> jb_low j' = jb_low j"
  by (auto simp: jb_flush_def Let_def)

lemma out_determined:
  assumes "map fst out = ns" and "\<And>n p. (n, p) \<in> set out \<Longrightarrow> p = f n"
  shows "out = map (\<lambda>n. (n, f n)) ns"
proof -
  have "map (\<lambda>x. (fst x, f (fst x))) out = map id out"
    using assms(2) by (intro map_cong) auto
  then show ?thesis by (simp add: assms(1) [symmetric] comp_def)
qed

lemma jb_complete_step:
  assumes C: "jb_complete pay R j" and near: "\<And>m. m < i - 3 \<Longrightarrow> m \<in> R"
    and step: "jb_step i (Some (pay i)) j = (out, j')"
  shows "jb_complete pay (insert i R) j' \<and> jb_next j \<le> jb_next j' \<and>
    out = map (\<lambda>n. (n, pay n)) [jb_next j..<jb_next j']"
proof -
  note D = jb_completeD [OF C]
  have i4: "i < jb_next j + 4" using near [of "jb_next j"] D(4) by (cases "jb_next j < i - 3") auto
  consider (old) "i < jb_next j" | (front) "i = jb_next j" | (ahead) "jb_next j < i" by linarith
  then show ?thesis
  proof cases
    case old
    then have "out = []" "j' = j" using step by (simp_all add: jb_step_def)
    moreover have "insert i R = R" using D(3) [OF old] by blast
    ultimately show ?thesis using C by simp
  next
    case front
    let ?j1 = "j\<lparr>jb_next := Suc i, jb_low := False\<rparr>"
    obtain out1 where f: "jb_flush ?j1 = (out1, j')" and out: "out = (i, pay i) # out1"
      using step front by (auto simp: jb_step_def jb_window_def split: prod.splits)
    have b: "jb_bounded ?j1" using jb_wf_held [OF D(1)] front by (fastforce simp: jb_bounded_def)
    note F = jb_flush_props [OF b f]
    have next': "jb_next j < jb_next j'" using F(3) front by simp
    have held1: "n \<in> R \<and> p = pay n" if "(n, p) \<in> set out1" for n p
    proof -
      have "n \<in> set (map fst out1)" using that by force
      then have "n \<in> set [Suc i..<jb_next j']" unfolding F(2) by simp
      then show ?thesis using F(4) [OF that] D(5) [of n] front by (simp split: if_splits)
    qed
    have "map fst out = [jb_next j..<jb_next j']"
      using F(2) next' front by (simp add: out upt_conv_Cons)
    then have played: "out = map (\<lambda>n. (n, pay n)) [jb_next j..<jb_next j']"
      using held1 by (intro out_determined) (auto simp: out)
    have "n \<in> insert i R" if "n < jb_next j'" for n
    proof (cases "n \<le> i")
      case True
      then show ?thesis using D(3) [of n] front by (cases "n = i") simp_all
    next
      case False
      then have "n \<in> set (map fst out1)" using that F(2) by simp
      then show ?thesis using held1 by auto
    qed
    moreover have "jb_next j' \<notin> R"
      using F(1,5) next' D(5) [OF next'] by (auto simp: jb_wf_def)
    moreover have "jb_held j' n = (if n \<in> insert i R then Some (pay n) else None)" if "jb_next j' < n" for n
      using F(5) [of n] that next' D(5) [of n] front by simp
    ultimately have "jb_complete pay (insert i R) j'"
      using F(1) jb_flush_low [OF f] next' front by (auto simp: jb_complete_def)
    then show ?thesis using played next' by simp
  next
    case ahead
    let ?j1 = "j\<lparr>jb_held := (jb_held j)(i := Some (pay i))\<rparr>"
    have admit: "jb_admit i (Some (pay i)) j = ?j1"
      using D(2) D(5) [OF ahead] i4 by (cases j) (auto simp: jb_admit_def Let_def fun_eq_iff)
    have f: "jb_flush ?j1 = (out, j')"
      using step ahead i4 by (simp add: jb_step_def jb_window_def admit)
    have b: "jb_bounded ?j1"
      using jb_admit_bounded [OF D(1) ahead, of "Some (pay i)"] i4 by (simp add: jb_window_def admit)
    have e: "jb_held ?j1 (jb_next ?j1) = None" using D(1) ahead by (simp add: jb_wf_def)
    have "out = []" "j' = ?j1" using jb_flush_0 [OF e b] f by simp_all
    moreover have "jb_complete pay (insert i R) ?j1"
      using D ahead b e by (auto simp: jb_complete_def jb_wf_def)
    ultimately show ?thesis by simp
  qed
qed

lemma jb_complete_steps:
  assumes "jb_complete pay (set rs) j" and "mild rs is"
    and "jb_steps (map (\<lambda>i. (i, Some (pay i), False)) is) j = (out, j')"
  shows "jb_complete pay (set rs \<union> set is) j' \<and> jb_next j \<le> jb_next j' \<and>
    out = map (\<lambda>n. (n, pay n)) [jb_next j..<jb_next j']"
  using assms
proof (induction "is" arbitrary: rs j out)
  case Nil
  then show ?case by simp
next
  case (Cons i "is")
  obtain out1 j1 outs where s: "jb_step i (Some (pay i)) j = (out1, j1)"
      "jb_steps (map (\<lambda>i. (i, Some (pay i), False)) is) j1 = (outs, j')" "out = out1 @ outs"
    using Cons.prems(3) by (auto simp: jb_hear_def split: prod.splits)
  have near: "\<And>m. m < i - 3 \<Longrightarrow> m \<in> set rs" and mild: "mild (i # rs) is"
    using Cons.prems(2) by (auto simp: list_all_iff)
  note S = jb_complete_step [OF Cons.prems(1) near s(1)]
  have C1: "jb_complete pay (set (i # rs)) j1" using S by simp
  note IH = Cons.IH [OF C1 mild s(2)]
  have "[jb_next j..<jb_next j'] = [jb_next j..<jb_next j1] @ [jb_next j1..<jb_next j']"
    using S IH by (metis le_Suc_ex upt_add_eq_append)
  then show ?case using S IH by (simp add: s(3))
qed

end
