(* ===== verification/Receive_Refine.thy ===== *)
theory Receive_Refine
  imports Receive Jitter_Spec
begin

text \<open>
  \<open>rx_reorder\<close> implements \<open>jb_step\<close>: the 8-bit \<open>expectedSeq\<close> is the abstract front modulo
  256, and \<open>sortingArea[q]\<close> is what is held at the index that \<open>q\<close> denotes in the current
  window. What the abstract step plays is what the code writes into the ring buffer.
\<close>

section \<open>Frames\<close>

definition ring_write :: "pcm \<Rightarrow> ring_buffer option \<Rightarrow> ring_buffer option" where
  "ring_write p r = (if p = [] then r else map_option (\<lambda>rb. snd (rb_put p rb)) r)"

definition ring_play :: "pcm list \<Rightarrow> ring_buffer option \<Rightarrow> ring_buffer option" where
  "ring_play ps r = fold ring_write ps r"

lemma ring_play_simps [simp]:
  "ring_play [] r = r" "ring_play (p # ps) r = ring_play ps (ring_write p r)"
  by (simp_all add: ring_play_def)

lemma rx_ring_writePcm [simp]: "rx_ring (writePcm p s) = ring_write p (rx_ring s)"
  by (simp add: writePcm_def ring_write_def split: option.split)

lemma rx_ring_release_one [simp]: "rx_ring (release_one p s) = ring_write p (rx_ring s)"
  by (simp add: release_one_def)

lemma decode_frame:
  assumes "decodeAudioPayload L data s = (ok, s')"
  shows "rx_sorting s' = rx_sorting s" and "rx_expected s' = rx_expected s"
    and "rx_ring s' = rx_ring s" and "rx_bufferLow s' = rx_bufferLow s"
    and "rx_codec s' = rx_codec s" and "rx_nullDeref s' = rx_nullDeref s"
  using assms by (auto simp: decodeAudioPayload_def Let_def split: prod.splits if_splits)

text \<open>The decoded form of a payload in a state, if it decodes.\<close>

definition decode_result :: "'d opus_lib \<Rightarrow> u8 list \<Rightarrow> 'd rx \<Rightarrow> pcm option" where
  "decode_result L data s =
     (case decodeAudioPayload L data s of (ok, s') \<Rightarrow> if ok then Some (rx_pcm s') else None)"

lemma decode_result_expected [simp]:
  "decode_result L data (s\<lparr>rx_expected := e\<rparr>) = decode_result L data s"
  by (auto simp: decode_result_def decodeAudioPayload_def Let_def split: prod.split)

section \<open>The abstraction relation\<close>

definition seq_abs :: "u8 \<Rightarrow> (u8 \<Rightarrow> pcm option) \<Rightarrow> jb \<Rightarrow> bool" where
  "seq_abs e area j \<longleftrightarrow>
     e = of_nat (jb_next j) \<and> jb_bounded j \<and>
     (\<forall>q. area q = jb_held j (jb_next j + ahead e q))"

definition rx_abs :: "'d rx \<Rightarrow> jb \<Rightarrow> bool" where
  "rx_abs s j \<longleftrightarrow> seq_abs (rx_expected s) (rx_sorting s) j \<and> rx_bufferLow s = jb_low j"

lemma rx_absD:
  assumes "rx_abs s j"
  shows "seq_abs (rx_expected s) (rx_sorting s) j" and "rx_bufferLow s = jb_low j"
  using assms by (simp_all add: rx_abs_def)

lemma seq_absD:
  assumes "seq_abs e area j"
  shows "e = of_nat (jb_next j)" and "jb_bounded j"
    and "area q = jb_held j (jb_next j + ahead e q)"
  using assms by (auto simp: seq_abs_def)

lemma seq_abs_front: "seq_abs e area j \<Longrightarrow> area e = jb_held j (jb_next j)"
  using seq_absD(3) [of e area j e] by simp

text \<open>Moving the front by one, past an empty or an emptied slot.\<close>

lemma seq_abs_advance:
  assumes "seq_abs e area j"
  shows "seq_abs (e + 1) (area(e := None))
    (j\<lparr>jb_next := Suc (jb_next j), jb_held := (jb_held j)(jb_next j := None)\<rparr>)"
proof -
  note A = seq_absD [OF assms]
  let ?j = "j\<lparr>jb_next := Suc (jb_next j), jb_held := (jb_held j)(jb_next j := None)\<rparr>"
  have "jb_bounded ?j"
    using jb_boundedD [OF A(2)] by (fastforce simp: jb_bounded_def)
  moreover have "(area(e := None)) q = jb_held ?j (jb_next ?j + ahead (e + 1) q)" for q
  proof (cases "q = e")
    case True
    then show ?thesis
      using jb_bounded_None [OF A(2), of "256 + jb_next j"]
      by (simp add: ahead_Suc_base jb_window_def)
  next
    case False
    then obtain d where d: "ahead e q = Suc d" using ahead_eq_0 [of e q] by (cases "ahead e q") auto
    then show ?thesis using False A(3) [of q] by (simp add: ahead_Suc_base)
  qed
  ultimately show ?thesis using A(1) by (simp add: seq_abs_def add.commute)
qed

lemma seq_abs_skip:
  assumes "seq_abs e area j" and "jb_held j (jb_next j) = None"
  shows "seq_abs (e + 1) area (j\<lparr>jb_next := Suc (jb_next j)\<rparr>)"
proof -
  have "area(e := None) = area" using seq_abs_front [OF assms(1)] assms(2) by (auto simp: fun_eq_iff)
  moreover have "(jb_held j)(jb_next j := None) = jb_held j" using assms(2) by (auto simp: fun_eq_iff)
  ultimately show ?thesis using seq_abs_advance [OF assms(1)] by simp
qed

lemma seq_abs_store:
  assumes "seq_abs e area j" and "ahead e q < jb_window"
  shows "seq_abs e (area(q := x)) (j\<lparr>jb_held := (jb_held j)(jb_next j + ahead e q := x)\<rparr>)"
proof -
  note A = seq_absD [OF assms(1)]
  have "jb_bounded (j\<lparr>jb_held := (jb_held j)(jb_next j + ahead e q := x)\<rparr>)"
    using A(2) assms(2) by (auto simp: jb_bounded_def)
  then show ?thesis using A by (auto simp: seq_abs_def ahead_inject)
qed

section \<open>Refinement\<close>

lemma release_refines:
  assumes "rx_abs s j" and "jb_flush j = (out, j')"
  shows "rx_abs (release s) j' \<and> rx_ring (release s) = ring_play (map snd out) (rx_ring s)"
  using assms
proof (induction s arbitrary: j out j' rule: release.induct)
  case (1 s)
  note abs = rx_absD [OF "1.prems"(1)]
  note front = seq_abs_front [OF abs(1)] and bounded = seq_absD(2) [OF abs(1)]
  show ?case
  proof (cases "rx_sorting s (rx_expected s)")
    case None
    then have "jb_flush j = ([], j)" using front bounded by (intro jb_flush_0) simp_all
    moreover have "release s = s" using None by (simp add: release.simps [of s])
    ultimately show ?thesis using "1.prems" by simp
  next
    case (Some p)
    let ?j = "j\<lparr>jb_next := Suc (jb_next j), jb_held := (jb_held j)(jb_next j := None)\<rparr>"
    obtain out1 j1 where f: "jb_flush ?j = (out1, j1)" by fastforce
    have "jb_flush j = ((jb_next j, p) # out1, j1)"
      using jb_flush_Suc [OF bounded _ f] front Some by simp
    then have out: "out = (jb_next j, p) # out1" and j': "j' = j1" using "1.prems"(2) by simp_all
    have "rx_abs (release_one p s) ?j" using seq_abs_advance [OF abs(1)] abs(2) by (simp add: rx_abs_def)
    note IH = "1.IH" [OF Some this f]
    have "release s = release (release_one p s)" using Some by (simp add: release.simps [of s])
    then show ?thesis using IH by (simp add: out j')
  qed
qed

lemma release_idle: "rx_sorting s (rx_expected s) = None \<Longrightarrow> release s = s"
  by (simp add: release.simps [of s])

lemma rx_reorder_front:
  assumes abs: "rx_abs s j" and wf: "jb_wf j"
    and step: "jb_step (jb_next j) (decode_result L data s) j = (out, j')"
  shows "rx_abs (rx_reorder L (rx_expected s) data s) j' \<and>
    rx_ring (rx_reorder L (rx_expected s) data s) = ring_play (map snd out) (rx_ring s)"
proof -
  have new: "isNewer (rx_expected s - 1) (rx_expected s)"
    by (simp add: isNewer_expected in_window_def)
  have empty: "jb_held j (jb_next j) = None" using wf by (simp add: jb_wf_def)
  obtain ok sA where d: "decodeAudioPayload L data s = (ok, sA)" by fastforce
  note fr = decode_frame [OF d]
  show ?thesis
  proof (cases ok)
    case True
    let ?s1 = "(writePcm (rx_pcm sA) sA)\<lparr>rx_bufferLow := False, rx_expected := rx_expected sA + 1\<rparr>"
    let ?j1 = "j\<lparr>jb_next := Suc (jb_next j), jb_low := False\<rparr>"
    obtain out1 where f: "jb_flush ?j1 = (out1, j')" and out: "out = (jb_next j, rx_pcm sA) # out1"
      using step True d by (auto simp: jb_step_def jb_window_def decode_result_def split: prod.splits)
    have "rx_abs ?s1 ?j1" using seq_abs_skip [OF rx_absD(1) [OF abs] empty]
      by (simp add: rx_abs_def seq_abs_def jb_bounded_def fr)
    note R = release_refines [OF this f]
    have "rx_reorder L (rx_expected s) data s = release ?s1"
      using new True by (simp add: rx_reorder_def d Let_def)
    then show ?thesis using R by (simp add: out fr)
  next
    case False
    have "rx_reorder L (rx_expected s) data s = release sA"
      using new False by (simp add: rx_reorder_def d Let_def)
    also have "\<dots> = sA"
      using seq_abs_front [OF rx_absD(1) [OF abs]] empty by (intro release_idle) (simp add: fr)
    finally show ?thesis
      using step False d abs
      by (simp add: jb_step_def jb_window_def decode_result_def rx_abs_def fr)
  qed
qed

lemma rx_reorder_ahead:
  assumes abs: "rx_abs s j" and wf: "jb_wf j"
    and pos: "0 < ahead (rx_expected s) q" and win: "ahead (rx_expected s) q < jb_window"
    and step: "jb_step (jb_next j + ahead (rx_expected s) q) (decode_result L data s) j = (out, j')"
  shows "rx_abs (rx_reorder L q data s) j' \<and>
    rx_ring (rx_reorder L q data s) = ring_play (map snd out) (rx_ring s)"
proof -
  let ?e = "rx_expected s" and ?d = "ahead (rx_expected s) q"
  let ?skip = "4 \<le> ?d \<or> rx_bufferLow s"
  define n where "n = jb_next j + ?d"
  define sB where "sB = (if ?skip then s\<lparr>rx_expected := ?e + 1\<rparr> else s)"
  define jB where "jB = (if ?skip then j\<lparr>jb_next := Suc (jb_next j)\<rparr> else j)"
  have empty: "jb_held j (jb_next j) = None" using wf by (simp add: jb_wf_def)
  have new: "isNewer (?e - 1) q" and neq: "q \<noteq> ?e"
    using win pos by (auto simp: isNewer_expected in_window_def jb_window_def)
  have skip: "q - ?e \<ge> 4 \<or> rx_bufferLow s \<longleftrightarrow> ?skip"
    by (simp add: ahead_def word_le_nat_alt)
  note abs' = rx_absD [OF abs]
  have absB: "seq_abs (rx_expected sB) (rx_sorting sB) jB"
    using abs'(1) seq_abs_skip [OF abs'(1) empty] by (simp add: sB_def jB_def)
  have lowB: "rx_bufferLow sB = jb_low jB" using abs'(2) by (simp add: sB_def jB_def)
  have n: "jb_next jB + ahead (rx_expected sB) q = n" and winB: "ahead (rx_expected sB) q < jb_window"
    using neq pos win by (auto simp: sB_def jB_def n_def ahead_Suc_base)
  have slot: "rx_sorting sB q = jb_held jB n" using seq_absD(3) [OF absB, of q] n by simp
  have flush: "jb_flush (if jb_held jB n = None
      then jB\<lparr>jb_held := (jb_held jB)(n := decode_result L data s)\<rparr> else jB) = (out, j')"
  proof -
    have "jb_flush (jb_admit n (decode_result L data s) j) = (out, j')"
      using step win neq by (simp add: jb_step_def n_def)
    then show ?thesis
      by (simp only: jb_admit_def Let_def jB_def n_def add_diff_cancel_left' abs'(2))
  qed
  obtain ok sC where d: "decodeAudioPayload L data sB = (ok, sC)" by fastforce
  note fr = decode_frame [OF d]
  have dec: "decode_result L data s = (if ok then Some (rx_pcm sC) else None)"
  proof -
    have "decode_result L data s = decode_result L data sB" by (simp add: sB_def)
    then show ?thesis by (simp add: decode_result_def d)
  qed
  define s1 where "s1 = (if rx_sorting sB q = None then
      if ok then sC\<lparr>rx_sorting := (rx_sorting sC)(q := Some (rx_pcm sC))\<rparr> else sC else sB)"
  have "rx_reorder L q data s = release s1"
    unfolding rx_reorder_def s1_def using new neq
    by (simp add: Let_def skip d sB_def [symmetric])
  moreover have "rx_abs s1 (if jb_held jB n = None
      then jB\<lparr>jb_held := (jb_held jB)(n := decode_result L data s)\<rparr> else jB)"
  proof (cases "jb_held jB n = None \<and> ok")
    case True
    then show ?thesis
      using seq_abs_store [OF absB winB, of "Some (rx_pcm sC)"] slot lowB
      by (simp add: rx_abs_def s1_def dec fr n)
  next
    case False
    then have "(jb_held jB)(n := decode_result L data s) = jb_held jB \<or> jb_held jB n \<noteq> None"
      by (auto simp: dec fun_eq_iff)
    then show ?thesis using False absB slot lowB by (auto simp: rx_abs_def s1_def fr)
  qed
  moreover have "rx_ring s1 = rx_ring s" by (simp add: s1_def fr sB_def)
  ultimately show ?thesis using release_refines [OF _ flush] by auto
qed

lemma rx_reorder_refines:
  assumes abs: "rx_abs s j" and wf: "jb_wf j"
    and step: "jb_step (jb_next j + ahead (rx_expected s) q) (decode_result L data s) j = (out, j')"
  shows "rx_abs (rx_reorder L q data s) j' \<and>
    rx_ring (rx_reorder L q data s) = ring_play (map snd out) (rx_ring s)"
proof -
  let ?e = "rx_expected s" and ?d = "ahead (rx_expected s) q"
  have new: "isNewer (?e - 1) q \<longleftrightarrow> ?d < jb_window"
    by (simp add: isNewer_expected in_window_def jb_window_def)
  consider (ignored) "jb_window \<le> ?d" | (front) "q = ?e" | (ahead) "0 < ?d" "?d < jb_window"
    using ahead_eq_0 [of ?e q] by linarith
  then show ?thesis
  proof cases
    case ignored
    then show ?thesis using abs step new by (simp add: jb_step_def rx_reorder_def)
  next
    case front
    then show ?thesis using rx_reorder_front [OF abs wf] step by simp
  next
    case ahead
    then show ?thesis using rx_reorder_ahead [OF abs wf _ _ step] by simp
  qed
qed

section \<open>Sessions on the sender's own numbering\<close>

text \<open>
  The sender numbers its packets \<open>0, 1, 2, \<dots>\<close> and sends the low eight bits. As long as what
  arrives is at most 242 packets late and less than a full circle early, the eight bits
  denote the sender's number.
\<close>

definition jb_near :: "nat \<Rightarrow> jb \<Rightarrow> bool" where
  "jb_near i j \<longleftrightarrow> jb_next j \<le> i + 242 \<and> i < jb_next j + 256"

lemma ahead_of_nat:
  assumes "e = of_nat N" and "N \<le> i" and "i < N + 256"
  shows "ahead e (of_nat i) = i - N"
proof -
  have "of_nat i = e + of_nat (i - N)" using assms by (simp add: of_nat_diff)
  then show ?thesis using assms ahead_add_of_nat [of "i - N" e] by simp
qed

lemma ahead_of_nat_late:
  assumes "e = of_nat N" and "i < N" and "N \<le> i + 256"
  shows "ahead e (of_nat i) = 256 - (N - i)"
proof -
  have "i + 256 = N + (256 - (N - i))" using assms by linarith
  then have "of_nat (i + 256) = (e + of_nat (256 - (N - i)) :: u8)"
    using assms(1) by (metis of_nat_add)
  moreover have "of_nat (i + 256) = (of_nat i :: u8)"
    by simp
  ultimately have "of_nat i = e + of_nat (256 - (N - i))" by simp
  moreover have "256 - (N - i) < 256" using assms(2) by simp
  ultimately show ?thesis using ahead_add_of_nat [of "256 - (N - i)" e] by simp
qed

lemma rx_reorder_index:
  assumes abs: "rx_abs s j" and wf: "jb_wf j" and near: "jb_near i j"
    and step: "jb_step i (decode_result L data s) j = (out, j')"
  shows "rx_abs (rx_reorder L (of_nat i) data s) j' \<and>
    rx_ring (rx_reorder L (of_nat i) data s) = ring_play (map snd out) (rx_ring s)"
proof -
  let ?d = "ahead (rx_expected s) (of_nat i)"
  have e: "rx_expected s = of_nat (jb_next j)" using seq_absD(1) [OF rx_absD(1) [OF abs]] .
  have "jb_step (jb_next j + ?d) (decode_result L data s) j = (out, j')"
  proof (cases "jb_next j \<le> i")
    case True
    then show ?thesis using ahead_of_nat [OF e True] near step by (simp add: jb_near_def)
  next
    case False
    then have "?d = 256 - (jb_next j - i)" using near by (intro ahead_of_nat_late [OF e]) (auto simp: jb_near_def)
    then have "jb_window \<le> ?d" using near by (auto simp: jb_near_def jb_window_def)
    then show ?thesis using False step by (simp add: jb_step_def)
  qed
  then show ?thesis by (rule rx_reorder_refines [OF abs wf])
qed

definition rx_hear :: "bool \<Rightarrow> 'd rx \<Rightarrow> 'd rx" where
  "rx_hear dry s = (if dry then s\<lparr>rx_bufferLow := True\<rparr> else s)"

text \<open>The packets of a session through the code, the renderer reporting underruns between them.\<close>

fun rx_reorder_run :: "'d opus_lib \<Rightarrow> (u8 \<times> u8 list \<times> bool) list \<Rightarrow> 'd rx \<Rightarrow> 'd rx" where
  "rx_reorder_run L [] s = s"
| "rx_reorder_run L ((q, data, dry) # ps) s = rx_reorder_run L ps (rx_reorder L q data (rx_hear dry s))"

lemma rx_hear_simps [simp]:
  "rx_ring (rx_hear dry s) = rx_ring s" "rx_codec (rx_hear dry s) = rx_codec s"
  "rx_sorting (rx_hear dry s) = rx_sorting s" "rx_expected (rx_hear dry s) = rx_expected s"
  by (simp_all add: rx_hear_def)

lemma rx_abs_hear: "rx_abs s j \<Longrightarrow> rx_abs (rx_hear dry s) (jb_hear dry j)"
  by (auto simp: rx_abs_def seq_abs_def rx_hear_def jb_hear_def jb_bounded_def)

lemma rx_codec_release [simp]: "rx_codec (release s) = rx_codec s"
proof (induction s rule: release.induct)
  case (1 s)
  then show ?case by (simp add: release.simps [of s] split: option.split)
qed

lemma rx_codec_reorder [simp]: "rx_codec (rx_reorder L q data s) = rx_codec s"
  by (auto simp: rx_reorder_def Let_def dest: decode_frame split: prod.split)

lemma decode_result_pcm:
  "rx_codec s = AUDIO_CODEC_PCM \<Longrightarrow> decode_result L data s = Some (pcm_of_bytes data)"
  by (simp add: decode_result_def decodeAudioPayload_def Let_def)

text \<open>The session as the sender numbers it: index, payload, underrun before it.\<close>

type_synonym sent_packet = "nat \<times> u8 list \<times> bool"

definition on_wire :: "sent_packet \<Rightarrow> u8 \<times> u8 list \<times> bool" where
  "on_wire p = (case p of (i, data, dry) \<Rightarrow> (of_nat i, data, dry))"

definition as_spec :: "sent_packet \<Rightarrow> nat \<times> pcm option \<times> bool" where
  "as_spec p = (case p of (i, data, dry) \<Rightarrow> (i, Some (pcm_of_bytes data), dry))"

fun jb_synced :: "sent_packet list \<Rightarrow> jb \<Rightarrow> bool" where
  "jb_synced [] j = True"
| "jb_synced ((i, data, dry) # ps) j =
     (jb_near i j \<and> jb_synced ps (snd (jb_step i (Some (pcm_of_bytes data)) (jb_hear dry j))))"

lemma reorder_session:
  assumes "rx_abs s j" and "jb_wf j" and "rx_codec s = AUDIO_CODEC_PCM" and "jb_synced ps j"
  shows "rx_abs (rx_reorder_run L (map on_wire ps) s) (snd (jb_steps (map as_spec ps) j)) \<and>
    rx_ring (rx_reorder_run L (map on_wire ps) s) =
      ring_play (map snd (fst (jb_steps (map as_spec ps) j))) (rx_ring s)"
  using assms
proof (induction ps arbitrary: s j)
  case Nil
  then show ?case by simp
next
  case (Cons p ps)
  obtain i data dry where p: "p = (i, data, dry)" by (cases p)
  let ?s = "rx_hear dry s" and ?j = "jb_hear dry j"
  obtain out j1 where st: "jb_step i (Some (pcm_of_bytes data)) ?j = (out, j1)" by fastforce
  have near: "jb_near i ?j" and sync: "jb_synced ps j1"
    using Cons.prems(4) st by (simp_all add: p jb_near_def)
  have dec: "decode_result L data ?s = Some (pcm_of_bytes data)"
    using Cons.prems(3) by (intro decode_result_pcm) simp
  have one: "rx_abs (rx_reorder L (of_nat i) data ?s) j1 \<and>
      rx_ring (rx_reorder L (of_nat i) data ?s) = ring_play (map snd out) (rx_ring ?s)"
    using rx_abs_hear [OF Cons.prems(1)] Cons.prems(2) near st
    by (intro rx_reorder_index) (simp_all add: dec)
  have wf: "jb_wf j1" using jb_okD(1) [OF jb_step_ok [OF _ st]] Cons.prems(2) by simp
  obtain outs j2 where sts: "jb_steps (map as_spec ps) j1 = (outs, j2)" by fastforce
  have codec: "rx_codec (rx_reorder L (of_nat i) data ?s) = AUDIO_CODEC_PCM"
    using Cons.prems(3) by simp
  note IH = Cons.IH [OF conjunct1 [OF one] wf codec sync, unfolded sts fst_conv snd_conv]
  have spec: "jb_steps (map as_spec (p # ps)) j = (out @ outs, j2)"
    by (simp add: p as_spec_def [of "(i, data, dry)"] st sts)
  have code: "rx_reorder_run L (map on_wire (p # ps)) s =
      rx_reorder_run L (map on_wire ps) (rx_reorder L (of_nat i) data ?s)"
    by (simp add: p on_wire_def [of "(i, data, dry)"])
  show ?case unfolding spec code using IH one by (simp add: ring_play_def)
qed

end
