(* ===== verification/Receive_Modes.thy ===== *)
theory Receive_Modes
  imports Receive_Refine
begin

text \<open>
  What the three receivers of the main loop share. All of them drop what lies outside the
  window (\<open>windowed_receiver\<close>); the QUIC receiver and the discarding UDP receiver jump to
  every number they accept (\<open>linear_receiver\<close>). The locales are interpreted on \<open>rx_reorder\<close>,
  \<open>rx_discard\<close> and \<open>rx_quic\<close>. The second half shows that no receiver loses the channel
  alignment of the samples or writes through a null ring buffer.
\<close>

section \<open>Receivers with a window\<close>

locale windowed_receiver =
  fixes receive :: "u8 \<Rightarrow> u8 list \<Rightarrow> 'd rx \<Rightarrow> 'd rx"
  assumes rejects: "\<not> in_window (rx_expected s) q \<Longrightarrow> receive q data s = s"
begin

text \<open>
  After a burst loss of fourteen or more packets the sender's next number lies outside the
  window, and so do all numbers up to the one before \<open>expectedSeq\<close>: 242 packets in a row
  change nothing.
\<close>

lemma late_rejected:
  assumes "k < 242"
  shows "receive (rx_expected s + of_nat (14 + k)) data s = s"
proof (rule rejects)
  have "ahead (rx_expected s) (rx_expected s + of_nat (14 + k)) = 14 + k"
    using assms by (intro ahead_add_of_nat) simp
  then show "\<not> in_window (rx_expected s) (rx_expected s + of_nat (14 + k))"
    by (simp only: in_window_def)
qed

lemma burst_ignored:
  assumes "m \<le> 242"
  shows "fold (\<lambda>k. receive (rx_expected s + of_nat (14 + k)) (payload k)) [0..<m] s = s"
  using assms
proof (induction m)
  case 0
  then show ?case by simp
next
  case (Suc m)
  have "fold (\<lambda>k. receive (rx_expected s + of_nat (14 + k)) (payload k)) [0..<m] s = s"
    using Suc.prems by (intro Suc.IH) simp
  moreover have "receive (rx_expected s + of_nat (14 + m)) (payload m) s = s"
    using Suc.prems by (intro late_rejected) simp
  ultimately show ?case by simp
qed

end

section \<open>Receivers that jump to what they accept\<close>

text \<open>Indices without wrap-around: what such a receiver plays, and the index it then expects.\<close>

fun lin_run :: "(nat \<times> u8 list) list \<Rightarrow> nat \<Rightarrow> (nat \<times> pcm) list \<times> nat" where
  "lin_run [] n = ([], n)"
| "lin_run ((i, data) # ps) n =
     (if n \<le> i \<and> i < n + 14
      then let (outs, n') = lin_run ps (Suc i) in ((i, pcm_of_bytes data) # outs, n')
      else lin_run ps n)"

fun lin_synced :: "(nat \<times> u8 list) list \<Rightarrow> nat \<Rightarrow> bool" where
  "lin_synced [] n = True"
| "lin_synced ((i, data) # ps) n =
     (n \<le> i + 242 \<and> i < n + 256 \<and> lin_synced ps (if n \<le> i \<and> i < n + 14 then Suc i else n))"

lemma in_window_of_nat:
  assumes "e = of_nat n" and "n \<le> i + 242" and "i < n + 256"
  shows "in_window e (of_nat i) \<longleftrightarrow> n \<le> i \<and> i < n + 14"
proof (cases "n \<le> i")
  case True
  then show ?thesis using ahead_of_nat [OF assms(1) True assms(3)] by (auto simp: in_window_def)
next
  case False
  then have "ahead e (of_nat i) = 256 - (n - i)"
    using assms(2) by (intro ahead_of_nat_late [OF assms(1)]) simp_all
  then show ?thesis using False assms(2) by (simp add: in_window_def)
qed

lemma lin_run_sound:
  assumes "lin_run ps n = (outs, n')"
  shows "n \<le> n' \<and> sorted_wrt (<) (map fst outs) \<and>
    (\<forall>(i, p) \<in> set outs. n \<le> i \<and> i < n' \<and> (\<exists>data. (i, data) \<in> set ps \<and> p = pcm_of_bytes data))"
  using assms
proof (induction ps n arbitrary: outs rule: lin_run.induct)
  case (1 n)
  then show ?case by simp
next
  case (2 i data ps n)
  show ?case
  proof (cases "n \<le> i \<and> i < n + 14")
    case True
    obtain outs1 where r: "lin_run ps (Suc i) = (outs1, n')" "outs = (i, pcm_of_bytes data) # outs1"
      using 2(3) True by (auto split: prod.splits)
    show ?thesis using 2(1) [OF True r(1)] True by (fastforce simp: r(2))
  next
    case False
    have r: "lin_run ps n = (outs, n')" using 2(3) by (simp only: lin_run.simps if_not_P [OF False])
    show ?thesis using 2(2) [OF False r] by fastforce
  qed
qed

locale linear_receiver = windowed_receiver +
  assumes accepts_expected: "in_window (rx_expected s) q \<Longrightarrow> rx_expected (receive q data s) = q + 1"
    and accepts_ring: "in_window (rx_expected s) q \<Longrightarrow> rx_codec s = AUDIO_CODEC_PCM \<Longrightarrow>
      rx_ring (receive q data s) = ring_write (pcm_of_bytes data) (rx_ring s)"
    and keeps_codec: "rx_codec (receive q data s) = rx_codec s"
begin

text \<open>After 242 ignored packets the number \<open>expectedSeq\<close> comes round again and is accepted.\<close>

lemma burst_recovers:
  "rx_expected (receive (rx_expected s + of_nat (14 + 242)) data s) = rx_expected s + 1"
proof -
  have "rx_expected s + of_nat (14 + 242) = rx_expected s" by simp
  then show ?thesis
    by (simp only: accepts_expected in_window_def ahead_self)
qed

lemma session:
  assumes "rx_codec s = AUDIO_CODEC_PCM" and "rx_expected s = of_nat n" and "lin_synced ps n"
    and "lin_run ps n = (outs, n')"
  shows "rx_ring (fold (\<lambda>(i, data). receive (of_nat i) data) ps s) = ring_play (map snd outs) (rx_ring s) \<and>
    rx_expected (fold (\<lambda>(i, data). receive (of_nat i) data) ps s) = of_nat n'"
  using assms
proof (induction ps n arbitrary: s outs rule: lin_run.induct)
  case (1 n)
  then show ?case by simp
next
  case (2 i data ps n)
  have near: "n \<le> i + 242" "i < n + 256" using 2(5) by simp_all
  note win = in_window_of_nat [OF 2(4) near]
  have codec: "rx_codec (receive (of_nat i) data s) = AUDIO_CODEC_PCM"
    using 2(3) by (simp add: keeps_codec)
  show ?case
  proof (cases "n \<le> i \<and> i < n + 14")
    case True
    obtain outs1 where r: "lin_run ps (Suc i) = (outs1, n')" "outs = (i, pcm_of_bytes data) # outs1"
      using 2(6) True by (auto split: prod.splits)
    have e: "rx_expected (receive (of_nat i) data s) = of_nat (Suc i)"
      using accepts_expected [OF iffD2 [OF win True]] by (simp add: add.commute)
    have sync: "lin_synced ps (Suc i)" using 2(5) True by simp
    show ?thesis
      using 2(1) [OF True codec e sync r(1)] accepts_ring [OF iffD2 [OF win True] 2(3)]
      by (simp add: r(2))
  next
    case False
    have sync: "lin_synced ps n" and run: "lin_run ps n = (outs, n')"
      using 2(5,6) by (simp_all only: lin_synced.simps lin_run.simps if_not_P [OF False])
    have "receive (of_nat i) data s = s" using win False by (intro rejects) simp
    then show ?thesis using 2(2) [OF False 2(3,4) sync run] by simp
  qed
qed

end

section \<open>The three receivers\<close>

lemma rx_reorder_rejects: "\<not> in_window (rx_expected s) q \<Longrightarrow> rx_reorder L q data s = s"
  by (simp add: rx_reorder_def isNewer_expected)

lemma rx_discard_rejects: "\<not> in_window (rx_expected s) q \<Longrightarrow> rx_discard L q data s = s"
  by (simp add: rx_discard_def isNewer_expected)

lemma rx_quic_rejects: "\<not> in_window (rx_expected s) q \<Longrightarrow> rx_quic L q data s = s"
  by (simp add: rx_quic_def isNewer_expected)

lemma decode_pcm:
  "rx_codec s = AUDIO_CODEC_PCM \<Longrightarrow>
    decodeAudioPayload L data s = (True, s\<lparr>rx_pcm := pcm_of_bytes data\<rparr>)"
  by (simp add: decodeAudioPayload_def Let_def)

lemma plc_loop_frame [simp]:
  "rx_expected (plc_loop L n s) = rx_expected s" "rx_codec (plc_loop L n s) = rx_codec s"
  "rx_sorting (plc_loop L n s) = rx_sorting s"
  by (induction n arbitrary: s) (auto simp: Let_def split: prod.split)

lemma rx_discard_pcm:
  assumes "in_window (rx_expected s) q" and "rx_codec s = AUDIO_CODEC_PCM"
  shows "rx_ring (rx_discard L q data s) = ring_write (pcm_of_bytes data) (rx_ring s)"
  using assms by (simp add: rx_discard_def isNewer_expected decode_pcm)

lemma rx_quic_pcm:
  assumes "in_window (rx_expected s) q" and "rx_codec s = AUDIO_CODEC_PCM"
  shows "rx_ring (rx_quic L q data s) = ring_write (pcm_of_bytes data) (rx_ring s)"
  using assms by (simp add: rx_quic_def isNewer_expected decode_pcm Let_def protocol_consts)

interpretation reorder: windowed_receiver "rx_reorder L" for L :: "'d opus_lib"
  by unfold_locales (rule rx_reorder_rejects)

interpretation discard: linear_receiver "rx_discard L" for L :: "'d opus_lib"
proof unfold_locales
  fix s :: "'d rx" and q data
  show "rx_codec (rx_discard L q data s) = rx_codec s"
    by (auto simp: rx_discard_def dest: decode_frame split: prod.split)
qed (simp_all add: rx_discard_rejects rx_discard_pcm, simp add: rx_discard_def isNewer_expected split: prod.split)

interpretation quic: linear_receiver "rx_quic L" for L :: "'d opus_lib"
proof unfold_locales
  fix s :: "'d rx" and q data
  show "rx_codec (rx_quic L q data s) = rx_codec s"
    by (auto simp: rx_quic_def Let_def dest: decode_frame split: prod.split)
qed (simp_all add: rx_quic_rejects rx_quic_pcm, simp add: rx_quic_def isNewer_expected Let_def split: prod.split)

section \<open>Alignment and the ring buffer\<close>

text \<open>
  With \<open>c\<close> channels: the ring buffer is there and holds whole frames, every packet in the
  sorting area is whole frames, and the Opus decoder, if it is the active codec, was set up
  for a multiple of \<open>c\<close> channels. No write has gone through a null pointer.
\<close>

definition ring_framed :: "nat \<Rightarrow> ring_buffer option \<Rightarrow> bool" where
  "ring_framed c r \<longleftrightarrow>
     (\<exists>rb. r = Some rb \<and> rb_inv rb \<and> c dvd rb_cap rb \<and> c dvd length (rb_contents rb))"

definition rx_framed :: "nat \<Rightarrow> 'd rx \<Rightarrow> bool" where
  "rx_framed c s \<longleftrightarrow>
     ring_framed c (rx_ring s) \<and> \<not> rx_nullDeref s \<and>
     (\<forall>q p. rx_sorting s q = Some p \<longrightarrow> c dvd length p) \<and>
     (rx_codec s \<noteq> AUDIO_CODEC_PCM \<longrightarrow> c dvd unat (rt_channels (rx_opus s)))"

text \<open>What the sender must respect: PCM payloads are whole frames.\<close>

definition payload_framed :: "nat \<Rightarrow> u8 \<Rightarrow> u8 list \<Rightarrow> bool" where
  "payload_framed c codec data \<longleftrightarrow> (codec = AUDIO_CODEC_PCM \<longrightarrow> c dvd length data div 2)"

lemma ring_write_framed:
  assumes "ring_framed c r" and "c dvd length p"
  shows "ring_framed c (ring_write p r)"
proof -
  obtain rb where r: "r = Some rb" and inv: "rb_inv rb" and cap: "c dvd rb_cap rb"
      and used: "c dvd length (rb_contents rb)"
    using assms(1) unfolding ring_framed_def by blast
  obtain n rb' where w: "rb_write p (of_nat (length p)) rb = (n, rb')" by fastforce
  have put: "snd (rb_put p rb) = rb'" by (simp add: rb_put_def w)
  have le: "unat (of_nat (length p) :: u64) \<le> length p" by (simp add: unat_of_nat)
  note spec = rb_write_spec [OF inv le w]
  have "c dvd 2 ^ 64" using cap rb_cap_dvd [of rb] inv by (meson dvd_trans rb_inv_shape)
  then have "c dvd unat (of_nat (length p) :: u64)"
    using assms(2) unfolding unat_of_nat by (intro dvd_mod) simp_all
  then have "c dvd length (rb_contents rb')"
    unfolding spec(3) length_append length_take
    using used cap le by (auto simp: min_def)
  then show ?thesis using spec(1,4) cap assms(1) r put by (auto simp: ring_write_def ring_framed_def)
qed

lemma rx_framedI:
  assumes "ring_framed c (rx_ring s)" and "\<not> rx_nullDeref s"
    and "\<And>q p. rx_sorting s q = Some p \<Longrightarrow> c dvd length p"
    and "rx_codec s \<noteq> AUDIO_CODEC_PCM \<Longrightarrow> c dvd unat (rt_channels (rx_opus s))"
  shows "rx_framed c s"
  using assms by (simp add: rx_framed_def)

lemma rx_framedD:
  assumes "rx_framed c s"
  shows "ring_framed c (rx_ring s)" and "\<not> rx_nullDeref s"
    and "rx_sorting s q = Some p \<Longrightarrow> c dvd length p"
    and "rx_codec s \<noteq> AUDIO_CODEC_PCM \<Longrightarrow> c dvd unat (rt_channels (rx_opus s))"
  using assms by (simp_all add: rx_framed_def)

lemma rx_framed_update [simp]:
  "rx_framed c (s\<lparr>rx_expected := e\<rparr>) = rx_framed c s"
  "rx_framed c (s\<lparr>rx_bufferLow := b\<rparr>) = rx_framed c s"
  "rx_framed c (s\<lparr>rx_pcm := p\<rparr>) = rx_framed c s"
  by (simp_all add: rx_framed_def)

lemma writePcm_framed:
  assumes "rx_framed c s" and "c dvd length p"
  shows "rx_framed c (writePcm p s)"
proof -
  note D = rx_framedD [OF assms(1)]
  obtain rb where "rx_ring s = Some rb" using D(1) by (auto simp: ring_framed_def)
  then have "rx_nullDeref (writePcm p s) = rx_nullDeref s" by (simp add: writePcm_def)
  then show ?thesis using D ring_write_framed [OF D(1) assms(2)] by (simp add: rx_framed_def)
qed

lemma decode_framed:
  assumes "rx_framed c s" and "payload_framed c (rx_codec s) data"
    and "decodeAudioPayload L data s = (ok, s')"
  shows "rx_framed c s'" and "ok \<Longrightarrow> c dvd length (rx_pcm s')"
proof -
  note D = rx_framedD [OF assms(1)]
  show "rx_framed c s'"
    using assms(1,3) by (auto simp: rx_framed_def decodeAudioPayload_def Let_def
        dest: opus_decode_keeps split: prod.splits if_splits)
  show "c dvd length (rx_pcm s')" if ok
    using assms(2,3) D(4) that by (auto simp: payload_framed_def decodeAudioPayload_def Let_def
        intro: dvd_trans [OF _ opus_decode_framed] split: prod.splits if_splits)
qed

lemma plc_loop_framed:
  "rx_framed c s \<Longrightarrow> rx_codec s \<noteq> AUDIO_CODEC_PCM \<Longrightarrow> rx_framed c (plc_loop L n s)"
proof (induction n arbitrary: s)
  case 0
  then show ?case by simp
next
  case (Suc n)
  obtain ok out rt where d: "opus_decodeLoss L (rx_pcm s) (rx_opus s) = (ok, out, rt)"
    by (metis prod_cases3)
  let ?s = "s\<lparr>rx_pcm := out, rx_opus := rt\<rparr>"
  note D = rx_framedD [OF Suc.prems(1)]
  have ch: "c dvd unat (rt_channels rt)" using D(4) Suc.prems(2) opus_decodeLoss_keeps [OF d] by simp
  have fr: "rx_framed c ?s" using D ch by (simp add: rx_framed_def)
  have "rx_framed c (writePcm out ?s)" if ok
    using that opus_decodeLoss_framed [of L "rx_pcm s" "rx_opus s" out rt] d D(4) Suc.prems(2)
    by (intro writePcm_framed fr) (auto intro: dvd_trans)
  then show ?case using fr Suc.prems(2) by (simp add: d Let_def Suc.IH)
qed

lemma release_framed: "rx_framed c s \<Longrightarrow> rx_framed c (release s)"
proof (induction s rule: release.induct)
  case (1 s)
  note D = rx_framedD [OF "1.prems"]
  show ?case
  proof (cases "rx_sorting s (rx_expected s)")
    case None
    then show ?thesis using "1.prems" by (simp add: release_idle)
  next
    case (Some p)
    have w: "rx_framed c (writePcm p s)" by (intro writePcm_framed "1.prems" D(3) [OF Some])
    have "rx_framed c (release_one p s)"
      using rx_framedD [OF w] by (auto simp: rx_framed_def release_one_def Let_def)
    then show ?thesis using "1.IH" [OF Some] Some by (simp add: release.simps [of s])
  qed
qed

text \<open>One packet, in each of the three modes.\<close>

lemma rx_discard_framed:
  assumes "rx_framed c s" and "payload_framed c (rx_codec s) data"
  shows "rx_framed c (rx_discard L q data s)"
proof -
  obtain ok s1 where d: "decodeAudioPayload L data s = (ok, s1)" by fastforce
  note F = decode_framed [OF assms d]
  show ?thesis using F assms(1) by (simp add: rx_discard_def d Let_def writePcm_framed)
qed

lemma rx_quic_framed:
  assumes "rx_framed c s" and "payload_framed c (rx_codec s) data"
  shows "rx_framed c (rx_quic L q data s)"
proof -
  let ?g = "q - rx_expected s"
  define s1 where "s1 = (if ?g > 0 \<and> rx_codec s = AUDIO_CODEC_OPUS \<and> ?g \<le> 3
    then plc_loop L (unat ?g) s else s)"
  have s1: "rx_framed c s1" and codec: "rx_codec s1 = rx_codec s"
    using assms(1) plc_loop_framed [of c s L] by (auto simp: s1_def protocol_consts)
  obtain ok s2 where d: "decodeAudioPayload L data s1 = (ok, s2)" by fastforce
  note F = decode_framed [OF s1 assms(2) [folded codec] d]
  show ?thesis
    using F assms(1) d by (simp add: rx_quic_def s1_def Let_def writePcm_framed)
qed

lemma rx_reorder_framed:
  assumes "rx_framed c s" and "payload_framed c (rx_codec s) data"
  shows "rx_framed c (rx_reorder L q data s)"
proof -
  define sB where "sB = (if q - rx_expected s \<ge> 4 \<or> rx_bufferLow s
    then s\<lparr>rx_expected := rx_expected s + 1\<rparr> else s)"
  have sB: "rx_framed c sB" "payload_framed c (rx_codec sB) data" using assms by (simp_all add: sB_def)
  obtain ok s1 where d: "decodeAudioPayload L data s = (ok, s1)" by fastforce
  obtain okB s2 where dB: "decodeAudioPayload L data sB = (okB, s2)" by fastforce
  note F = decode_framed [OF assms d] and FB = decode_framed [OF sB dB]
  have "rx_framed c (s2\<lparr>rx_sorting := (rx_sorting s2)(q \<mapsto> rx_pcm s2)\<rparr>)" if okB
    using rx_framedD [OF FB(1)] FB(2) [OF that] by (auto simp: rx_framed_def)
  then show ?thesis
    using F FB assms(1) sB(1)
    by (auto simp: rx_reorder_def d Let_def sB_def [symmetric] dB
        intro!: release_framed writePcm_framed)
qed

text \<open>Nothing but the sender sees to it: an expected PCM packet that is not whole frames.\<close>

lemma ring_write_unframed:
  assumes "ring_framed c (Some rb)" and "\<not> c dvd length p" and "length (rb_contents rb) + length p \<le> rb_cap rb"
  shows "\<not> ring_framed c (ring_write p (Some rb))"
proof -
  have rb: "rb_inv rb" "c dvd length (rb_contents rb)" using assms(1) by (simp_all add: ring_framed_def)
  obtain k rb' where put: "rb_put p rb = (k, rb')" by fastforce
  have "length p < 2 ^ 64" using assms(3) rb_cap_less [of rb] by linarith
  note spec = rb_put_spec(3) [OF rb(1) this put]
  have "length p \<le> rb_cap rb - length (rb_contents rb)" using assms(3) by linarith
  then have "rb_contents rb' = rb_contents rb @ p" unfolding spec by simp
  then have "length (rb_contents rb') = length (rb_contents rb) + length p" by (simp only: length_append)
  then have "\<not> c dvd length (rb_contents rb')" using rb(2) assms(2) by (simp add: dvd_add_right_iff del: length_rb_contents)
  moreover have "p \<noteq> []" using assms(2) by auto
  ultimately show ?thesis by (simp add: ring_write_def ring_framed_def put del: length_rb_contents)
qed

lemma unframed_packet:
  assumes "rx_framed c s" and "\<not> payload_framed c (rx_codec s) data \<and> rx_ring s = Some rb \<and>
    length (rb_contents rb) + length data div 2 \<le> rb_cap rb"
  shows "\<not> rx_framed c (rx_discard L (rx_expected s) data s) \<and> \<not> rx_framed c (rx_quic L (rx_expected s) data s) \<and>
    (rx_sorting s (rx_expected s + 1) = None \<longrightarrow> \<not> rx_framed c (rx_reorder L (rx_expected s) data s))"
proof -
  let ?p = "pcm_of_bytes data"
  have pcm: "rx_codec s = AUDIO_CODEC_PCM" and odd: "\<not> c dvd length ?p"
    using assms(2) by (auto simp: payload_framed_def)
  have "ring_framed c (Some rb)" using rx_framedD(1) [OF assms(1)] assms(2) by simp
  then have bad: "\<not> ring_framed c (ring_write ?p (rx_ring s))"
    using odd assms(2) ring_write_unframed [of c rb ?p] by simp
  have new: "isNewer (rx_expected s - 1) (rx_expected s)" by (simp add: isNewer_expected in_window_def)
  have "rx_ring (rx_discard L (rx_expected s) data s) = ring_write ?p (rx_ring s)"
    using new by (simp add: rx_discard_def Let_def decode_pcm [OF pcm])
  moreover have "rx_ring (rx_quic L (rx_expected s) data s) = ring_write ?p (rx_ring s)"
    using new by (simp add: rx_quic_def Let_def decode_pcm [OF pcm])
  moreover have "rx_ring (rx_reorder L (rx_expected s) data s) = ring_write ?p (rx_ring s)"
    if "rx_sorting s (rx_expected s + 1) = None"
    using new that by (simp add: rx_reorder_def Let_def decode_pcm [OF pcm] release_idle)
  ultimately show ?thesis using bad rx_framedD(1) by metis
qed

section \<open>Lemmas for the session properties\<close>

text \<open>The state right after the renderer was initialised (main.cpp resets all of it).\<close>

definition rx_fresh :: "'d rx \<Rightarrow> bool" where
  "rx_fresh s \<longleftrightarrow> rx_expected s = 0 \<and> rx_sorting s = (\<lambda>_. None) \<and> \<not> rx_bufferLow s"

definition jb_start :: jb where
  "jb_start = \<lparr>jb_next = 0, jb_held = (\<lambda>_. None), jb_low = False\<rparr>"

lemma jb_start_wf [simp]: "jb_wf jb_start"
  by (simp add: jb_wf_def jb_bounded_def jb_start_def)

lemma rx_fresh_abs: "rx_fresh s \<Longrightarrow> rx_abs s jb_start"
  by (simp add: rx_fresh_def rx_abs_def seq_abs_def jb_bounded_def jb_start_def)




text \<open>Decoding and writing do not look at \<open>expectedSeq\<close>.\<close>

lemma decode_expected:
  "decodeAudioPayload L data (s\<lparr>rx_expected := e\<rparr>) =
     apsnd (\<lambda>t. t\<lparr>rx_expected := e\<rparr>) (decodeAudioPayload L data s)"
  by (auto simp: decodeAudioPayload_def Let_def split: prod.split)

lemma writePcm_expected:
  "writePcm p (s\<lparr>rx_expected := e\<rparr>) = (writePcm p s)\<lparr>rx_expected := e\<rparr>"
  by (simp add: writePcm_def split: option.split)

text \<open>The gap as the main loop measures it.\<close>

lemma gap_cases: "(q - e > 0 \<longleftrightarrow> 0 < ahead e q)" "(q - e \<le> 3 \<longleftrightarrow> ahead e q \<le> 3)"
  by (simp_all add: ahead_def word_less_nat_alt word_le_nat_alt)

lemma rx_quic_split:
  assumes "in_window (rx_expected s) q"
  shows "rx_quic L q data s = rx_quic L q data
    ((if 0 < ahead (rx_expected s) q \<and> ahead (rx_expected s) q \<le> 3 \<and> rx_codec s = AUDIO_CODEC_OPUS
      then plc_loop L (ahead (rx_expected s) q) s else s)\<lparr>rx_expected := q\<rparr>)"
proof -
  define s1 where "s1 = (if 0 < ahead (rx_expected s) q \<and> ahead (rx_expected s) q \<le> 3 \<and>
    rx_codec s = AUDIO_CODEC_OPUS then plc_loop L (ahead (rx_expected s) q) s else s)"
  obtain ok s2 where d: "decodeAudioPayload L data s1 = (ok, s2)" by fastforce
  have "rx_quic L q data s =
      (if ok then (writePcm (rx_pcm s2) s2)\<lparr>rx_bufferLow := False\<rparr> else s2)\<lparr>rx_expected := q + 1\<rparr>"
    using assms d
    by (simp add: rx_quic_def isNewer_expected Let_def gap_cases ahead_def [symmetric] s1_def conj_ac
        cong: if_cong)
  moreover have "rx_quic L q data (s1\<lparr>rx_expected := q\<rparr>) =
      (if ok then (writePcm (rx_pcm s2) s2)\<lparr>rx_bufferLow := False\<rparr> else s2)\<lparr>rx_expected := q + 1\<rparr>"
    by (simp add: rx_quic_def isNewer_expected in_window_def Let_def decode_expected d writePcm_expected)
  ultimately show ?thesis by (simp only: s1_def)
qed

lemma rx_reorder_gives_up:
  assumes "4 \<le> ahead (rx_expected s) q" and "in_window (rx_expected s) q"
    and "rx_sorting s (rx_expected s + 1) = None"
  shows "rx_sorting s q = Some p \<Longrightarrow> rx_reorder L q data s = s\<lparr>rx_expected := rx_expected s + 1\<rparr>"
proof -
  assume held: "rx_sorting s q = Some p"
  have "4 \<le> q - rx_expected s" "q \<noteq> rx_expected s"
    using assms(1) by (auto simp: ahead_def word_le_nat_alt)
  then show ?thesis
    using assms(2,3) held
    by (simp add: rx_reorder_def isNewer_expected Let_def release_idle)
qed

section \<open>Properties\<close>

text \<open>A PCM session with an empty eight-sample ring buffer, for the witnesses.\<close>

definition demo_rx :: "unit rx" where
  "demo_rx = \<lparr>rx_codec = AUDIO_CODEC_PCM,
     rx_opus = \<lparr>rt_decoder = Some (), rt_sampleRate = 48000, rt_channels = 2, rt_frameSamples = 960\<rparr>,
     rx_ring = Some (ring_new 8), rx_sorting = (\<lambda>_. None), rx_expected = 0, rx_pcm = [],
     rx_bufferLow = False, rx_nullDeref = False\<rparr>"

lemma demo_rx_simps [simp]:
  "rx_codec demo_rx = AUDIO_CODEC_PCM" "rx_ring demo_rx = Some (ring_new 8)"
  "rx_sorting demo_rx = (\<lambda>_. None)" "rx_expected demo_rx = 0" "rx_fresh demo_rx"
  "\<not> rx_nullDeref demo_rx"
  by (simp_all add: demo_rx_def rx_fresh_def)





text \<open>
  C3: One packet through the reordering receiver is one step of the abstract jitter buffer,
  for every 8-bit number the packet may carry, for any codec and any decoder: the state
  stays related to the abstract one and the ring buffer receives exactly what the abstract
  step plays.
\<close>

theorem reorder_refines_jitter_buffer:
  assumes "rx_abs s j" and "jb_wf j"
  shows "rx_abs (rx_reorder L q data s)
      (snd (jb_step (jb_next j + ahead (rx_expected s) q) (decode_result L data s) j)) \<and>
    rx_ring (rx_reorder L q data s) =
      ring_play (map snd (fst (jb_step (jb_next j + ahead (rx_expected s) q) (decode_result L data s) j)))
        (rx_ring s)"
proof -
  obtain out j' where st: "jb_step (jb_next j + ahead (rx_expected s) q) (decode_result L data s) j = (out, j')"
    by fastforce
  show ?thesis using rx_reorder_refines [OF assms st] by (simp add: st)
qed

theorem reorder_refines_jitter_buffer_witness:
  "rx_ring (rx_reorder demo_opus 0 [5,0] demo_rx) = ring_play [[5]] (Some (ring_new 8))"
proof -
  have "decode_result demo_opus [5,0] demo_rx = Some [5]" by (simp add: decode_result_pcm)
  moreover have "fst (jb_step 0 (Some [5]) jb_start) = [(0, [5])]" by code_simp
  ultimately show ?thesis
    using reorder_refines_jitter_buffer [OF rx_fresh_abs jb_start_wf, of demo_rx demo_opus 0 "[5,0]"]
    by (simp add: jb_start_def)
qed

text \<open>
  C22: The discarding UDP receiver and the QUIC receiver play a PCM session in order too, and exactly
  what they should. If every packet that arrives is at most 242 numbers behind the next expected
  one and less than 256 ahead of it (\<open>lin_synced\<close>), they write precisely the packets that lie in the
  fourteen-packet window of the next expected number when they arrive, each once and in
  increasing order of the sender's numbering, and they end up expecting the number after
  the last one played.
\<close>

theorem linear_receivers_play_in_order:
  assumes "rx_codec s = AUDIO_CODEC_PCM" and "rx_expected s = of_nat n" and "lin_synced ps n"
    and "lin_run ps n = (played, n')"
    and "receive = rx_discard L \<or> receive = rx_quic L"
  shows "rx_ring (fold (\<lambda>(i, data). receive (of_nat i) data) ps s) = ring_play (map snd played) (rx_ring s) \<and>
    rx_expected (fold (\<lambda>(i, data). receive (of_nat i) data) ps s) = of_nat n' \<and>
    sorted_wrt (<) (map fst played) \<and>
    (\<forall>(i, p) \<in> set played. n \<le> i \<and> i < n' \<and> (\<exists>data. (i, data) \<in> set ps \<and> p = pcm_of_bytes data))"
  using discard.session [OF assms(1-4), of L] quic.session [OF assms(1-4), of L] lin_run_sound [OF assms(4)] assms(5)
  by blast

theorem linear_receivers_play_in_order_witness:
  "rx_expected (fold (\<lambda>(i, data). rx_discard demo_opus (of_nat i) data) [(0, [1,0]), (2, [3,0]), (1, [2,0])] demo_rx) = 3"
proof -
  have "lin_synced [(0, [1,0]), (2, [3,0]), (1, [2,0])] 0" by code_simp
  moreover have "lin_run [(0, [1,0]), (2, [3,0]), (1, [2,0])] 0 = ([(0, [1]), (2, [3])], 3)" by code_simp
  moreover have "rx_expected demo_rx = of_nat 0" by simp
  ultimately show ?thesis
    using linear_receivers_play_in_order [of demo_rx 0 "[(0, [1,0]), (2, [3,0]), (1, [2,0])]"
        "[(0, [1]), (2, [3])]" 3 "rx_discard demo_opus" demo_opus]
    by (simp only: demo_rx_simps) simp
qed

text \<open>
  C25: What happens after a burst loss of fourteen packets: in each of the three modes the
  next 242 packets of the sender, consecutive and undamaged, are all dropped and change
  nothing. Only then does the expected number come round again; the discarding and the QUIC
  receiver accept it.
\<close>

theorem burst_loss_stalls:
  "fold (\<lambda>k. rx_reorder L (rx_expected s + of_nat (14 + k)) (payload k)) [0..<242] s = s \<and>
   fold (\<lambda>k. rx_discard L (rx_expected s + of_nat (14 + k)) (payload k)) [0..<242] s = s \<and>
   fold (\<lambda>k. rx_quic L (rx_expected s + of_nat (14 + k)) (payload k)) [0..<242] s = s \<and>
   rx_expected (rx_discard L (rx_expected s + of_nat (14 + 242)) data s) = rx_expected s + 1 \<and>
   rx_expected (rx_quic L (rx_expected s + of_nat (14 + 242)) data s) = rx_expected s + 1"
proof (intro conjI)
  show "fold (\<lambda>k. rx_reorder L (rx_expected s + of_nat (14 + k)) (payload k)) [0..<242] s = s"
    by (rule reorder.burst_ignored) simp
  show "fold (\<lambda>k. rx_discard L (rx_expected s + of_nat (14 + k)) (payload k)) [0..<242] s = s"
    by (rule discard.burst_ignored) simp
  show "fold (\<lambda>k. rx_quic L (rx_expected s + of_nat (14 + k)) (payload k)) [0..<242] s = s"
    by (rule quic.burst_ignored) simp
qed (rule discard.burst_recovers quic.burst_recovers)+

text \<open>
  C23: Channel alignment rests on the sender. If the payload of a PCM packet is a whole number of frames,
  then in every mode and for every sequence number, decoder behaviour and underrun, the samples in
  the ring buffer and in the sorting area remain whole frames of \<open>c\<close> channels, the ring
  buffer's invariant holds, and no write goes through a null pointer. The code does not check
  this: an expected packet with any other payload, if there is room for it, leaves the samples in the ring
  buffer misaligned.
\<close>

theorem receivers_keep_frames:
  assumes "rx_framed c s"
  shows "(payload_framed c (rx_codec s) data \<longrightarrow>
      rx_framed c (rx_reorder L q data s) \<and> rx_framed c (rx_discard L q data s) \<and>
      rx_framed c (rx_quic L q data s)) \<and>
    (\<not> payload_framed c (rx_codec s) data \<and> rx_ring s = Some rb \<and>
        length (rb_contents rb) + length data div 2 \<le> rb_cap rb \<longrightarrow>
      \<not> rx_framed c (rx_discard L (rx_expected s) data s) \<and> \<not> rx_framed c (rx_quic L (rx_expected s) data s) \<and>
      (rx_sorting s (rx_expected s + 1) = None \<longrightarrow> \<not> rx_framed c (rx_reorder L (rx_expected s) data s)))"
proof (intro conjI impI)
  assume "payload_framed c (rx_codec s) data"
  then show "rx_framed c (rx_reorder L q data s)" "rx_framed c (rx_discard L q data s)" "rx_framed c (rx_quic L q data s)"
    using rx_reorder_framed [OF assms] rx_discard_framed [OF assms] rx_quic_framed [OF assms] by blast+
next
  assume bad: "\<not> payload_framed c (rx_codec s) data \<and> rx_ring s = Some rb \<and>
    length (rb_contents rb) + length data div 2 \<le> rb_cap rb"
  note M = unframed_packet [OF assms, of data rb L] bad
  show "\<not> rx_framed c (rx_discard L (rx_expected s) data s)" "\<not> rx_framed c (rx_quic L (rx_expected s) data s)"
    using M by blast+
  show "\<not> rx_framed c (rx_reorder L (rx_expected s) data s)" if "rx_sorting s (rx_expected s + 1) = None"
    using M that by blast
qed

theorem receivers_keep_frames_witness:
  "rx_framed 2 (rx_reorder demo_opus 0 [1,0,2,0] demo_rx) \<and> \<not> rx_framed 2 (rx_reorder demo_opus 0 [1,0] demo_rx)"
proof -
  have cap: "rb_cap (ring_new 8) = 8" by code_simp
  moreover have "rb_inv (ring_new 8)" and empty: "rb_contents (ring_new 8) = []"
    by (rule ring_new_spec; simp)+
  ultimately have "ring_framed 2 (Some (ring_new 8))" by (simp add: ring_framed_def del: length_rb_contents)
  then have framed: "rx_framed 2 demo_rx" by (simp add: rx_framed_def)
  have "payload_framed 2 AUDIO_CODEC_PCM [1,0,2,0]" "\<not> payload_framed 2 AUDIO_CODEC_PCM [1,0]"
    by (simp_all add: payload_framed_def)
  then show ?thesis
    using receivers_keep_frames [OF framed, of "[1,0,2,0]" demo_opus 0 "ring_new 8"]
      receivers_keep_frames [OF framed, of "[1,0]" demo_opus 0 "ring_new 8"]
    by (simp add: cap empty del: length_rb_contents)
qed

text \<open>
  C26: Loss concealment over QUIC: a packet that leaves a gap of \<open>g\<close> numbers is treated
  exactly as \<open>g\<close> calls of the decoder's concealment (for Opus and \<open>g \<le> 3\<close>; none otherwise)
  followed by the packet itself arriving in order, and an in-order packet is decoded,
  written if it decodes, and counted.
\<close>

theorem quic_conceals_gaps:
  assumes "in_window (rx_expected s) q"
  shows "rx_quic L q data s = rx_quic L q data
      ((if 0 < ahead (rx_expected s) q \<and> ahead (rx_expected s) q \<le> 3 \<and> rx_codec s = AUDIO_CODEC_OPUS
        then plc_loop L (ahead (rx_expected s) q) s else s)\<lparr>rx_expected := q\<rparr>) \<and>
    rx_ring (rx_quic L (rx_expected s) data s) =
      (case decode_result L data s of None \<Rightarrow> rx_ring s | Some p \<Rightarrow> ring_write p (rx_ring s)) \<and>
    rx_expected (rx_quic L (rx_expected s) data s) = rx_expected s + 1"
proof (intro conjI)
  obtain ok s' where d: "decodeAudioPayload L data s = (ok, s')" by fastforce
  have "isNewer (rx_expected s - 1) (rx_expected s)" by (simp add: isNewer_expected in_window_def)
  then show "rx_ring (rx_quic L (rx_expected s) data s) =
      (case decode_result L data s of None \<Rightarrow> rx_ring s | Some p \<Rightarrow> ring_write p (rx_ring s))"
    and "rx_expected (rx_quic L (rx_expected s) data s) = rx_expected s + 1"
    using decode_frame [OF d] by (simp_all add: rx_quic_def Let_def decode_result_def d)
qed (rule rx_quic_split [OF assms])

theorem quic_conceals_gaps_witness:
  "rx_quic demo_opus 2 [9] (demo_rx\<lparr>rx_codec := AUDIO_CODEC_OPUS\<rparr>) =
    rx_quic demo_opus 2 [9] ((plc_loop demo_opus 2 (demo_rx\<lparr>rx_codec := AUDIO_CODEC_OPUS\<rparr>))\<lparr>rx_expected := 2\<rparr>)"
  using quic_conceals_gaps [of "demo_rx\<lparr>rx_codec := AUDIO_CODEC_OPUS\<rparr>" 2 demo_opus "[9]"]
  by (simp add: in_window_def ahead_def)

text \<open>
  C33: Redundant sending makes the reordering receiver give up packets it could still get:
  if packet 6 arrives first and is sent three times, the receiver moves its expected number
  on by one for each copy, although nothing was played and the copies are duplicates; the
  packets 0, 1 and 2 are then dropped when they arrive.
\<close>

theorem reorder_triple_send_gives_up:
  assumes "rx_fresh s" and "rx_codec s = AUDIO_CODEC_PCM"
    and "s3 = rx_reorder L 6 data (rx_reorder L 6 data (rx_reorder L 6 data s))"
  shows "rx_expected s3 = 3 \<and> rx_ring s3 = rx_ring s \<and>
    rx_reorder L 0 d0 s3 = s3 \<and> rx_reorder L 1 d1 s3 = s3 \<and> rx_reorder L 2 d2 s3 = s3"
proof -
  have e: "rx_expected s = 0" and empty: "rx_sorting s = (\<lambda>_. None)"
    using assms(1) by (simp_all add: rx_fresh_def)
  let ?s1 = "s\<lparr>rx_expected := 1, rx_pcm := pcm_of_bytes data, rx_sorting := [6 \<mapsto> pcm_of_bytes data]\<rparr>"
  have "isNewer (- 1) 6" by code_simp
  then have "rx_reorder L 6 data s = release ?s1"
    by (simp add: rx_reorder_def e empty Let_def decode_pcm assms(2))
  also have "\<dots> = ?s1" by (rule release_idle) simp
  finally have one: "rx_reorder L 6 data s = ?s1" .
  have two: "rx_reorder L 6 data ?s1 = ?s1\<lparr>rx_expected := 2\<rparr>"
    using rx_reorder_gives_up [of ?s1 6 "pcm_of_bytes data" L data] by (simp add: in_window_def ahead_def)
  have three: "rx_reorder L 6 data (?s1\<lparr>rx_expected := 2\<rparr>) = ?s1\<lparr>rx_expected := 3\<rparr>"
    using rx_reorder_gives_up [of "?s1\<lparr>rx_expected := 2\<rparr>" 6 "pcm_of_bytes data" L data]
    by (simp add: in_window_def ahead_def)
  have s3: "s3 = ?s1\<lparr>rx_expected := 3\<rparr>" by (simp only: assms(3) one two three)
  have "\<not> in_window 3 0" and "\<not> in_window 3 1" and "\<not> in_window 3 2" by code_simp+
  then have "rx_reorder L q d s3 = s3" if "q \<in> {0, 1, 2}" for q d
    using that by (intro rx_reorder_rejects) (auto simp: s3)
  then show ?thesis by (simp add: s3)
qed

theorem reorder_triple_send_gives_up_witness:
  "rx_expected (rx_reorder demo_opus 6 [1,0] (rx_reorder demo_opus 6 [1,0] (rx_reorder demo_opus 6 [1,0] demo_rx))) = 3"
  using reorder_triple_send_gives_up [OF demo_rx_simps(5,1) refl, of demo_opus "[1,0]"] by blast

end
