(* ===== verification/Tcp_Control.thy ===== *)
theory Tcp_Control
  imports Protocol
begin

text \<open>
  The control side of \<open>main.cpp\<close>: the globals the threads share, \<open>recvAll\<close>, the handshake,
  the heartbeat reply and the loop of \<open>tcpHandler\<close>. The socket interface and the clock belong
  to the operating system and are the fields of \<open>os\<close>, over an arbitrary type of worlds: a
  \<open>recv\<close> returns the bytes it delivered, none of them for an orderly shutdown, and \<open>None\<close> for
  an error. What the code does to sockets is recorded in \<open>g_log\<close>.

  \<open>tcp_step\<close> is one turn of the handler between two calls that block or that other threads
  can observe; \<open>tcp_pc\<close> says where it is. \<open>Server\<close> interleaves these turns with the main loop.
\<close>

type_synonym socket = u64

definition INVALID_SOCKET :: socket where "INVALID_SOCKET = - 1"

datatype net_event =
    Sent socket "u8 list"
  | Shut socket
  | Closed socket

record globals =
  g_running :: bool
  g_udpSocket :: socket
  g_tcpSocket :: socket
  g_tcpClient :: socket
  g_configReady :: bool
  g_sampleRate :: u32
  g_channels :: u8
  g_codec :: u8
  g_frameMs :: u8
  g_opusBitrateKbps :: u8
  g_seqTimestamps :: "u8 \<Rightarrow> u64"
  g_hbLastEndSeq :: u8
  g_expectedSeq :: u8
  g_log :: "net_event list"        \<comment> \<open>newest first\<close>

record 'w os =
  os_recv :: "socket \<Rightarrow> nat \<Rightarrow> 'w \<Rightarrow> u8 list option \<times> 'w"
  os_accept :: "'w \<Rightarrow> socket \<times> 'w"
  os_now :: "'w \<Rightarrow> u64"             \<comment> \<open>milliseconds of the system clock\<close>

definition net :: "net_event \<Rightarrow> globals \<Rightarrow> globals" where
  "net ev g = g\<lparr>g_log := ev # g_log g\<rparr>"

section \<open>Closing and configuring\<close>

definition closeTcpClient :: "globals \<Rightarrow> globals" where
  "closeTcpClient g =
     (let s = g_tcpClient g in
      if s \<noteq> INVALID_SOCKET
      then (net (Closed s) (net (Shut s) g))\<lparr>g_tcpClient := INVALID_SOCKET\<rparr>
      else g)"

definition clearActiveConfig :: "globals \<Rightarrow> globals" where
  "clearActiveConfig g = g\<lparr>g_configReady := False\<rparr>"

definition signalHandler :: "globals \<Rightarrow> globals" where
  "signalHandler g0 =
     (let g1 = g0\<lparr>g_running := False\<rparr>;
          u = g_udpSocket g1;
          g2 = (if u \<noteq> INVALID_SOCKET
                then (net (Closed u) (net (Shut u) g1))\<lparr>g_udpSocket := INVALID_SOCKET\<rparr> else g1);
          t = g_tcpSocket g2
      in if t \<noteq> INVALID_SOCKET
         then (net (Closed t) (net (Shut t) g2))\<lparr>g_tcpSocket := INVALID_SOCKET\<rparr> else g2)"

section \<open>\<open>recvAll\<close>\<close>

function recvAll :: "'w os \<Rightarrow> socket \<Rightarrow> u8 list \<Rightarrow> nat \<Rightarrow> 'w \<Rightarrow> bool \<times> u8 list \<times> 'w" where
  "recvAll os s buffer len w =
     (if length buffer < len then
        case os_recv os s (len - length buffer) w of
          (None, w') \<Rightarrow> (False, buffer, w')
        | (Some bs, w') \<Rightarrow> if bs = [] then (False, buffer, w') else recvAll os s (buffer @ bs) len w'
      else (True, buffer, w))"
  by pat_completeness auto
termination
  by (relation "measure (\<lambda>(os, s, buffer, len, w). len - length buffer)") (auto simp: neq_Nil_conv)

declare recvAll.simps [simp del]

text \<open>
  The documented behaviour of \<open>recv\<close> on a stream socket, relative to the bytes \<open>pending w\<close>
  that are still to come: a call delivers a non-empty prefix of them of at most the requested
  length, however the network cut them up, and it reports the end only when there are none.
\<close>

definition stream_os :: "'w os \<Rightarrow> socket \<Rightarrow> ('w \<Rightarrow> u8 list) \<Rightarrow> bool" where
  "stream_os os s pending \<longleftrightarrow>
     (\<forall>n w r w'. 0 < n \<longrightarrow> os_recv os s n w = (r, w') \<longrightarrow>
        (case r of
           None \<Rightarrow> pending w = []
         | Some bs \<Rightarrow> length bs \<le> n \<and> pending w = bs @ pending w' \<and> (bs = [] \<longrightarrow> pending w = [])))"

lemma stream_osD:
  assumes "stream_os os s pending" and "0 < n" and "os_recv os s n w = (r, w')"
  shows "r = None \<Longrightarrow> pending w = []"
    and "r = Some bs \<Longrightarrow> length bs \<le> n"
    and "r = Some bs \<Longrightarrow> pending w = bs @ pending w'"
    and "r = Some [] \<Longrightarrow> pending w = []"
proof -
  have E: "case r of None \<Rightarrow> pending w = []
    | Some bs \<Rightarrow> length bs \<le> n \<and> pending w = bs @ pending w' \<and> (bs = [] \<longrightarrow> pending w = [])"
    using assms unfolding stream_os_def by blast
  show "r = None \<Longrightarrow> pending w = []" and "r = Some bs \<Longrightarrow> length bs \<le> n"
    and "r = Some bs \<Longrightarrow> pending w = bs @ pending w'" and "r = Some [] \<Longrightarrow> pending w = []"
    using E by auto
qed

lemma recvAll_stream:
  assumes "stream_os os s pending" and "length buffer \<le> len"
    and "recvAll os s buffer len w = (ok, got, w')"
  shows "(ok \<longleftrightarrow> len \<le> length (buffer @ pending w)) \<and>
    (ok \<longrightarrow> got @ pending w' = buffer @ pending w \<and> length got = len)"
  using assms
proof (induction os s buffer len w rule: recvAll.induct)
  case (1 os s buffer len w)
  show ?case
  proof (cases "length buffer < len")
    case False
    then show ?thesis using 1(3,4) by (simp add: recvAll.simps [of os s buffer])
  next
    case True
    obtain r w1 where r: "os_recv os s (len - length buffer) w = (r, w1)" by fastforce
    have "0 < len - length buffer" using True by simp
    note D = stream_osD [OF 1(2) this r]
    show ?thesis
    proof (cases "r = None \<or> r = Some []")
      case True
      then have "pending w = []" and "ok = False"
        using D(1,4) 1(4) r \<open>length buffer < len\<close>
        by (auto simp: recvAll.simps [of os s buffer])
      then show ?thesis using \<open>length buffer < len\<close> by simp
    next
      case False
      then obtain bs where bs: "r = Some bs" "bs \<noteq> []" by auto
      have step: "recvAll os s (buffer @ bs) len w1 = (ok, got, w')"
        using 1(4) True r bs by (simp add: recvAll.simps [of os s buffer])
      have "length (buffer @ bs) \<le> len" using D(2) [OF bs(1)] True by simp
      then show ?thesis
        using 1(1) [OF True r [symmetric] bs(1) bs(2) 1(2) _ step] D(3) [OF bs(1)] by simp
    qed
  qed
qed

section \<open>The handshake\<close>

text \<open>The checks of the handler, each one clearing \<open>supported\<close>.\<close>

definition config_supported :: "tcp_config_packet \<Rightarrow> bool" where
  "config_supported config =
     (let sampleRate = getSampleRate (cfg_sampleRateIdx config);
          supported = True;
          supported = (if cfg_version config \<noteq> PROTOCOL_VERSION then False else supported);
          supported = (if sampleRate = 0 then False else supported);
          supported = (if cfg_channels config \<noteq> 1 \<and> cfg_channels config \<noteq> 2 then False else supported);
          supported = (if cfg_codec config \<noteq> AUDIO_CODEC_PCM \<and> cfg_codec config \<noteq> AUDIO_CODEC_OPUS
                       then False else supported);
          supported = (if cfg_codec config = AUDIO_CODEC_OPUS \<and> cfg_frameMs config \<noteq> 10 \<and>
                          cfg_frameMs config \<noteq> 20 \<and> cfg_frameMs config \<noteq> 40
                       then False else supported)
      in supported)"

definition store_config :: "tcp_config_packet \<Rightarrow> globals \<Rightarrow> globals" where
  "store_config config g = g\<lparr>
     g_sampleRate := getSampleRate (cfg_sampleRateIdx config), g_channels := cfg_channels config,
     g_codec := cfg_codec config, g_frameMs := cfg_frameMs config,
     g_opusBitrateKbps := cfg_opusBitrateKbps config, g_configReady := True\<rparr>"

lemma config_supported_iff:
  "config_supported c \<longleftrightarrow> cfg_version c = 1 \<and> cfg_sampleRateIdx c \<in> {0, 1} \<and>
     cfg_channels c \<in> {1, 2} \<and> cfg_codec c \<in> {0, 1} \<and>
     (cfg_codec c = 1 \<longrightarrow> cfg_frameMs c \<in> {10, 20, 40})"
  by (auto simp: config_supported_def Let_def protocol_consts getSampleRate_def)

section \<open>The heartbeat reply\<close>

definition sizeof_HeartbeatRequest :: nat where "sizeof_HeartbeatRequest = 9"

text \<open>\<open>response[offset++] = b\<close>, and the loop that stores eight bytes, highest first.\<close>

definition put_byte :: "u8 \<Rightarrow> u8 list \<times> nat \<Rightarrow> u8 list \<times> nat" where
  "put_byte b = (\<lambda>(response, offset). (response[offset := b], offset + 1))"

definition put_u64 :: "u64 \<Rightarrow> u8 list \<times> nat \<Rightarrow> u8 list \<times> nat" where
  "put_u64 ts buf = fold (\<lambda>i. put_byte (ucast (drop_bit ((7 - i) * 8) ts))) [0..<8] buf"

text \<open>The loop over the sequence numbers; \<open>++cur\<close> wraps, and reaches \<open>endSeq\<close> in at most 255 turns.\<close>

function hb_loop :: "(u8 \<Rightarrow> u64) \<Rightarrow> u8 \<Rightarrow> u8 \<Rightarrow> u8 list \<times> nat \<Rightarrow> u8 list \<times> nat" where
  "hb_loop ts endSeq cur buf =
     (if cur \<noteq> endSeq then hb_loop ts endSeq (cur + 1) (put_u64 (ts cur) (put_byte cur buf)) else buf)"
  by pat_completeness auto

lemma ahead_Suc_left: "cur \<noteq> e \<Longrightarrow> ahead cur e = Suc (ahead (cur + 1) e)"
  using ahead_Suc_base [of cur e] ahead_eq_0 [of cur e] by (cases "ahead cur e") simp_all

termination hb_loop
  by (relation "measure (\<lambda>(ts, e, cur, buf). ahead cur e)") (auto simp: ahead_Suc_left)

declare hb_loop.simps [simp del]

text \<open>
  The reply to a heartbeat. \<open>stack\<close> is what the uninitialised array \<open>response\<close> contains;
  the result is the \<open>offset\<close> bytes sent, and the new \<open>g_hbLastEndSeq\<close>.
\<close>

definition sizeof_response :: nat where "sizeof_response = 2 + 256 * 9 + 8"

definition hb_reply :: "u8 list \<Rightarrow> u64 \<Rightarrow> globals \<Rightarrow> u8 list \<times> globals" where
  "hb_reply stack sTs g =
     (let endSeq = g_expectedSeq g;
          startSeq = g_hbLastEndSeq g;
          (response, offset) = put_u64 sTs (hb_loop (g_seqTimestamps g) endSeq startSeq (stack, 2));
          response = response[0 := ucast (drop_bit 8 (of_nat offset :: u32))];
          response = response[1 := ucast (of_nat offset :: u32)]
      in (take offset response, g\<lparr>g_hbLastEndSeq := endSeq\<rparr>))"

section \<open>The handler\<close>

datatype tcp_pc =
    T_Accept                  \<comment> \<open>at \<open>accept\<close>\<close>
  | T_Config socket           \<comment> \<open>reading the configuration packet\<close>
  | T_Heartbeat socket        \<comment> \<open>at the \<open>recv\<close> of the heartbeat loop\<close>
  | T_Clear socket            \<comment> \<open>about to clear \<open>g_configReady\<close>\<close>
  | T_CloseUdp socket         \<comment> \<open>about to close the UDP socket\<close>
  | T_CloseClient socket      \<comment> \<open>about to close the client\<close>
  | T_Done                    \<comment> \<open>returned\<close>

definition tcp_accept :: "socket \<Rightarrow> globals \<Rightarrow> tcp_pc \<times> globals" where
  "tcp_accept client g =
     (if client = INVALID_SOCKET then (T_Accept, g)
      else (T_Config client, g\<lparr>g_tcpClient := client\<rparr>))"

definition tcp_config :: "socket \<Rightarrow> bool \<Rightarrow> u8 list \<Rightarrow> globals \<Rightarrow> tcp_pc \<times> globals" where
  "tcp_config client configOk bytes g =
     (if \<not> configOk then (T_Clear client, g)
      else let config = config_of_bytes bytes in
        if \<not> config_supported config
        then (T_Accept, (net (Closed client) (net (Shut client) g))\<lparr>g_tcpClient := INVALID_SOCKET\<rparr>)
        else (T_Heartbeat client, net (Sent client [0]) (store_config config g)))"

definition tcp_heartbeat ::
    "socket \<Rightarrow> u8 list option \<Rightarrow> u8 list \<Rightarrow> u64 \<Rightarrow> globals \<Rightarrow> tcp_pc \<times> globals" where
  "tcp_heartbeat client hbBuf stack now g =
     (case hbBuf of
        None \<Rightarrow> (T_Clear client, g)
      | Some bs \<Rightarrow>
          if bs = [] then (T_Clear client, g)
          else if sizeof_HeartbeatRequest \<le> length bs
          then let (response, g1) = hb_reply stack now g
               in (T_Heartbeat client, net (Sent client response) g1)
          else (T_Heartbeat client, g))"

definition tcp_close_udp :: "globals \<Rightarrow> globals" where
  "tcp_close_udp g =
     (let u = g_udpSocket g in
      if u \<noteq> INVALID_SOCKET
      then (net (Closed u) (net (Shut u) g))\<lparr>g_udpSocket := INVALID_SOCKET\<rparr> else g)"

definition tcp_close_client :: "socket \<Rightarrow> globals \<Rightarrow> globals" where
  "tcp_close_client client g = (net (Closed client) g)\<lparr>g_tcpClient := INVALID_SOCKET\<rparr>"

fun tcp_step :: "'w os \<Rightarrow> u8 list \<Rightarrow> tcp_pc \<times> globals \<times> 'w \<Rightarrow> tcp_pc \<times> globals \<times> 'w" where
  "tcp_step os stack (T_Accept, g, w) =
     (if \<not> g_running g then (T_Done, g, w)
      else let (client, w1) = os_accept os w; (pc, g1) = tcp_accept client g in (pc, g1, w1))"
| "tcp_step os stack (T_Config client, g, w) =
     (let (configOk, bytes, w1) = recvAll os client [] sizeof_TcpConfigPacket w;
          (pc, g1) = tcp_config client configOk bytes g
      in (pc, g1, w1))"
| "tcp_step os stack (T_Heartbeat client, g, w) =
     (if \<not> g_running g then (T_Clear client, g, w)
      else let (hbBuf, w1) = os_recv os client 128 w;
               (pc, g1) = tcp_heartbeat client hbBuf stack (os_now os w1) g
           in (pc, g1, w1))"
| "tcp_step os stack (T_Clear client, g, w) = (T_CloseUdp client, clearActiveConfig g, w)"
| "tcp_step os stack (T_CloseUdp client, g, w) = (T_CloseClient client, tcp_close_udp g, w)"
| "tcp_step os stack (T_CloseClient client, g, w) = (T_Accept, tcp_close_client client g, w)"
| "tcp_step os stack (T_Done, g, w) = (T_Done, g, w)"

section \<open>What the reply contains\<close>

definition hb_numbers :: "u8 \<Rightarrow> nat \<Rightarrow> u8 list" where
  "hb_numbers start n = map (\<lambda>k. start + of_nat k) [0..<n]"

definition hb_entry :: "(u8 \<Rightarrow> u64) \<Rightarrow> u8 \<Rightarrow> u8 list" where
  "hb_entry ts q = q # be_bytes 8 (ts q)"

definition hb_entries :: "(u8 \<Rightarrow> u64) \<Rightarrow> u8 list \<Rightarrow> u8 list" where
  "hb_entries ts qs = concat (map (hb_entry ts) qs)"

lemma hb_numbers_simps [simp]:
  "hb_numbers start 0 = []" "hb_numbers start (Suc n) = start # hb_numbers (start + 1) n"
  "length (hb_numbers start n) = n"
proof -
  have "map (\<lambda>k. start + of_nat k) [0..<Suc n] = start # map (\<lambda>k. start + of_nat (Suc k)) [0..<n]"
    unfolding map_Suc_upt [symmetric] upt_conv_Cons [OF zero_less_Suc] by (simp add: comp_def)
  then show "hb_numbers start (Suc n) = start # hb_numbers (start + 1) n"
    by (simp add: hb_numbers_def add.assoc)
qed (simp_all add: hb_numbers_def)

lemma hb_entries_simps [simp]:
  "hb_entries ts [] = []" "hb_entries ts (q # qs) = q # be_bytes 8 (ts q) @ hb_entries ts qs"
  by (simp_all add: hb_entries_def hb_entry_def)

lemma length_hb_entries [simp]: "length (hb_entries ts qs) = 9 * length qs"
  by (induction qs) simp_all

text \<open>The buffer as what has been written, followed by what is still there.\<close>

lemma put_byte_append:
  "rest \<noteq> [] \<Longrightarrow> put_byte b (pre @ rest, length pre) = ((pre @ [b]) @ tl rest, length (pre @ [b]))"
  by (cases rest) (simp_all add: put_byte_def)

lemma fold_put_byte:
  "length bs \<le> length rest \<Longrightarrow>
    fold put_byte bs (pre @ rest, length pre) = ((pre @ bs) @ drop (length bs) rest, length (pre @ bs))"
proof (induction bs arbitrary: pre rest)
  case Nil
  then show ?case by simp
next
  case (Cons b bs)
  then have "rest \<noteq> []" by auto
  note put = put_byte_append [OF this, of b pre]
  have "fold put_byte (b # bs) (pre @ rest, length pre) =
      fold put_byte bs ((pre @ [b]) @ tl rest, length (pre @ [b]))"
    by (simp only: fold_Cons comp_apply put)
  also have "\<dots> = (((pre @ [b]) @ bs) @ drop (length bs) (tl rest), length ((pre @ [b]) @ bs))"
    using Cons.prems by (intro Cons.IH) simp
  finally show ?case by (simp add: drop_Suc)
qed

lemma put_u64_bytes: "put_u64 ts = fold put_byte (be_bytes 8 ts)"
proof -
  have "be_bytes 8 ts = map (\<lambda>i. ucast (drop_bit ((7 - i) * 8) ts)) [0..<8]"
    by (simp add: eval_nat_numeral)
  then show ?thesis by (simp add: put_u64_def fold_map comp_def fun_eq_iff)
qed

lemma hb_loop_bytes:
  assumes "9 * ahead cur e \<le> length rest"
  shows "hb_loop ts e cur (pre @ rest, length pre) =
    fold put_byte (hb_entries ts (hb_numbers cur (ahead cur e))) (pre @ rest, length pre)"
  using assms
proof (induction "ahead cur e" arbitrary: cur pre rest)
  case 0
  then have "cur = e" using ahead_eq_0 [of cur e] by simp
  then show ?case by (simp add: hb_loop.simps [of ts e e])
next
  case (Suc n)
  then have ne: "cur \<noteq> e" by auto
  have n: "n = ahead (cur + 1) e" using ahead_Suc_left [OF ne] Suc(2) by simp
  let ?bs = "cur # be_bytes 8 (ts cur)"
  have put: "fold put_byte ?bs (pre @ rest, length pre) = ((pre @ ?bs) @ drop 9 rest, length (pre @ ?bs))"
    using fold_put_byte [of ?bs rest pre] Suc(2,3) by simp
  have "hb_loop ts e cur (pre @ rest, length pre) =
      hb_loop ts e (cur + 1) (fold put_byte ?bs (pre @ rest, length pre))"
    using ne by (simp add: hb_loop.simps [of ts e cur] put_u64_bytes)
  also have "\<dots> = fold put_byte (hb_entries ts (hb_numbers (cur + 1) n)) (fold put_byte ?bs (pre @ rest, length pre))"
    unfolding put n using Suc(2,3) n by (intro Suc(1)) simp_all
  finally show ?case using Suc(2) by (simp flip: Suc(2))
qed

lemma be_bytes_2: "be_bytes 2 (w :: 'a::len word) = [ucast (drop_bit 8 w), ucast w]"
  by (simp add: eval_nat_numeral)

lemma take_exact: "length xs = n \<Longrightarrow> take n (xs @ ys) = xs"
  by simp

lemma hb_reply_bytes:
  assumes "length stack = sizeof_response"
  shows "hb_reply stack sTs g =
    (be_bytes 2 (of_nat (10 + 9 * ahead (g_hbLastEndSeq g) (g_expectedSeq g)) :: u32) @
       hb_entries (g_seqTimestamps g) (hb_numbers (g_hbLastEndSeq g) (ahead (g_hbLastEndSeq g) (g_expectedSeq g))) @
       be_bytes 8 sTs,
     g\<lparr>g_hbLastEndSeq := g_expectedSeq g\<rparr>)"
proof -
  let ?n = "ahead (g_hbLastEndSeq g) (g_expectedSeq g)"
  let ?es = "hb_entries (g_seqTimestamps g) (hb_numbers (g_hbLastEndSeq g) ?n)"
  let ?bs = "?es @ be_bytes 8 sTs"
  define pre rest where "pre = take 2 stack" and "rest = drop 2 stack"
  have split: "stack = pre @ rest" "length pre = 2" "length rest = 256 * 9 + 8"
    using assms by (simp_all add: pre_def rest_def sizeof_response_def)
  have n: "?n < 256" by simp
  have "hb_loop (g_seqTimestamps g) (g_expectedSeq g) (g_hbLastEndSeq g) (stack, 2) =
      fold put_byte ?es (pre @ rest, length pre)"
    using hb_loop_bytes [of "g_hbLastEndSeq g" "g_expectedSeq g" rest "g_seqTimestamps g" pre] split n by simp
  then have "put_u64 sTs (hb_loop (g_seqTimestamps g) (g_expectedSeq g) (g_hbLastEndSeq g) (stack, 2)) =
      fold put_byte ?bs (pre @ rest, length pre)"
    by (simp only: put_u64_bytes fold_append comp_apply)
  also have "\<dots> = ((pre @ ?bs) @ drop (length ?bs) rest, length (pre @ ?bs))"
    using split less_imp_le [OF n] by (intro fold_put_byte) simp
  finally have buf: "put_u64 sTs (hb_loop (g_seqTimestamps g) (g_expectedSeq g) (g_hbLastEndSeq g) (stack, 2)) =
      ((pre @ ?bs) @ drop (length ?bs) rest, 10 + 9 * ?n)"
    using split by simp
  obtain a b where pre: "pre = [a, b]" using split(2) by (auto simp: length_Suc_conv eval_nat_numeral)
  have tk: "take (10 + 9 * ?n) (c # d # ?bs @ more) = c # d # ?bs" for c d more
    using take_exact [of "c # d # ?bs" "10 + 9 * ?n" more] by simp
  show ?thesis
    using tk by (simp add: hb_reply_def Let_def buf pre be_bytes_2)
qed

section \<open>The client's side\<close>

text \<open>How a client reads a reply, from the protocol document: total length, entries, time stamp.\<close>

fun parse_entries :: "u8 list \<Rightarrow> (u8 \<times> u64) list" where
  "parse_entries [] = []"
| "parse_entries (q # bs) = (q, be_word (take 8 bs)) # parse_entries (drop 8 bs)"

definition hb_parse :: "u8 list \<Rightarrow> ((u8 \<times> u64) list \<times> u64) option" where
  "hb_parse bs =
     (if length bs < 10 \<or> unat (be_word (take 2 bs) :: u16) \<noteq> length bs then None
      else Some (parse_entries (take (length bs - 10) (drop 2 bs)), be_word (drop (length bs - 8) bs)))"

lemma parse_hb_entries: "parse_entries (hb_entries ts qs) = map (\<lambda>q. (q, ts q)) qs"
  by (induction qs) simp_all

lemma bit_of_nat_word: "bit (of_nat m :: 'a::len word) n \<longleftrightarrow> n < LENGTH('a) \<and> bit m n"
  by (simp add: bit_simps)

lemma be_bytes_2_narrow: "be_bytes 2 (of_nat m :: u32) = be_bytes 2 (of_nat m :: u16)"
  unfolding be_bytes_2 list.inject
  by (intro conjI bit_word_eqI) (auto simp: bit_simps bit_of_nat_word)

lemma reply_header:
  assumes "n < 256"
  shows "unat (be_word (be_bytes 2 (of_nat (10 + 9 * n) :: u32)) :: u16) = 10 + 9 * n"
proof -
  have "be_word (be_bytes 2 (of_nat (10 + 9 * n) :: u32)) = (of_nat (10 + 9 * n) :: u16)"
    unfolding be_bytes_2_narrow by (rule be_word_be_bytes) simp
  then show ?thesis using assms by (simp add: unat_of_nat del: of_nat_add of_nat_mult)
qed

lemma hb_parse_reply:
  assumes "length stack = sizeof_response"
  shows "hb_parse (fst (hb_reply stack sTs g)) =
    Some (map (\<lambda>q. (q, g_seqTimestamps g q))
        (hb_numbers (g_hbLastEndSeq g) (ahead (g_hbLastEndSeq g) (g_expectedSeq g))), sTs)"
proof -
  let ?n = "ahead (g_hbLastEndSeq g) (g_expectedSeq g)"
  let ?es = "hb_entries (g_seqTimestamps g) (hb_numbers (g_hbLastEndSeq g) ?n)"
  define h where "h = be_bytes 2 (of_nat (10 + 9 * ?n) :: u32)"
  have len: "length h = 2" and head: "unat (be_word h :: u16) = 10 + 9 * ?n"
    using reply_header [of ?n] by (simp_all add: h_def)
  have parse: "hb_parse (h @ ?es @ be_bytes 8 sTs) = Some (parse_entries ?es, sTs)"
    using len head by (simp add: hb_parse_def)
  show ?thesis
    using parse by (simp only: hb_reply_bytes [OF assms] h_def fst_conv parse_hb_entries)
qed

text \<open>
  A series of heartbeats: before each the main loop has moved \<open>expectedSeq\<close> on to the low bits
  of \<open>n\<close>; the numbers the client reads out of the replies.
\<close>

fun hb_session :: "u8 list \<Rightarrow> (nat \<times> (u8 \<Rightarrow> u64) \<times> u64) list \<Rightarrow> globals \<Rightarrow> u8 list" where
  "hb_session stack [] g = []"
| "hb_session stack ((n, ts, now) # hs) g =
     (let (bs, g') = hb_reply stack now (g\<lparr>g_expectedSeq := of_nat n, g_seqTimestamps := ts\<rparr>)
      in (case hb_parse bs of None \<Rightarrow> [] | Some (es, t) \<Rightarrow> map fst es) @ hb_session stack hs g')"

fun hb_advances :: "nat \<Rightarrow> (nat \<times> (u8 \<Rightarrow> u64) \<times> u64) list \<Rightarrow> nat \<Rightarrow> bool" where
  "hb_advances n [] n' = (n = n')"
| "hb_advances n ((m, ts, now) # hs) n' = (n \<le> m \<and> m < n + 256 \<and> hb_advances m hs n')"

lemma hb_advances_le: "hb_advances n hs n' \<Longrightarrow> n \<le> n'"
  by (induction n hs n' rule: hb_advances.induct) auto

lemma ahead_of_nats:
  assumes "n \<le> m" and "m < n + 256"
  shows "ahead (of_nat n) (of_nat m) = m - n"
proof -
  have "of_nat m = of_nat n + (of_nat (m - n) :: u8)" using assms by (simp add: of_nat_diff)
  then show ?thesis using assms ahead_add_of_nat [of "m - n" "of_nat n"] by simp
qed

lemma hb_numbers_of_nat: "hb_numbers (of_nat n) k = map of_nat [n..<n + k]"
proof -
  have "[n..<n + k] = map (\<lambda>i. i + n) [0..<k]" by (simp add: map_add_upt add.commute)
  then show ?thesis by (simp add: hb_numbers_def add.commute)
qed

lemma hb_session_numbers:
  assumes "length stack = sizeof_response" and "g_hbLastEndSeq g = of_nat n" and "hb_advances n hs n'"
  shows "hb_session stack hs g = map of_nat [n..<n']"
  using assms(2,3)
proof (induction hs arbitrary: g n)
  case Nil
  then show ?case by simp
next
  case (Cons h hs)
  obtain m ts now where h: "h = (m, ts, now)" by (cases h)
  have m: "n \<le> m" "m < n + 256" "hb_advances m hs n'" using Cons.prems(2) by (simp_all add: h)
  let ?g = "g\<lparr>g_expectedSeq := of_nat m, g_seqTimestamps := ts\<rparr>"
  obtain bs g' where r: "hb_reply stack now ?g = (bs, g')" by fastforce
  have g': "g_hbLastEndSeq g' = of_nat m"
    using r by (simp add: hb_reply_bytes [OF assms(1)] prod_eq_iff) auto
  have "hb_parse bs = Some (map (\<lambda>q. (q, ts q)) (hb_numbers (of_nat n) (m - n)), now)"
    using hb_parse_reply [OF assms(1), of now ?g] r m Cons.prems(1) by (simp add: ahead_of_nats)
  moreover have "[n..<n'] = [n..<m] @ [m..<n']"
    using m hb_advances_le [OF m(3)] by (metis le_Suc_ex upt_add_eq_append)
  ultimately show ?case
    using Cons.IH [OF g' m(3)] m by (simp add: h r hb_numbers_of_nat comp_def)
qed

section \<open>Properties\<close>

text \<open>A network that delivers one byte at a time, for the witnesses.\<close>

definition drip_os :: "u8 list os" where
  "drip_os = \<lparr>os_recv = (\<lambda>s n w. case w of [] \<Rightarrow> (Some [], []) | b # bs \<Rightarrow> (Some [b], bs)),
     os_accept = (\<lambda>w. (7, w)), os_now = (\<lambda>w. 1000)\<rparr>"

lemma drip_os_stream: "stream_os drip_os s (\<lambda>w. w)"
  by (auto simp: stream_os_def drip_os_def split: list.splits)

definition demo_globals :: globals where
  "demo_globals = \<lparr>g_running = True, g_udpSocket = 5, g_tcpSocket = 6, g_tcpClient = 7,
     g_configReady = False, g_sampleRate = 48000, g_channels = 2, g_codec = 0, g_frameMs = 20,
     g_opusBitrateKbps = 32, g_seqTimestamps = (\<lambda>q. 1000 + ucast q), g_hbLastEndSeq = 254,
     g_expectedSeq = 1, g_log = []\<rparr>"

text \<open>
  C13: The handshake. However the network cuts the client's bytes up, the handler reads
  exactly six of them. A supported configuration is stored, acknowledged with one zero byte,
  and the handler goes on to the heartbeats; an unsupported one closes the client, stores
  nothing and goes back to accepting; a connection that ends before six bytes is torn down.
\<close>

theorem tcp_handshake:
  assumes "stream_os os client pending" and "tcp_step os stack (T_Config client, g, w) = (pc, g', w')"
  shows "(length (pending w) < 6 \<longrightarrow> pc = T_Clear client \<and> g' = g) \<and>
    (6 \<le> length (pending w) \<longrightarrow>
      pending w' = drop 6 (pending w) \<and>
      (let config = config_of_bytes (take 6 (pending w)) in
       if config_supported config
       then pc = T_Heartbeat client \<and> g' = net (Sent client [0]) (store_config config g)
       else pc = T_Accept \<and>
         g' = (net (Closed client) (net (Shut client) g))\<lparr>g_tcpClient := INVALID_SOCKET\<rparr>))"
proof -
  obtain ok got w1 where r: "recvAll os client [] 6 w = (ok, got, w1)" by (metis prod_cases3)
  have R: "ok \<longleftrightarrow> 6 \<le> length (pending w)" "ok \<Longrightarrow> got @ pending w1 = pending w \<and> length got = 6"
    using recvAll_stream [OF assms(1) _ r] by auto
  have step: "(pc, g') = tcp_config client ok got g" and w': "w' = w1"
    using assms(2) r by (auto simp: sizeof_TcpConfigPacket_def split: prod.splits)
  show ?thesis
  proof (cases ok)
    case False
    then show ?thesis using step R(1) by (simp add: tcp_config_def)
  next
    case True
    then have "take 6 (pending w) = got" and "drop 6 (pending w) = pending w1"
      using R(2) by (metis append_eq_conv_conj)+
    then show ?thesis
      using step R(1) True w' by (simp add: tcp_config_def Let_def split: if_splits)
  qed
qed

theorem tcp_handshake_witness:
  "\<exists>g'. tcp_step drip_os [0] (T_Config 7, demo_globals, [1, 1, 2, 0, 20, 32, 99]) = (T_Heartbeat 7, g', [99]) \<and>
    g_configReady g' \<and> g_log g' = [Sent 7 [0]]"
proof -
  obtain pc g' w' where s: "tcp_step drip_os [0] (T_Config 7, demo_globals, [1, 1, 2, 0, 20, 32, 99]) = (pc, g', w')"
    by (metis prod_cases3)
  have "config_supported (config_of_bytes [1, 1, 2, 0, 20, 32])" by code_simp
  then show ?thesis
    using tcp_handshake [OF drip_os_stream s] s
    by (simp add: net_def store_config_def demo_globals_def eval_nat_numeral Let_def)
qed

text \<open>
  The server accepts exactly the configurations the protocol documents: version 1, a
  known sample rate, one or two channels, a known codec, and for Opus a frame of 10, 20 or
  40 ms; the frame length of a PCM configuration is ignored. What it stores is then a real
  sample rate with the received channels, codec, frame length and bit rate.
\<close>

theorem handshake_accepts_documented_configs:
  "config_supported c \<longleftrightarrow> cfg_version c = 1 \<and> cfg_sampleRateIdx c \<in> {0, 1} \<and> cfg_channels c \<in> {1, 2} \<and>
     (cfg_codec c = AUDIO_CODEC_PCM \<or> cfg_codec c = AUDIO_CODEC_OPUS \<and> cfg_frameMs c \<in> {10, 20, 40})"
  unfolding config_supported_iff by (auto simp: protocol_consts)

text \<open>
  C15: The heartbeat reply is well formed and fits its buffer: whatever the array held
  before, the bytes sent are the big-endian total length, one nine-byte entry for each
  sequence number from the end of the previous reply up to the expected one (wrapping past
  255), and the server's time; at most 2305 bytes of the 2314 are used, and the next reply
  starts where this one ended.
\<close>

theorem heartbeat_reply_bytes:
  assumes "length stack = sizeof_response"
  shows "\<exists>n. n = ahead (g_hbLastEndSeq g) (g_expectedSeq g) \<and>
    hb_reply stack now g =
      (be_bytes 2 (of_nat (10 + 9 * n) :: u16) @
         hb_entries (g_seqTimestamps g) (hb_numbers (g_hbLastEndSeq g) n) @ be_bytes 8 now,
       g\<lparr>g_hbLastEndSeq := g_expectedSeq g\<rparr>) \<and>
    length (fst (hb_reply stack now g)) = 10 + 9 * n \<and> 10 + 9 * n \<le> 2305"
proof -
  have "ahead (g_hbLastEndSeq g) (g_expectedSeq g) \<le> 255"
    using ahead_less_256 [of "g_hbLastEndSeq g" "g_expectedSeq g"] by linarith
  then show ?thesis unfolding hb_reply_bytes [OF assms] be_bytes_2_narrow by simp
qed

theorem heartbeat_reply_bytes_witness:
  "fst (hb_reply (replicate 2314 0) 5 demo_globals) =
    [0, 37, 254, 0,0,0,0,0,0,4,230, 255, 0,0,0,0,0,0,4,231, 0, 0,0,0,0,0,0,3,232, 0,0,0,0,0,0,0,5]"
proof -
  have n: "ahead (g_hbLastEndSeq demo_globals) (g_expectedSeq demo_globals) = 3" by code_simp
  have "be_bytes 2 (of_nat (10 + 9 * 3) :: u16) @
      hb_entries (g_seqTimestamps demo_globals) (hb_numbers (g_hbLastEndSeq demo_globals) 3) @ be_bytes 8 (5 :: u64) =
    [0, 37, 254, 0,0,0,0,0,0,4,230, 255, 0,0,0,0,0,0,4,231, 0, 0,0,0,0,0,0,3,232, 0,0,0,0,0,0,0,5]"
    by code_simp
  then show ?thesis
    using heartbeat_reply_bytes [of "replicate 2314 0" demo_globals 5] n by (simp add: sizeof_response_def)
qed

text \<open>
  C14: A client that parses the reply as documented recovers exactly the recorded arrival
  times, in the order of the sequence numbers, and the server's time.
\<close>

theorem heartbeat_roundtrip:
  assumes "length stack = sizeof_response"
  shows "hb_parse (fst (hb_reply stack now g)) =
    Some (map (\<lambda>q. (q, g_seqTimestamps g q))
        (hb_numbers (g_hbLastEndSeq g) (ahead (g_hbLastEndSeq g) (g_expectedSeq g))), now)"
  using assms by (rule hb_parse_reply)

theorem heartbeat_roundtrip_witness:
  "hb_parse (fst (hb_reply (replicate 2314 0) 5 demo_globals)) = Some ([(254, 1254), (255, 1255), (0, 1000)], 5)"
proof -
  have "ahead (g_hbLastEndSeq demo_globals) (g_expectedSeq demo_globals) = 3" by code_simp
  moreover have "map (\<lambda>q. (q, g_seqTimestamps demo_globals q)) (hb_numbers (g_hbLastEndSeq demo_globals) 3)
      = [(254, 1254), (255, 1255), (0, 1000)]" by code_simp
  ultimately show ?thesis
    using heartbeat_roundtrip [of "replicate 2314 0" 5 demo_globals] by (simp add: sizeof_response_def)
qed

text \<open>
  C21: Over a series of heartbeats between any two of which fewer than 256 packets are counted
  (\<open>hb_advances\<close>; otherwise numbers are skipped), every sequence number is reported exactly once and in
  order, wrapping as often as needed: the numbers the client reads are the low eight bits of \<open>n, \<dots>, n' - 1\<close>.
\<close>

theorem heartbeats_report_each_number_once:
  assumes "length stack = sizeof_response" and "g_hbLastEndSeq g = of_nat n" and "hb_advances n hs n'"
  shows "hb_session stack hs g = map of_nat [n..<n']"
  using assms by (rule hb_session_numbers)

theorem heartbeats_report_each_number_once_witness:
  "hb_session (replicate 2314 0) [(256, \<lambda>_. 3, 1), (257, \<lambda>_. 4, 2)] demo_globals = [254, 255, 0]"
proof -
  have "hb_advances 254 [(256, \<lambda>_. 3, 1), (257, \<lambda>_. 4, 2)] 257" by simp
  then have "hb_session (replicate 2314 0) [(256, \<lambda>_. 3, 1), (257, \<lambda>_. 4, 2)] demo_globals = map of_nat [254..<257]"
    by (intro heartbeats_report_each_number_once) (simp_all add: sizeof_response_def demo_globals_def)
  also have "\<dots> = [254, 255, 0]" by code_simp
  finally show ?thesis .
qed

text \<open>
  C39: Heartbeats are not framed: a nine-byte request that TCP delivers in two pieces is
  never answered, although all of its bytes arrive, while any chunk of at least nine bytes
  gets exactly one reply, however many requests it contains.
\<close>

theorem heartbeat_request_framing:
  assumes "g_running g" and "os_recv os client 128 w = (Some a, w1)" and "a \<noteq> []"
  shows "(length a < 9 \<longrightarrow> tcp_step os stack (T_Heartbeat client, g, w) = (T_Heartbeat client, g, w1)) \<and>
    (9 \<le> length a \<longrightarrow> (\<exists>bs. tcp_step os stack (T_Heartbeat client, g, w) =
      (T_Heartbeat client, net (Sent client bs) (g\<lparr>g_hbLastEndSeq := g_expectedSeq g\<rparr>), w1)))"
  using assms
  by (auto simp: tcp_heartbeat_def sizeof_HeartbeatRequest_def hb_reply_def Let_def split: prod.splits)

theorem heartbeat_request_framing_witness:
  "tcp_step drip_os [0] (T_Heartbeat 7, demo_globals, [1,0,0,0,0,0,0,0,0]) =
    (T_Heartbeat 7, demo_globals, [0,0,0,0,0,0,0,0])"
  using heartbeat_request_framing [of demo_globals drip_os 7 "[1,0,0,0,0,0,0,0,0]" "[1]" "[0,0,0,0,0,0,0,0]" "[0]"]
  by (simp add: drip_os_def demo_globals_def)

end
