(* ===== verification/Quic_Receiver.thy ===== *)
theory Quic_Receiver
  imports Prelude
begin

text \<open>
  \<open>quic_audio_receiver.h/.cpp\<close>: the class that loads the QUIC bridge from a DLL and calls it
  through six function pointers. The DLL loader and the bridge's entry points are the fields
  of \<open>dll\<close>. Every call the class makes is recorded in \<open>q_log\<close>, and \<open>q_protocol\<close> says which
  sequences of calls are legal.
\<close>

record quic_event =
  ev_kind :: u32
  ev_sampleRate :: u32
  ev_bitrate :: u32
  ev_sentAtEpochMs :: u64
  ev_payloadLength :: u32
  ev_sequence :: u8
  ev_channels :: u8
  ev_codec :: u8
  ev_frameMs :: u8

definition QUIC_AUDIO_EVENT_CONFIG :: u32 where "QUIC_AUDIO_EVENT_CONFIG = 1"
definition QUIC_AUDIO_EVENT_PACKET :: u32 where "QUIC_AUDIO_EVENT_PACKET = 2"
definition QUIC_AUDIO_EVENT_DISCONNECTED :: u32 where "QUIC_AUDIO_EVENT_DISCONNECTED = 3"
definition QUIC_AUDIO_EVENT_ERROR :: u32 where "QUIC_AUDIO_EVENT_ERROR = 4"

lemmas quic_kinds = QUIC_AUDIO_EVENT_CONFIG_def QUIC_AUDIO_EVENT_PACKET_def
  QUIC_AUDIO_EVENT_DISCONNECTED_def QUIC_AUDIO_EVENT_ERROR_def

datatype quic_fn = StartFn | ReceiveFn | DisconnectFn | StopFn | DestroyFn | LastErrorFn

definition all_fns :: "quic_fn list" where
  "all_fns = [StartFn, ReceiveFn, DisconnectFn, StopFn, DestroyFn, LastErrorFn]"

text \<open>\<open>Called f h\<close> is a call through function pointer \<open>f\<close> with handle \<open>h\<close>.\<close>

datatype dll_call =
    Loaded nat
  | Freed nat
  | Started nat
  | StartFailed
  | Called quic_fn "nat option"

record quic_receiver =
  q_module :: "nat option"
  q_handle :: "nat option"
  q_fn :: "quic_fn \<Rightarrow> bool"        \<comment> \<open>the function pointer is not null\<close>
  q_log :: "dll_call list"         \<comment> \<open>newest first\<close>

record 'w dll =
  dll_path :: "u16 list"           \<comment> \<open>\<open>GetModuleFileNameW\<close>\<close>
  dll_load :: "u16 list \<Rightarrow> 'w \<Rightarrow> nat option \<times> 'w"
  dll_proc :: "nat \<Rightarrow> quic_fn \<Rightarrow> bool"
  dll_start :: "u16 \<Rightarrow> 'w \<Rightarrow> nat option \<times> 'w"
  dll_receive :: "nat \<Rightarrow> u32 \<Rightarrow> u32 \<Rightarrow> 'w \<Rightarrow> (int \<times> quic_event \<times> u8 list) \<times> 'w"
  dll_last_error :: "nat option \<Rightarrow> 'w \<Rightarrow> u8 list"

definition q_new :: quic_receiver where
  "q_new = \<lparr>q_module = None, q_handle = None, q_fn = (\<lambda>_. False), q_log = []\<rparr>"

definition q_call :: "dll_call \<Rightarrow> quic_receiver \<Rightarrow> quic_receiver" where
  "q_call c q = q\<lparr>q_log := c # q_log q\<rparr>"

section \<open>Finding the library\<close>

definition MAX_PATH :: nat where "MAX_PATH = 260"

definition dll_name :: "u16 list" where
  "dll_name = map of_char ''livesuite_audio_quic.dll''"

text \<open>
  The path beside the executable. \<open>wcscat_s\<close> into the \<open>MAX_PATH\<close> array ends the process if
  the result and its terminator do not fit: the outer \<open>None\<close>.
\<close>

definition library_path :: "u16 list \<Rightarrow> u16 list option option" where
  "library_path executablePath =
     (if 0 < length executablePath \<and> length executablePath < MAX_PATH \<and> 0x5C \<in> set executablePath
      then let p = rev (dropWhile (\<lambda>c. c \<noteq> 0x5C) (rev executablePath)) @ dll_name
           in if length p < MAX_PATH then Some (Some p) else None
      else Some None)"

section \<open>Operations\<close>

definition q_unload :: "quic_receiver \<Rightarrow> quic_receiver" where
  "q_unload q0 =
     (let q = q0\<lparr>q_fn := (\<lambda>_. False)\<rparr>
      in case q_module q of None \<Rightarrow> q | Some m \<Rightarrow> (q_call (Freed m) q)\<lparr>q_module := None\<rparr>)"

definition q_load :: "'w dll \<Rightarrow> quic_receiver \<times> 'w \<Rightarrow> (bool \<times> quic_receiver \<times> 'w) option" where
  "q_load D = (\<lambda>(q, w).
     case library_path (dll_path D) of
       None \<Rightarrow> None
     | Some path \<Rightarrow>
         let (m1, w1) = (case path of None \<Rightarrow> (q_module q, w) | Some p \<Rightarrow> dll_load D p w);
             (m, w2) = (case m1 of None \<Rightarrow> dll_load D dll_name w1 | Some i \<Rightarrow> (Some i, w1))
         in case m of
              None \<Rightarrow> Some (False, q\<lparr>q_module := None\<rparr>, w2)
            | Some i \<Rightarrow>
                let q1 = (q_call (Loaded i) q)\<lparr>q_module := Some i, q_fn := dll_proc D i\<rparr>
                in if list_all (q_fn q1) all_fns then Some (True, q1, w2)
                   else Some (False, q_unload q1, w2))"

definition q_stop :: "quic_receiver \<Rightarrow> quic_receiver" where
  "q_stop q =
     (let q2 = (case q_handle q of
                  None \<Rightarrow> q
                | Some h \<Rightarrow>
                    let q1 = (if q_fn q StopFn then q_call (Called StopFn (Some h)) q else q);
                        q1' = (if q_fn q1 DestroyFn then q_call (Called DestroyFn (Some h)) q1 else q1)
                    in q1'\<lparr>q_handle := None\<rparr>)
      in q_unload q2)"

definition q_start :: "'w dll \<Rightarrow> u16 \<Rightarrow> quic_receiver \<times> 'w \<Rightarrow> (bool \<times> quic_receiver \<times> 'w) option" where
  "q_start D port = (\<lambda>(q, w).
     case q_load D (q_stop q, w) of
       None \<Rightarrow> None
     | Some (False, q1, w1) \<Rightarrow> Some (False, q1, w1)
     | Some (True, q1, w1) \<Rightarrow>
         (case dll_start D port w1 of
            (None, w2) \<Rightarrow> Some (False, q_call StartFailed q1, w2)
          | (Some h, w2) \<Rightarrow> Some (True, (q_call (Started h) q1)\<lparr>q_handle := Some h\<rparr>, w2)))"

definition q_receive ::
    "'w dll \<Rightarrow> u32 \<Rightarrow> u32 \<Rightarrow> quic_event \<Rightarrow> quic_receiver \<times> 'w \<Rightarrow>
     (int \<times> quic_event \<times> u8 list) \<times> quic_receiver \<times> 'w" where
  "q_receive D capacity timeoutMs event = (\<lambda>(q, w).
     case q_handle q of
       None \<Rightarrow> ((-1, event, []), q, w)
     | Some h \<Rightarrow>
         if q_fn q ReceiveFn
         then let (r, w1) = dll_receive D h capacity timeoutMs w
              in (r, q_call (Called ReceiveFn (Some h)) q, w1)
         else ((-1, event, []), q, w))"

definition q_disconnectClient :: "quic_receiver \<Rightarrow> quic_receiver" where
  "q_disconnectClient q =
     (case q_handle q of
        None \<Rightarrow> q
      | Some h \<Rightarrow> if q_fn q DisconnectFn then q_call (Called DisconnectFn (Some h)) q else q)"

text \<open>\<open>None\<close> is the fixed message for a missing library; otherwise the bytes up to the first zero.\<close>

definition q_lastError :: "'w dll \<Rightarrow> quic_receiver \<times> 'w \<Rightarrow> u8 list option \<times> quic_receiver" where
  "q_lastError D = (\<lambda>(q, w).
     if q_fn q LastErrorFn
     then (Some (takeWhile (\<lambda>b. b \<noteq> 0) (take 2047 (dll_last_error D (q_handle q) w))),
           q_call (Called LastErrorFn (q_handle q)) q)
     else (None, q))"

section \<open>The legal sequences of calls\<close>

datatype q_state = Q_Unloaded | Q_Loaded nat | Q_Running nat nat | Q_Stopped nat nat

fun q_next :: "q_state \<Rightarrow> dll_call \<Rightarrow> q_state option" where
  "q_next Q_Unloaded (Loaded m) = Some (Q_Loaded m)"
| "q_next (Q_Loaded m) (Freed m') = (if m = m' then Some Q_Unloaded else None)"
| "q_next (Q_Loaded m) (Started h) = Some (Q_Running m h)"
| "q_next (Q_Loaded m) StartFailed = Some (Q_Loaded m)"
| "q_next (Q_Loaded m) (Called LastErrorFn None) = Some (Q_Loaded m)"
| "q_next (Q_Running m h) (Called f (Some h')) =
     (if h \<noteq> h' then None
      else if f = StopFn then Some (Q_Stopped m h)
      else if f \<in> {ReceiveFn, DisconnectFn, LastErrorFn} then Some (Q_Running m h) else None)"
| "q_next (Q_Stopped m h) (Called DestroyFn (Some h')) = (if h = h' then Some (Q_Loaded m) else None)"
| "q_next _ _ = None"

fun q_protocol :: "dll_call list \<Rightarrow> q_state option" where
  "q_protocol [] = Some Q_Unloaded"
| "q_protocol (c # cs) = (case q_protocol cs of None \<Rightarrow> None | Some st \<Rightarrow> q_next st c)"

definition q_inv :: "quic_receiver \<Rightarrow> bool" where
  "q_inv q \<longleftrightarrow>
     (case (q_module q, q_handle q) of
        (None, None) \<Rightarrow> q_protocol (q_log q) = Some Q_Unloaded \<and> q_fn q = (\<lambda>_. False)
      | (Some m, None) \<Rightarrow> q_protocol (q_log q) = Some (Q_Loaded m) \<and> list_all (q_fn q) all_fns
      | (Some m, Some h) \<Rightarrow> q_protocol (q_log q) = Some (Q_Running m h) \<and> list_all (q_fn q) all_fns
      | (None, Some h) \<Rightarrow> False)"

lemma q_fn_all: "list_all f all_fns \<longleftrightarrow> (\<forall>c. f c)"
proof
  assume "list_all f all_fns"
  then show "\<forall>c. f c" by (auto simp: all_fns_def intro: quic_fn.induct)
qed (simp add: list_all_iff)

lemma q_new_inv: "q_inv q_new"
  by (simp add: q_inv_def q_new_def)

lemma q_stop_inv: "q_inv q \<Longrightarrow> q_inv (q_stop q) \<and> q_module (q_stop q) = None \<and> q_handle (q_stop q) = None"
  by (auto simp: q_inv_def q_stop_def q_unload_def q_call_def q_fn_all Let_def split: option.splits)

lemma q_load_inv:
  assumes "q_inv q" and "q_module q = None" and "q_load D (q, w) = Some (ok, q', w')"
  shows "q_inv q' \<and> q_handle q' = None \<and> (ok \<longrightarrow> q_module q' \<noteq> None)"
  using assms
  by (auto simp: q_inv_def q_load_def q_unload_def q_call_def q_fn_all Let_def
      split: option.splits prod.splits if_splits)

lemma q_start_inv:
  assumes "q_inv q" and "q_start D port (q, w) = Some (ok, q', w')"
  shows "q_inv q' \<and> (ok \<longleftrightarrow> q_handle q' \<noteq> None)"
proof -
  note S = q_stop_inv [OF assms(1)]
  obtain ok1 q1 w1 where l: "q_load D (q_stop q, w) = Some (ok1, q1, w1)"
    using assms(2) by (auto simp: q_start_def split: option.splits)
  note L = q_load_inv [OF _ _ l]
  show ?thesis
    using assms(2) L S l
    by (cases ok1) (auto simp: q_start_def q_inv_def q_call_def split: option.splits prod.splits)
qed

lemma q_others_inv:
  assumes "q_inv q"
  shows "q_receive D cap t e (q, w) = (r, q', w') \<Longrightarrow> q_inv q'" and "q_inv (q_disconnectClient q)"
    and "q_lastError D (q, w) = (msg, q'') \<Longrightarrow> q_inv q''"
  using assms
  by (auto simp: q_inv_def q_receive_def q_disconnectClient_def q_lastError_def q_call_def q_fn_all
      split: option.splits prod.splits if_splits)

section \<open>Properties\<close>

datatype quic_op = Op_Start u16 | Op_Receive u32 u32 quic_event | Op_Disconnect | Op_Stop | Op_LastError

text \<open>The calls a program may make on one \<open>QuicAudioReceiver\<close>; \<open>None\<close> if the process ended.\<close>

fun q_run :: "'w dll \<Rightarrow> quic_op list \<Rightarrow> quic_receiver \<times> 'w \<Rightarrow> (quic_receiver \<times> 'w) option" where
  "q_run D [] s = Some s"
| "q_run D (Op_Start port # ops) s =
     (case q_start D port s of None \<Rightarrow> None | Some (ok, s') \<Rightarrow> q_run D ops s')"
| "q_run D (Op_Receive cap t e # ops) s = q_run D ops (snd (q_receive D cap t e s))"
| "q_run D (Op_Disconnect # ops) (q, w) = q_run D ops (q_disconnectClient q, w)"
| "q_run D (Op_Stop # ops) (q, w) = q_run D ops (q_stop q, w)"
| "q_run D (Op_LastError # ops) (q, w) = q_run D ops (snd (q_lastError D (q, w)), w)"

lemma q_run_inv:
  assumes "q_inv (fst s)" and "q_run D ops s = Some s'"
  shows "q_inv (fst s')"
  using assms
proof (induction ops arbitrary: s)
  case Nil
  then show ?case by simp
next
  case (Cons op ops)
  obtain q w where s: "s = (q, w)" by fastforce
  have inv: "q_inv q" using Cons.prems(1) by (simp add: s)
  show ?case
  proof (cases op)
    case (Op_Start port)
    then obtain ok q1 w1 where r: "q_start D port (q, w) = Some (ok, q1, w1)" "q_run D ops (q1, w1) = Some s'"
      using Cons.prems(2) by (auto simp: s split: option.splits)
    have "q_inv (fst (q1, w1))" using q_start_inv [OF inv r(1)] by simp
    then show ?thesis using r(2) by (rule Cons.IH)
  next
    case (Op_Receive cap t e)
    have "q_inv (fst (snd (q_receive D cap t e (q, w))))"
      using q_others_inv(1) [OF inv] by (metis prod.collapse)
    then show ?thesis using Cons.IH Cons.prems(2) by (simp add: Op_Receive s)
  next
    case Op_Disconnect
    then show ?thesis using Cons.IH [of "(q_disconnectClient q, w)"] Cons.prems(2) q_others_inv(2) [OF inv]
      by (simp add: s)
  next
    case Op_Stop
    then show ?thesis using Cons.IH [of "(q_stop q, w)"] Cons.prems(2) q_stop_inv [OF inv]
      by (simp add: s)
  next
    case Op_LastError
    have "q_inv (snd (q_lastError D (q, w)))" using q_others_inv(3) [OF inv] by (metis prod.collapse)
    then show ?thesis
      using Cons.IH [of "(snd (q_lastError D (q, w)), w)"] Cons.prems(2) by (simp add: Op_LastError s)
  qed
qed

text \<open>
  C27: The QUIC receiver uses the bridge legally: whatever sequence of \<open>start\<close>, \<open>receive\<close>,
  \<open>disconnectClient\<close>, \<open>lastError\<close> and \<open>stop\<close> a program runs, and whatever the loader and the
  bridge answer, a function of the bridge is only called while its library is loaded and
  with the handle that is open, every handle is stopped and then destroyed exactly once
  before the next one or the unloading of the library, and a final \<open>stop\<close> leaves nothing
  open or loaded.
\<close>

theorem quic_receiver_legal:
  assumes "q_run D ops (q_new, w) = Some (q, w')"
  shows "q_protocol (q_log q) \<noteq> None \<and> q_protocol (q_log (q_stop q)) = Some Q_Unloaded \<and>
    q_stop (q_stop q) = q_stop q"
proof -
  have inv: "q_inv q" using q_run_inv [OF _ assms] q_new_inv by simp
  have "q_protocol (q_log q) \<noteq> None" using inv by (auto simp: q_inv_def split: option.splits)
  moreover have "q_protocol (q_log (q_stop q)) = Some Q_Unloaded"
    and "q_fn (q_stop q) = (\<lambda>_. False)"
    using q_stop_inv [OF inv] by (auto simp: q_inv_def)
  ultimately show ?thesis
    using q_stop_inv [OF inv] by (simp add: q_stop_def [of "q_stop q"] q_unload_def)
qed

definition demo_event :: quic_event where
  "demo_event = \<lparr>ev_kind = 0, ev_sampleRate = 0, ev_bitrate = 0, ev_sentAtEpochMs = 0, ev_payloadLength = 0,
     ev_sequence = 0, ev_channels = 0, ev_codec = 0, ev_frameMs = 0\<rparr>"

definition demo_dll :: "nat dll" where
  "demo_dll = \<lparr>dll_path = [0x43, 0x3A, 0x5C, 0x73], dll_load = (\<lambda>p w. (Some w, Suc w)),
     dll_proc = (\<lambda>_ _. True), dll_start = (\<lambda>port w. (if port = 0 then None else Some w, Suc w)),
     dll_receive = (\<lambda>h c t w. ((0, demo_event, []), w)), dll_last_error = (\<lambda>h w. [])\<rparr>"

theorem quic_receiver_legal_witness:
  "\<exists>q w. q_run demo_dll [Op_Start 0, Op_Start 9000, Op_Receive 65536 100 demo_event, Op_Disconnect] (q_new, 0) = Some (q, w) \<and>
    q_handle q = Some 3 \<and> q_protocol (q_log (q_stop q)) = Some Q_Unloaded"
proof -
  have "map_option (\<lambda>(q, w). q_handle q) (q_run demo_dll
      [Op_Start 0, Op_Start 9000, Op_Receive 65536 100 demo_event, Op_Disconnect] (q_new, 0)) = Some (Some 3)"
    by code_simp
  then obtain q w where r: "q_run demo_dll [Op_Start 0, Op_Start 9000, Op_Receive 65536 100 demo_event, Op_Disconnect]
      (q_new, 0) = Some (q, w)" and h: "q_handle q = Some 3"
    by (auto simp: map_option_eq_Some)
  then show ?thesis using quic_receiver_legal [OF r] by blast
qed

end
