(* ===== verification/Double.thy ===== *)
theory Double
  imports Prelude Complex_Main "HOL-Library.Log_Nat"
begin

text \<open>
  The \<open>double\<close> of the sources: IEEE 754 binary64 with round-to-nearest-even, on rationals, so
  that it evaluates. \<open>rnd53\<close> rounds to 53 significant bits and to multiples of \<open>2 powi -1074\<close>
  (subnormal numbers); \<open>to_double\<close> adds overflow. The sign of a zero is not kept: the
  sources never divide by a zero that a computation with negative numbers produced.
\<close>

section \<open>Rounding\<close>

text \<open>Nearest integer, ties to even; also \<open>lrint\<close> in the default rounding mode.\<close>

definition rne :: "rat \<Rightarrow> int" where
  "rne x = (let f = \<lfloor>x\<rfloor>; d = x - of_int f
            in if d < 1 / 2 \<or> d = 1 / 2 \<and> even f then f else f + 1)"

text \<open>The binary exponent of a positive rational.\<close>

definition ilog2 :: "rat \<Rightarrow> int" where
  "ilog2 x = (let (p, q) = quotient_of x; k = bitlen p - bitlen q
              in if 2 powi k \<le> x then k else k - 1)"

definition ulp_exp :: "rat \<Rightarrow> int" where
  "ulp_exp x = max (ilog2 \<bar>x\<bar> - 52) (- 1074)"

definition rnd53 :: "rat \<Rightarrow> rat" where
  "rnd53 x = (if x = 0 then 0 else of_int (rne (x / 2 powi ulp_exp x)) * 2 powi ulp_exp x)"

lemma rne_of_int [simp]: "rne (of_int n) = n"
  by (simp add: rne_def)

lemma rne_0 [simp]: "rne 0 = 0" and rne_1 [simp]: "rne 1 = 1" and rne_numeral [simp]: "rne (numeral k) = numeral k"
  using rne_of_int [of 0] rne_of_int [of 1] rne_of_int [of "numeral k"] by simp_all

lemma rne_floor: "\<lfloor>x\<rfloor> \<le> rne x \<and> rne x \<le> \<lfloor>x\<rfloor> + 1"
  by (simp add: rne_def Let_def)

lemma rne_mono: "x \<le> y \<Longrightarrow> rne x \<le> rne y"
proof -
  assume le: "x \<le> y"
  consider "\<lfloor>x\<rfloor> = \<lfloor>y\<rfloor>" | "\<lfloor>x\<rfloor> + 1 \<le> \<lfloor>y\<rfloor>" using floor_mono [OF le] by linarith
  then show ?thesis
  proof cases
    case 1
    then show ?thesis using le by (auto simp: rne_def Let_def)
  next
    case 2
    then show ?thesis using rne_floor [of x] rne_floor [of y] by linarith
  qed
qed

lemma rne_near: "\<bar>of_int (rne x) - x\<bar> \<le> 1 / 2"
proof -
  have "of_int \<lfloor>x\<rfloor> \<le> x" and "x < of_int \<lfloor>x\<rfloor> + 1" by linarith+
  then show ?thesis unfolding rne_def Let_def abs_if by (simp split: if_splits; linarith)
qed

lemma rne_minus [simp]: "rne (- x) = - rne x"
proof (cases "x = of_int \<lfloor>x\<rfloor>")
  case True
  then have "rne x = \<lfloor>x\<rfloor>" and "rne (- x) = - \<lfloor>x\<rfloor>"
    using rne_of_int [of "\<lfloor>x\<rfloor>"] rne_of_int [of "- \<lfloor>x\<rfloor>"] by simp_all
  then show ?thesis by simp
next
  case False
  then have "\<lfloor>- x\<rfloor> = - \<lfloor>x\<rfloor> - 1" by (simp add: floor_minus ceiling_altdef)
  then show ?thesis by (auto simp: rne_def Let_def)
qed

lemma rne_between:
  assumes "of_int a \<le> x" and "x \<le> of_int b"
  shows "a \<le> rne x \<and> rne x \<le> b"
  using rne_mono [OF assms(1)] rne_mono [OF assms(2)] by simp

lemma two_powi_pos [simp]: "0 < (2 :: rat) powi k"
  by simp

lemma two_powi_mono: "a \<le> b \<Longrightarrow> (2 :: rat) powi a \<le> 2 powi b"
  by (simp add: power_int_increasing)

lemma bitlen_powi:
  assumes "0 < p"
  shows "2 powi (bitlen p - 1) \<le> (of_int p :: rat)" and "of_int p < (2 :: rat) powi bitlen p"
proof -
  have pos: "0 < bitlen p" using assms using bitlen_le_iff_power [of p 0] by simp
  have lo: "2 ^ nat (bitlen p - 1) \<le> p" and hi: "p < 2 ^ nat (bitlen p)"
    using bitlen_bounds [OF assms] by simp_all
  have "of_int (2 ^ nat (bitlen p - 1)) \<le> (of_int p :: rat)" using lo by (simp only: of_int_le_iff)
  then show "2 powi (bitlen p - 1) \<le> (of_int p :: rat)" using pos by (simp add: power_int_def)
  have "of_int p < (of_int (2 ^ nat (bitlen p)) :: rat)" using hi by (simp only: of_int_less_iff)
  then show "of_int p < (2 :: rat) powi bitlen p" using pos by (simp add: power_int_def)
qed

lemma ilog2_bounds:
  assumes "0 < x"
  shows "2 powi ilog2 x \<le> x" and "x < 2 powi (ilog2 x + 1)"
proof -
  obtain p q where pq: "quotient_of x = (p, q)" by fastforce
  have x: "x = of_int p / of_int q" and q: "0 < q"
    using quotient_of_div [OF pq] quotient_of_denom_pos [OF pq] by simp_all
  have p: "0 < p" using assms x q by (simp add: zero_less_divide_iff)
  let ?k = "bitlen p - bitlen q"
  note P = bitlen_powi [OF p] and Q = bitlen_powi [OF q]
  have "x < 2 powi bitlen p / 2 powi (bitlen q - 1)"
    unfolding x using P(2) Q(1) p q by (intro frac_less) simp_all
  then have up: "x < 2 powi (?k + 1)"
    by (simp add: algebra_simps flip: power_int_diff)
  have "2 powi (bitlen p - 1) / 2 powi bitlen q \<le> x"
    unfolding x using P(1) Q(2) p q by (intro frac_le) simp_all
  then have low: "2 powi (?k - 1) \<le> x"
    by (simp add: algebra_simps flip: power_int_diff)
  show "2 powi ilog2 x \<le> x" and "x < 2 powi (ilog2 x + 1)"
    using up low by (auto simp: ilog2_def pq Let_def)
qed

lemma ilog2_mono:
  assumes "0 < x" and "x \<le> y"
  shows "ilog2 x \<le> ilog2 y"
proof (rule ccontr)
  assume "\<not> ilog2 x \<le> ilog2 y"
  then have "(2 :: rat) powi (ilog2 y + 1) \<le> 2 powi ilog2 x" by (intro two_powi_mono) simp
  then show False using ilog2_bounds [of x] ilog2_bounds [of y] assms by simp
qed

lemma ilog2_less: "0 < x \<Longrightarrow> x < 2 powi k \<Longrightarrow> ilog2 x < k"
  using ilog2_bounds(1) [of x] two_powi_mono [of k "ilog2 x"] by fastforce

lemma rnd53_0 [simp]: "rnd53 0 = 0"
  by (simp add: rnd53_def)

lemma rnd53_minus [simp]: "rnd53 (- x) = - rnd53 x"
  by (simp add: rnd53_def ulp_exp_def)

lemma rnd53_nonneg: "0 \<le> x \<Longrightarrow> 0 \<le> rnd53 x"
  using rne_mono [of 0 "x / 2 powi ulp_exp x"] by (simp add: rnd53_def)


lemma rnd53_exactI:
  assumes "x / 2 powi ulp_exp x = of_int n"
  shows "rnd53 x = x"
proof -
  have "rne (x / 2 powi ulp_exp x) = n" unfolding assms by simp
  moreover have "x = of_int n * 2 powi ulp_exp x" using assms by (simp add: field_simps)
  ultimately show ?thesis by (simp add: rnd53_def)
qed

lemma two_powi_int: "0 \<le> k \<Longrightarrow> (2 :: rat) powi k = of_int (2 ^ nat k)"
  by (simp add: power_int_def)

text \<open>Numbers of at most 53 bits are exact.\<close>

lemma ulp_exp_le:
  assumes "0 < \<bar>x\<bar>" and "\<bar>x\<bar> < 2 powi (k + 53)" and "- 1074 \<le> k"
  shows "ulp_exp x \<le> k"
  using ilog2_less [OF assms(1,2)] assms(3) by (simp add: ulp_exp_def)

lemma rnd53_exact_less:
  assumes "\<bar>m\<bar> < 2 ^ 53" and "- 1074 \<le> e"
  shows "rnd53 (of_int m * 2 powi e) = of_int m * 2 powi e"
proof (cases "m = 0")
  case False
  let ?x = "of_int m * 2 powi e :: rat"
  have "of_int \<bar>m\<bar> < (of_int (2 ^ 53) :: rat)" using assms(1) by (simp only: of_int_less_iff)
  then have "\<bar>?x\<bar> < 2 powi (e + 53)" by (simp add: abs_mult power_int_add)
  then have le: "ulp_exp ?x \<le> e" using False assms(2) by (intro ulp_exp_le) simp_all
  have "?x / 2 powi ulp_exp ?x = of_int m * 2 powi (e - ulp_exp ?x)"
    by (simp add: power_int_diff)
  also have "\<dots> = of_int (m * 2 ^ nat (e - ulp_exp ?x))" using le by (simp add: two_powi_int)
  finally show ?thesis by (rule rnd53_exactI)
qed simp

lemma rnd53_exact:
  assumes "\<bar>m\<bar> \<le> 2 ^ 53" and "- 1074 \<le> e"
  shows "rnd53 (of_int m * 2 powi e) = of_int m * 2 powi e"
proof (cases "\<bar>m\<bar> = 2 ^ 53")
  case True
  then have m: "m = (if 0 \<le> m then 2 ^ 52 else - (2 ^ 52)) * 2" by auto
  define n :: int where "n = (if 0 \<le> m then 2 ^ 52 else - (2 ^ 52))"
  have mn: "m = n * 2" unfolding n_def by (rule m)
  have "of_int m * 2 powi e = (of_int n * 2 powi (e + 1) :: rat)"
    unfolding mn by (simp add: power_int_add)
  then show ?thesis using rnd53_exact_less [of n "e + 1"] assms(2) by (simp add: n_def)
qed (use assms rnd53_exact_less in auto)

lemma rnd53_of_int [simp]: "\<bar>n\<bar> \<le> 2 ^ 53 \<Longrightarrow> rnd53 (of_int n) = of_int n"
  using rnd53_exact [of n 0] by simp

lemma rnd53_of_nat [simp]: "n \<le> 2 ^ 53 \<Longrightarrow> rnd53 (of_nat n) = of_nat n"
proof -
  assume "n \<le> 2 ^ 53"
  then have "\<bar>int n\<bar> \<le> 2 ^ 53" by (simp add: nat_le_numeral_power_cancel_iff flip: of_nat_le_iff)
  then show ?thesis using rnd53_of_int [of "int n"] by simp
qed

lemma rnd53_1 [simp]: "rnd53 1 = 1"
  using rnd53_of_int [of 1] by simp

lemma rnd53_powi: "- 1074 \<le> e \<Longrightarrow> rnd53 (2 powi e) = 2 powi e"
  using rnd53_exact [of 1 e] by simp

text \<open>Rounding is monotone, hence stays between exact numbers.\<close>

lemma rnd53_mono_pos:
  assumes "0 < x" and "x \<le> y"
  shows "rnd53 x \<le> rnd53 y"
proof -
  let ?e = "ulp_exp x" and ?f = "ulp_exp y"
  have y: "0 < y" using assms by simp
  have le: "?e \<le> ?f" using ilog2_mono [OF assms] assms by (simp add: ulp_exp_def)
  have rx: "rnd53 x = of_int (rne (x / 2 powi ?e)) * 2 powi ?e"
    and ry: "rnd53 y = of_int (rne (y / 2 powi ?f)) * 2 powi ?f"
    using assms y by (simp_all add: rnd53_def)
  show ?thesis
  proof (cases "?e = ?f")
    case True
    have "rne (x / 2 powi ?e) \<le> rne (y / 2 powi ?e)"
      using assms by (intro rne_mono divide_right_mono) simp_all
    then show ?thesis unfolding rx ry True [symmetric] by (intro mult_right_mono) simp_all
  next
    case False
    then have f: "?f = ilog2 y - 52" and lt: "ilog2 x + 1 \<le> ?f + 52"
      using le assms y by (auto simp: ulp_exp_def)
    have e: "ilog2 x - 52 \<le> ?e" using assms by (simp add: ulp_exp_def)
    have "x < 2 powi (ilog2 x + 1)" using ilog2_bounds(2) [OF assms(1)] .
    also have "\<dots> \<le> 2 powi (?f + 52)" using lt by (rule two_powi_mono)
    finally have "x / 2 powi ?e \<le> 2 powi (?f + 52) / 2 powi ?e" by (intro divide_right_mono) simp_all
    also have "\<dots> = 2 powi (?f + 52 - ?e)" by (simp add: power_int_diff)
    also have "\<dots> = of_int (2 ^ nat (?f + 52 - ?e))" using le by (intro two_powi_int) simp
    finally have "rne (x / 2 powi ?e) \<le> 2 ^ nat (?f + 52 - ?e)"
      using rne_mono rne_of_int by metis
    then have "(of_int (rne (x / 2 powi ?e)) :: rat) \<le> of_int (2 ^ nat (?f + 52 - ?e))"
      by (simp only: of_int_le_iff)
    then have "rnd53 x \<le> of_int (2 ^ nat (?f + 52 - ?e)) * 2 powi ?e"
      unfolding rx by (intro mult_right_mono) simp_all
    also have "\<dots> = 2 powi (?f + 52 - ?e) * 2 powi ?e"
      using le by (subst two_powi_int) simp_all
    also have "\<dots> = 2 powi (?f + 52)" by (simp flip: power_int_add)
    finally have up: "rnd53 x \<le> 2 powi (?f + 52)" .
    have "2 powi (?f + 52) \<le> y" using ilog2_bounds(1) [OF y] f by simp
    then have "2 powi (?f + 52) / 2 powi ?f \<le> y / 2 powi ?f" by (intro divide_right_mono) simp_all
    then have "of_int (2 ^ 52) \<le> y / 2 powi ?f" by (simp add: power_int_add)
    then have "2 ^ 52 \<le> rne (y / 2 powi ?f)" using rne_mono rne_of_int by metis
    then have "(of_int (2 ^ 52) :: rat) \<le> of_int (rne (y / 2 powi ?f))" by (simp only: of_int_le_iff)
    then have "of_int (2 ^ 52) * 2 powi ?f \<le> rnd53 y" unfolding ry by (intro mult_right_mono) simp_all
    then show ?thesis using up by (simp add: power_int_add)
  qed
qed

lemma rnd53_mono: "x \<le> y \<Longrightarrow> rnd53 x \<le> rnd53 y"
proof -
  assume le: "x \<le> y"
  consider "0 < x" | "x \<le> 0" "0 \<le> y" | "y < 0" by linarith
  then show ?thesis
  proof cases
    case 1
    then show ?thesis using le by (rule rnd53_mono_pos)
  next
    case 2
    have "rnd53 x \<le> 0" using rnd53_nonneg [of "- x"] 2(1) by simp
    then show ?thesis using rnd53_nonneg [OF 2(2)] by simp
  next
    case 3
    then show ?thesis using rnd53_mono_pos [of "- y" "- x"] le by simp
  qed
qed

lemma rnd53_between:
  assumes "rnd53 a = a" and "rnd53 b = b" and "a \<le> x" and "x \<le> b"
  shows "a \<le> rnd53 x" and "rnd53 x \<le> b"
  using rnd53_mono [OF assms(3)] rnd53_mono [OF assms(4)] assms(1,2) by simp_all

text \<open>The result of a rounding is exact, and it is off by at most half a unit.\<close>

lemma rnd53_idem [simp]: "rnd53 (rnd53 x) = rnd53 x"
proof (cases "x = 0")
  case False
  let ?e = "ulp_exp x"
  have e: "ilog2 \<bar>x\<bar> + 1 \<le> ?e + 53" "- 1074 \<le> ?e" by (auto simp: ulp_exp_def)
  have "\<bar>x\<bar> < 2 powi (ilog2 \<bar>x\<bar> + 1)" using ilog2_bounds(2) [of "\<bar>x\<bar>"] False by simp
  also have "\<dots> \<le> 2 powi (?e + 53)" using e(1) by (rule two_powi_mono)
  finally have "\<bar>x\<bar> / 2 powi ?e \<le> 2 powi (?e + 53) / 2 powi ?e" by (intro divide_right_mono) simp_all
  then have "\<bar>x / 2 powi ?e\<bar> \<le> of_int (2 ^ 53)" by (simp add: power_int_add)
  then have b: "of_int (- (2 ^ 53)) \<le> x / 2 powi ?e" "x / 2 powi ?e \<le> of_int (2 ^ 53)"
    unfolding abs_le_iff by simp_all
  have "\<bar>rne (x / 2 powi ?e)\<bar> \<le> 2 ^ 53"
    using rne_between [OF b] by linarith
  then show ?thesis using rnd53_exact [OF _ e(2)] False by (simp add: rnd53_def [of x])
qed simp

lemma rnd53_error:
  assumes "\<bar>x\<bar> < 2 powi (k + 53)" and "- 1074 \<le> k"
  shows "\<bar>rnd53 x - x\<bar> \<le> 2 powi k / 2"
proof (cases "x = 0")
  case False
  let ?e = "ulp_exp x"
  have "\<bar>(of_int (rne (x / 2 powi ?e)) - x / 2 powi ?e) * 2 powi ?e\<bar> \<le> 1 / 2 * 2 powi ?e"
    unfolding abs_mult using rne_near [of "x / 2 powi ?e"] by (intro mult_mono) simp_all
  then have "\<bar>rnd53 x - x\<bar> \<le> 1 / 2 * 2 powi ?e"
    using False by (simp add: rnd53_def left_diff_distrib)
  moreover have "(2 :: rat) powi ?e \<le> 2 powi k"
    using ulp_exp_le [of x k] assms False by (intro two_powi_mono) simp
  ultimately show ?thesis by simp
qed simp

text \<open>An exact number of at least \<open>2 powi (k + 52)\<close> is a multiple of \<open>2 powi k\<close>.\<close>

lemma rnd53_multiple:
  assumes "rnd53 x = x" and "2 powi (k + 52) \<le> x" and "- 1074 \<le> k"
  shows "\<exists>n. x = of_int n * 2 powi k"
proof -
  let ?e = "ulp_exp x"
  have pos: "0 < x" using assms(2) two_powi_pos [of "k + 52"] by linarith
  have "k + 52 \<le> ilog2 x"
  proof (rule ccontr)
    assume "\<not> k + 52 \<le> ilog2 x"
    then have "(2 :: rat) powi (ilog2 x + 1) \<le> 2 powi (k + 52)" by (intro two_powi_mono) simp
    then show False using ilog2_bounds(2) [OF pos] assms(2) by simp
  qed
  then have le: "k \<le> ?e" using pos by (simp add: ulp_exp_def)
  obtain n where "x = of_int n * 2 powi ?e"
    using assms(1) pos by (simp add: rnd53_def) metis
  also have "(2 :: rat) powi ?e = 2 powi (?e - k) * 2 powi k" by (simp flip: power_int_add)
  also have "(2 :: rat) powi (?e - k) = of_int (2 ^ nat (?e - k))" using le by (intro two_powi_int) simp
  finally have "x = of_int (n * 2 ^ nat (?e - k)) * 2 powi k"
    by simp
  then show ?thesis by blast
qed


section \<open>Doubles\<close>

datatype double = Fin rat | PInf | NInf | NaN

definition to_double :: "rat \<Rightarrow> double" where
  "to_double x =
     (let r = rnd53 x
      in if r \<noteq> 0 \<and> 1024 \<le> ilog2 \<bar>r\<bar> then (if 0 < r then PInf else NInf) else Fin r)"

fun dneg :: "double \<Rightarrow> double" where
  "dneg (Fin a) = Fin (- a)" | "dneg PInf = NInf" | "dneg NInf = PInf" | "dneg NaN = NaN"

text \<open>The sign of a number that is not NaN, and the infinity of a sign.\<close>

fun dsgn :: "double \<Rightarrow> rat" where
  "dsgn (Fin a) = sgn a" | "dsgn PInf = 1" | "dsgn NInf = - 1" | "dsgn NaN = 0"

definition inf_of :: "rat \<Rightarrow> double" where
  "inf_of s = (if 0 < s then PInf else if s < 0 then NInf else NaN)"

definition dadd :: "double \<Rightarrow> double \<Rightarrow> double" where
  "dadd x y = (case x of
     Fin a \<Rightarrow> (case y of Fin b \<Rightarrow> to_double (a + b) | _ \<Rightarrow> y)
   | _ \<Rightarrow> (case y of Fin b \<Rightarrow> x | _ \<Rightarrow> if x = y then x else NaN))"

definition dsub :: "double \<Rightarrow> double \<Rightarrow> double" where
  "dsub x y = dadd x (dneg y)"

definition dmul :: "double \<Rightarrow> double \<Rightarrow> double" where
  "dmul x y = (case (x, y) of
     (Fin a, Fin b) \<Rightarrow> to_double (a * b)
   | _ \<Rightarrow> inf_of (dsgn x * dsgn y))"

text \<open>A zero divisor counts as positive.\<close>

definition ddiv :: "double \<Rightarrow> double \<Rightarrow> double" where
  "ddiv x y =
     (if x = NaN \<or> y = NaN then NaN
      else case (x, y) of
        (Fin a, Fin b) \<Rightarrow> if b = 0 then inf_of (sgn a) else to_double (a / b)
      | (Fin a, _) \<Rightarrow> Fin 0
      | (_, Fin b) \<Rightarrow> inf_of (dsgn x * (if b < 0 then - 1 else 1))
      | _ \<Rightarrow> NaN)"

fun dless :: "double \<Rightarrow> double \<Rightarrow> bool" where
  "dless (Fin a) (Fin b) \<longleftrightarrow> a < b"
| "dless (Fin a) PInf \<longleftrightarrow> True"
| "dless NInf (Fin b) \<longleftrightarrow> True"
| "dless NInf PInf \<longleftrightarrow> True"
| "dless _ _ \<longleftrightarrow> False"

definition dle :: "double \<Rightarrow> double \<Rightarrow> bool" where
  "dle x y \<longleftrightarrow> dless x y \<or> x = y \<and> x \<noteq> NaN"

definition isfinite :: "double \<Rightarrow> bool" where
  "isfinite x \<longleftrightarrow> (case x of Fin _ \<Rightarrow> True | _ \<Rightarrow> False)"

text \<open>\<open>std::clamp\<close> and \<open>std::min\<close>, which compare in this order.\<close>

definition dclamp :: "double \<Rightarrow> double \<Rightarrow> double \<Rightarrow> double" where
  "dclamp v lo hi = (if dless v lo then lo else if dless hi v then hi else v)"

definition dmin :: "double \<Rightarrow> double \<Rightarrow> double" where
  "dmin a b = (if dless b a then b else a)"

fun dceil :: "double \<Rightarrow> double" where
  "dceil (Fin a) = Fin (of_int \<lceil>a\<rceil>)" | "dceil x = x"

text \<open>
  \<open>lrint\<close>, a 32-bit \<open>long\<close> on this platform; what does not fit becomes its least value.
  \<open>size_cast\<close> is the conversion to \<open>size_t\<close>, defined in this range.
\<close>

fun lrint :: "double \<Rightarrow> int" where
  "lrint (Fin a) = (if \<bar>rne a\<bar> < 2 ^ 31 then rne a else - (2 ^ 31))"
| "lrint _ = - (2 ^ 31)"

fun size_cast :: "double \<Rightarrow> nat option" where
  "size_cast (Fin a) = (if - 1 < a \<and> a < 2 ^ 64 then Some (nat \<lfloor>a\<rfloor>) else None)"
| "size_cast _ = None"

named_theorems double_simps \<open>operations on finite doubles\<close>

lemma to_double_small [double_simps]: "\<bar>x\<bar> \<le> 2 ^ 1000 \<Longrightarrow> to_double x = Fin (rnd53 x)"
proof -
  assume a: "\<bar>x\<bar> \<le> 2 ^ 1000"
  have e: "rnd53 (2 ^ 1000) = 2 ^ 1000" and e': "rnd53 (- (2 ^ 1000)) = - (2 ^ 1000)"
    using rnd53_powi [of 1000] by (simp_all add: power_int_def)
  have "\<bar>rnd53 x\<bar> \<le> 2 ^ 1000"
    using rnd53_between [OF e' e, of x] a by (simp add: abs_le_iff)
  then have "\<bar>rnd53 x\<bar> < 2 powi 1024" by (rule le_less_trans) simp
  then show ?thesis using ilog2_less [of "\<bar>rnd53 x\<bar>" 1024] by (auto simp: to_double_def Let_def)
qed

lemma to_double_pow: "\<bar>x\<bar> \<le> 2 ^ k \<Longrightarrow> k \<le> 1000 \<Longrightarrow> to_double x = Fin (rnd53 x)"
  by (intro to_double_small, erule order_trans, intro power_increasing) simp_all

lemma double_ops [double_simps]:
  "dadd (Fin a) (Fin b) = to_double (a + b)" "dsub (Fin a) (Fin b) = to_double (a - b)"
  "dmul (Fin a) (Fin b) = to_double (a * b)" "b \<noteq> 0 \<Longrightarrow> ddiv (Fin a) (Fin b) = to_double (a / b)"
  "dle (Fin a) (Fin b) \<longleftrightarrow> a \<le> b" "isfinite (Fin a)"
  "dclamp (Fin a) (Fin b) (Fin c) = Fin (if a < b then b else if c < a then c else a)"
  "dmin (Fin a) (Fin b) = Fin (min a b)"
  by (auto simp: dadd_def dsub_def dmul_def ddiv_def dle_def isfinite_def dclamp_def dmin_def min_def)

lemma dclamp_range:
  assumes "v \<noteq> NaN" and "a \<le> b"
  shows "\<exists>c. dclamp v (Fin a) (Fin b) = Fin c \<and> a \<le> c \<and> c \<le> b"
  using assms by (cases v) (auto simp: dclamp_def)

lemma dclamp_NaN [simp]: "dclamp NaN lo hi = NaN"
  by (cases lo; cases hi) (simp_all add: dclamp_def)

lemma to_double_not_NaN [simp]: "to_double x \<noteq> NaN"
  by (simp add: to_double_def Let_def)

end
