(* ===== verification/Renderer_Lifecycle.thy ===== *)
theory Renderer_Lifecycle
  imports Prelude Double
begin

text \<open>
  \<open>WasapiRenderer::init\<close>, \<open>start\<close> and \<open>stop\<close> (\<open>wasapi_renderer.cpp\<close>). What the calls into COM
  and the kernel return is given by a \<open>com_results\<close>; the objects and handles they create are
  numbered, and \<open>com_world\<close> keeps the ones that have not been released. On failure a COM
  call stores a null pointer in its result, as its documentation says.
\<close>

type_synonym hresult = u32

definition FAILED :: "hresult \<Rightarrow> bool" where "FAILED hr \<longleftrightarrow> sint hr < 0"
definition S_FALSE :: hresult where "S_FALSE = 1"
definition RPC_E_CHANGED_MODE :: hresult where "RPC_E_CHANGED_MODE = 0x80010106"

record com_results =
  co_initialize :: hresult           \<comment> \<open>\<open>CoInitializeEx\<close>\<close>
  co_enumerator :: hresult           \<comment> \<open>\<open>CoCreateInstance\<close>\<close>
  co_endpoint :: hresult             \<comment> \<open>\<open>GetDefaultAudioEndpoint\<close>\<close>
  co_activate :: hresult             \<comment> \<open>\<open>Activate\<close>\<close>
  co_convert :: hresult              \<comment> \<open>\<open>Initialize\<close> with conversion\<close>
  co_mixformat :: hresult            \<comment> \<open>\<open>GetMixFormat\<close>\<close>
  co_mixinit :: hresult              \<comment> \<open>\<open>Initialize\<close> with the mix format\<close>
  co_frames :: u32                   \<comment> \<open>\<open>GetBufferSize\<close>\<close>
  co_service :: hresult              \<comment> \<open>\<open>GetService\<close>\<close>
  co_event :: bool                   \<comment> \<open>\<open>CreateEventW\<close> succeeds\<close>
  co_stop_event :: bool
  co_start :: hresult                \<comment> \<open>\<open>IAudioClient::Start\<close>\<close>

record com_world =
  cw_next :: nat
  cw_live :: "nat list"

record renderer =
  r_sampleRate :: u32
  r_channels :: u8
  r_bufferFrames :: u32
  r_renderCount :: "32 word"         \<comment> \<open>an \<open>int\<close> that only the log shows\<close>
  r_silenceFillCount :: "32 word"
  r_dropBaselineDurationMs :: u32
  r_protectMs :: u32
  r_maxSpeedPermille :: u32
  r_stretchInputBuf :: pcm
  r_lastOutputSamples :: pcm
  r_recoveringFromSilence :: bool
  r_currentSpeed :: double
  r_pEnumerator :: "nat option"
  r_pDevice :: "nat option"
  r_pAudioClient :: "nat option"
  r_pRenderClient :: "nat option"
  r_hEvent :: "nat option"
  r_hStopEvent :: "nat option"
  r_running :: bool
  r_thread :: bool                   \<comment> \<open>\<open>renderThread_.joinable()\<close>\<close>

definition acquire :: "bool \<Rightarrow> com_world \<Rightarrow> nat option \<times> com_world" where
  "acquire ok w =
     (if ok then (Some (cw_next w), w\<lparr>cw_next := Suc (cw_next w), cw_live := cw_next w # cw_live w\<rparr>)
      else (None, w))"

definition release_ref :: "nat option \<Rightarrow> com_world \<Rightarrow> com_world" where
  "release_ref p w = (case p of None \<Rightarrow> w | Some i \<Rightarrow> w\<lparr>cw_live := removeAll i (cw_live w)\<rparr>)"

section \<open>Operations\<close>

text \<open>The parameters that the main thread sets.\<close>

definition setDropBaseline :: "u32 \<Rightarrow> renderer \<Rightarrow> renderer" where
  "setDropBaseline ms r = r\<lparr>r_dropBaselineDurationMs := ms\<rparr>"

definition setProtect :: "u32 \<Rightarrow> renderer \<Rightarrow> renderer" where
  "setProtect ms r = r\<lparr>r_protectMs := ms\<rparr>"

definition setMaxSpeed :: "double \<Rightarrow> renderer \<Rightarrow> renderer" where
  "setMaxSpeed speed0 r =
     (let speed1 = (if \<not> isfinite speed0 then Fin 1 else speed0);
          speed = dclamp speed1 (Fin 1) (Fin 4)
      in r\<lparr>r_maxSpeedPermille := of_int (lrint (dmul speed (Fin 1000)))\<rparr>)"

lemma setters_frame [simp]:
  "r_channels (setMaxSpeed d r) = r_channels r" "r_sampleRate (setMaxSpeed d r) = r_sampleRate r"
  "r_running (setMaxSpeed d r) = r_running r" "r_thread (setMaxSpeed d r) = r_thread r"
  "r_pAudioClient (setMaxSpeed d r) = r_pAudioClient r" "r_currentSpeed (setMaxSpeed d r) = r_currentSpeed r"
  "r_dropBaselineDurationMs (setMaxSpeed d r) = r_dropBaselineDurationMs r" "r_protectMs (setMaxSpeed d r) = r_protectMs r"
  by (simp_all add: setMaxSpeed_def Let_def)

text \<open>The common end of \<open>init\<close>, once the audio client is initialised.\<close>

definition r_finish :: "com_results \<Rightarrow> renderer \<times> com_world \<Rightarrow> bool \<times> renderer \<times> com_world" where
  "r_finish E = (\<lambda>(r, w).
     let (service, w1) = acquire (\<not> FAILED (co_service E)) w;
         (event, w2) = acquire (co_event E) w1;
         (stop_event, w3) = acquire (co_stop_event E) w2
     in (True, r\<lparr>r_bufferFrames := co_frames E, r_pRenderClient := service, r_hEvent := event,
                 r_hStopEvent := stop_event\<rparr>, w3))"

definition r_init :: "com_results \<Rightarrow> u32 \<Rightarrow> u8 \<Rightarrow> renderer \<times> com_world \<Rightarrow> bool \<times> renderer \<times> com_world" where
  "r_init E sampleRate channels = (\<lambda>(r0, w0).
     let r = r0\<lparr>r_sampleRate := sampleRate, r_channels := channels,
                r_lastOutputSamples := replicate (unat channels) 0, r_recoveringFromSilence := False,
                r_currentSpeed := Fin 1\<rparr>
     in if FAILED (co_initialize E) \<and> co_initialize E \<noteq> S_FALSE \<and> co_initialize E \<noteq> RPC_E_CHANGED_MODE
        then (False, r, w0)
        else let (en, w1) = acquire (\<not> FAILED (co_enumerator E)) w0; r1 = r\<lparr>r_pEnumerator := en\<rparr>
        in if FAILED (co_enumerator E) then (False, r1, w1)
        else let (dev, w2) = acquire (\<not> FAILED (co_endpoint E)) w1; r2 = r1\<lparr>r_pDevice := dev\<rparr>
        in if FAILED (co_endpoint E) then (False, r2, w2)
        else let (client, w3) = acquire (\<not> FAILED (co_activate E)) w2; r3 = r2\<lparr>r_pAudioClient := client\<rparr>
        in if FAILED (co_activate E) then (False, r3, w3)
        else if FAILED (co_convert E) \<and> (FAILED (co_mixformat E) \<or> FAILED (co_mixinit E))
        then (False, r3, w3)
        else r_finish E (r3, w3))"

definition r_start :: "com_results \<Rightarrow> renderer \<Rightarrow> bool \<times> renderer" where
  "r_start E r =
     (if r_running r then (False, r)
      else if FAILED (co_start E) then (False, r)
      else (True, r\<lparr>r_running := True, r_thread := True\<rparr>))"

definition r_stop :: "renderer \<times> com_world \<Rightarrow> renderer \<times> com_world" where
  "r_stop = (\<lambda>(r0, w).
     let r = (if r_running r0 then r0\<lparr>r_running := False, r_thread := False\<rparr> else r0)
     in (r\<lparr>r_pRenderClient := None, r_pAudioClient := None, r_pDevice := None, r_pEnumerator := None,
           r_hEvent := None, r_hStopEvent := None\<rparr>,
         release_ref (r_hStopEvent r) (release_ref (r_hEvent r) (release_ref (r_pEnumerator r)
           (release_ref (r_pDevice r) (release_ref (r_pAudioClient r) (release_ref (r_pRenderClient r) w)))))))"

section \<open>Ownership\<close>

definition ref_list :: "nat option \<Rightarrow> nat list" where
  "ref_list p = (case p of None \<Rightarrow> [] | Some i \<Rightarrow> [i])"

lemma ref_list_simps [simp]:
  "ref_list None = []" "ref_list (Some i) = [i]" "ref_list p = [] \<longleftrightarrow> p = None"
  "i \<in> set (ref_list p) \<longleftrightarrow> p = Some i"
  by (auto simp: ref_list_def split: option.splits)

definition r_refs :: "renderer \<Rightarrow> nat list" where
  "r_refs r = ref_list (r_hStopEvent r) @ ref_list (r_hEvent r) @ ref_list (r_pRenderClient r) @
     ref_list (r_pAudioClient r) @ ref_list (r_pDevice r) @ ref_list (r_pEnumerator r)"

lemma r_refs_running [simp]: "r_refs (r\<lparr>r_running := b, r_thread := c\<rparr>) = r_refs r"
  by (simp add: r_refs_def)

definition r_clean :: "renderer \<Rightarrow> bool" where
  "r_clean r \<longleftrightarrow> r_refs r = [] \<and> \<not> r_running r \<and> \<not> r_thread r"

text \<open>
  The objects others own are older than any the renderer creates; the renderer owns
  exactly the rest of what is live.
\<close>

definition cw_wf :: "com_world \<Rightarrow> bool" where
  "cw_wf w \<longleftrightarrow> list_all (\<lambda>i. i < cw_next w) (cw_live w) \<and> distinct (cw_live w)"

definition r_owns :: "nat list \<Rightarrow> renderer \<Rightarrow> com_world \<Rightarrow> bool" where
  "r_owns others r w \<longleftrightarrow> cw_live w = r_refs r @ others \<and> cw_wf w"

lemma acquire_spec:
  assumes "cw_wf w" and "acquire ok w = (p, w')"
  shows "cw_wf w'" and "cw_live w' = ref_list p @ cw_live w" and "p = None \<longleftrightarrow> \<not> ok"
    and "p = Some i \<Longrightarrow> i = cw_next w" and "cw_next w' = (if ok then Suc (cw_next w) else cw_next w)"
  using assms by (fastforce simp: acquire_def cw_wf_def list_all_iff split: if_splits)+

lemma r_clean_refs:
  assumes "r_clean r"
  shows "r_pEnumerator r = None" "r_pDevice r = None" "r_pAudioClient r = None"
    "r_pRenderClient r = None" "r_hEvent r = None" "r_hStopEvent r = None"
  using assms by (simp_all add: r_clean_def r_refs_def)

lemma r_finish_owns:
  assumes "r_owns others r w" and "r_pRenderClient r = None" and "r_hEvent r = None"
    and "r_hStopEvent r = None" and "r_finish E (r, w) = (ok, r', w')"
  shows "r_owns others r' w'"
proof -
  obtain a1 w1 where a1: "acquire (\<not> FAILED (co_service E)) w = (a1, w1)" by fastforce
  obtain a2 w2 where a2: "acquire (co_event E) w1 = (a2, w2)" by fastforce
  obtain a3 w3 where a3: "acquire (co_stop_event E) w2 = (a3, w3)" by fastforce
  have wf: "cw_wf w" and live: "cw_live w = r_refs r @ others" using assms(1) by (simp_all add: r_owns_def)
  note A1 = acquire_spec [OF wf a1]
  note A2 = acquire_spec [OF A1(1) a2]
  note A3 = acquire_spec [OF A2(1) a3]
  show ?thesis
    using assms(2-5) A1(2) A2(2) A3(1,2) live by (auto simp: r_finish_def a1 a2 a3 r_owns_def r_refs_def)
qed

lemma r_init_owns:
  assumes "r_clean r" and "r_owns others r w" and "r_init E sr ch (r, w) = (ok, r', w')"
  shows "r_owns others r' w'"
proof -
  note clean = r_clean_refs [OF assms(1)]
  obtain a1 w1 where a1: "acquire (\<not> FAILED (co_enumerator E)) w = (a1, w1)" by fastforce
  obtain a2 w2 where a2: "acquire (\<not> FAILED (co_endpoint E)) w1 = (a2, w2)" by fastforce
  obtain a3 w3 where a3: "acquire (\<not> FAILED (co_activate E)) w2 = (a3, w3)" by fastforce
  have wf: "cw_wf w" and live: "cw_live w = others"
    using assms(1,2) by (simp_all add: r_owns_def r_clean_def)
  note A1 = acquire_spec [OF wf a1]
  note A2 = acquire_spec [OF A1(1) a2]
  note A3 = acquire_spec [OF A2(1) a3]
  define r1 where "r1 = r\<lparr>r_sampleRate := sr, r_channels := ch, r_lastOutputSamples := replicate (unat ch) 0,
    r_recoveringFromSilence := False, r_currentSpeed := Fin 1\<rparr>"
  have refs: "r_refs r1 = []" "r_refs (r1\<lparr>r_pEnumerator := a1\<rparr>) = ref_list a1"
    "r_refs (r1\<lparr>r_pEnumerator := a1, r_pDevice := a2\<rparr>) = ref_list a2 @ ref_list a1"
    "r_refs (r1\<lparr>r_pEnumerator := a1, r_pDevice := a2, r_pAudioClient := a3\<rparr>) =
      ref_list a3 @ ref_list a2 @ ref_list a1"
    by (simp_all add: r1_def r_refs_def clean)
  have own: "r_owns others r1 w" "r_owns others (r1\<lparr>r_pEnumerator := a1\<rparr>) w1"
    "r_owns others (r1\<lparr>r_pEnumerator := a1, r_pDevice := a2\<rparr>) w2"
    "r_owns others (r1\<lparr>r_pEnumerator := a1, r_pDevice := a2, r_pAudioClient := a3\<rparr>) w3"
    using live wf A1(1,2) A2(1,2) A3(1,2) by (simp_all add: r_owns_def refs)
  have none: "r_pRenderClient r1 = None" "r_hEvent r1 = None" "r_hStopEvent r1 = None"
    by (simp_all add: r1_def clean)
  show ?thesis
    using assms(3) own none r_finish_owns [OF own(4)]
    by (simp add: r_init_def a1 a2 a3 Let_def r1_def [symmetric] split: if_splits)
qed

lemma r_stop_idle:
  assumes "r_stop (r, w) = (r', w')"
  shows "\<not> r_running r'" and "r_refs r' = []"
  using assms by (cases "r_running r"; auto simp: r_stop_def r_refs_def Let_def)+

lemma r_stop_releases:
  assumes "r_stop (r, w) = (r', w')"
  shows "cw_live w' = filter (\<lambda>i. i \<notin> set (r_refs r)) (cw_live w)" and "r_clean r' \<or> \<not> r_running r \<and> r_thread r"
    and "cw_next w' = cw_next w"
proof -
  have rel: "cw_live (release_ref p w) = filter (\<lambda>i. p \<noteq> Some i) (cw_live w)" for p w
    by (auto simp: release_ref_def removeAll_filter_not_eq intro!: filter_cong split: option.split)
  have next': "cw_next (release_ref p w) = cw_next w" for p w
    by (simp add: release_ref_def split: option.split)
  have refs: "i \<in> set (r_refs r) \<longleftrightarrow> Some i \<in> {r_hStopEvent r, r_hEvent r, r_pRenderClient r,
      r_pAudioClient r, r_pDevice r, r_pEnumerator r}" for i
    by (auto simp: r_refs_def)
  show "cw_live w' = filter (\<lambda>i. i \<notin> set (r_refs r)) (cw_live w)"
    using assms by (cases "r_running r") (auto simp: r_stop_def Let_def rel refs intro!: filter_cong)
  show "r_clean r' \<or> \<not> r_running r \<and> r_thread r" and "cw_next w' = cw_next w"
    using assms by (cases "r_running r"; auto simp: r_stop_def Let_def r_clean_def r_refs_def next')+
qed

lemma r_stop_owns:
  assumes "r_owns others r w" and "r_stop (r, w) = (r', w')" and "r_running r \<or> \<not> r_thread r"
  shows "r_clean r' \<and> r_owns others r' w' \<and> cw_live w' = others"
proof -
  note S = r_stop_releases [OF assms(2)]
  have own: "cw_live w = r_refs r @ others" "list_all (\<lambda>i. i < cw_next w) (cw_live w)"
      "distinct (cw_live w)"
    using assms(1) unfolding r_owns_def cw_wf_def by blast+
  have "filter (\<lambda>i. i \<notin> set (r_refs r)) others = others"
    using own(1,3) by (auto simp: filter_id_conv)
  then have "cw_live w' = others" using S(1) own(1) by (simp add: filter_empty_conv)
  then show ?thesis using S own assms(3) by (auto simp: r_owns_def cw_wf_def r_clean_def)
qed

text \<open>A thread exists only while the renderer runs, so \<open>start\<close> never replaces a joinable thread.\<close>

text \<open>The calls whose results \<open>init\<close> checks: with these, and only with these, it succeeds.\<close>

definition com_ok :: "com_results \<Rightarrow> bool" where
  "com_ok E \<longleftrightarrow>
     (FAILED (co_initialize E) \<longrightarrow> co_initialize E = S_FALSE \<or> co_initialize E = RPC_E_CHANGED_MODE) \<and>
     \<not> FAILED (co_enumerator E) \<and> \<not> FAILED (co_endpoint E) \<and> \<not> FAILED (co_activate E) \<and>
     (FAILED (co_convert E) \<longrightarrow> \<not> FAILED (co_mixformat E) \<and> \<not> FAILED (co_mixinit E))"

lemma r_init_iff:
  assumes "r_init E sr ch (r, w) = (ok, r', w')"
  shows "ok \<longleftrightarrow> com_ok E"
proof -
  obtain a1 w1 where a1: "acquire (\<not> FAILED (co_enumerator E)) w = (a1, w1)" by fastforce
  obtain a2 w2 where a2: "acquire (\<not> FAILED (co_endpoint E)) w1 = (a2, w2)" by fastforce
  obtain a3 w3 where a3: "acquire (\<not> FAILED (co_activate E)) w2 = (a3, w3)" by fastforce
  have "fst (r_finish E x)" for x by (cases x) (simp add: r_finish_def split: prod.split)
  then have fin: "r_finish E x = (ok', r'', w'') \<Longrightarrow> ok'" for x ok' r'' w'' by (metis fst_conv)
  show ?thesis
    using assms fin by (auto simp: r_init_def a1 a2 a3 Let_def com_ok_def split: if_splits)
qed

lemma r_start_iff: "r_start E r = (ok, r') \<Longrightarrow> ok \<longleftrightarrow> \<not> r_running r \<and> \<not> FAILED (co_start E)"
  by (auto simp: r_start_def split: if_splits)

lemma r_init_thread:
  "r_init E sr ch (r, w) = (ok, r', w') \<Longrightarrow> r_running r' = r_running r \<and> r_thread r' = r_thread r"
  by (auto simp: r_init_def r_finish_def Let_def split: prod.splits if_splits)

lemma r_start_thread:
  "r_start E r = (ok, r') \<Longrightarrow> r_thread r \<longrightarrow> r_running r \<Longrightarrow> r_thread r' \<longrightarrow> r_running r'"
  by (auto simp: r_start_def split: if_splits)

lemma r_start_refs: "r_start E r = (ok, r') \<Longrightarrow> r_refs r' = r_refs r"
  by (auto simp: r_start_def split: if_splits)

text \<open>A successful \<open>init\<close> has every object except those whose results it does not check.\<close>

lemma r_init_ok:
  assumes "r_init E sr ch (r, w) = (True, r', w')"
  shows "r_pAudioClient r' \<noteq> None" and "r_sampleRate r' = sr" and "r_channels r' = ch"
    and "r_pRenderClient r' = None \<longleftrightarrow> FAILED (co_service E)"
    and "r_hEvent r' = None \<longleftrightarrow> \<not> co_event E" and "r_bufferFrames r' = co_frames E" and "r_currentSpeed r' = Fin 1"
proof -
  obtain a1 w1 where a1: "acquire (\<not> FAILED (co_enumerator E)) w = (a1, w1)" by fastforce
  obtain a2 w2 where a2: "acquire (\<not> FAILED (co_endpoint E)) w1 = (a2, w2)" by fastforce
  obtain a3 w3 where a3: "acquire (\<not> FAILED (co_activate E)) w2 = (a3, w3)" by fastforce
  have a3': "\<not> FAILED (co_activate E) \<Longrightarrow> a3 \<noteq> None" using a3 by (auto simp: acquire_def)
  obtain r3 where fin: "r_finish E (r3, w3) = (True, r', w')" and r3: "r_pAudioClient r3 \<noteq> None"
      "r_sampleRate r3 = sr" "r_channels r3 = ch" "r_currentSpeed r3 = Fin 1"
    using assms a3' by (simp add: r_init_def a1 a2 a3 Let_def split: if_splits)
  show "r_pAudioClient r' \<noteq> None" and "r_sampleRate r' = sr" and "r_channels r' = ch"
    and "r_pRenderClient r' = None \<longleftrightarrow> FAILED (co_service E)"
    and "r_hEvent r' = None \<longleftrightarrow> \<not> co_event E" and "r_bufferFrames r' = co_frames E" and "r_currentSpeed r' = Fin 1"
    using fin r3 by (auto simp: r_finish_def acquire_def split: if_splits)
qed

section \<open>Properties\<close>

text \<open>
  C28: Nothing leaks in a session: if the renderer holds nothing and \<open>init\<close>, \<open>start\<close> and
  \<open>stop\<close> run one after the other, whatever COM answers, then afterwards exactly the objects
  that existed before are live, the renderer holds none, and no thread is left.
\<close>

theorem renderer_session_releases_all:
  assumes "r_clean r" and "r_owns others r w" and "r_init E sr ch (r, w) = (ok, r1, w1)"
    and "r_start E r1 = (started, r2)" and "r_stop (r2, w1) = (r3, w3)"
  shows "r_clean r3 \<and> cw_live w3 = cw_live w"
proof -
  have own: "r_owns others r2 w1"
    using r_init_owns [OF assms(1-3)] unfolding r_owns_def r_start_refs [OF assms(4)] .
  have "r_running r2 \<or> \<not> r_thread r2"
    using r_start_thread [OF assms(4)] r_init_thread [OF assms(3)] assms(1) by (auto simp: r_clean_def)
  then have "r_clean r3 \<and> cw_live w3 = others" using r_stop_owns [OF own assms(5)] by blast
  moreover have "cw_live w = others" using assms(1,2) by (simp add: r_owns_def r_clean_def)
  ultimately show ?thesis by simp
qed

definition demo_com :: com_results where
  "demo_com = \<lparr>co_initialize = 0, co_enumerator = 0, co_endpoint = 0, co_activate = 0, co_convert = 0,
     co_mixformat = 0, co_mixinit = 0, co_frames = 480, co_service = 0, co_event = True,
     co_stop_event = True, co_start = 0\<rparr>"

definition idle_renderer :: renderer where
  "idle_renderer = \<lparr>r_sampleRate = 0, r_channels = 0, r_bufferFrames = 0, r_renderCount = 0,
     r_silenceFillCount = 0, r_dropBaselineDurationMs = 0, r_protectMs = 50, r_maxSpeedPermille = 1250,
     r_stretchInputBuf = [], r_lastOutputSamples = [],
     r_recoveringFromSilence = False, r_currentSpeed = Fin 1, r_pEnumerator = None, r_pDevice = None,
     r_pAudioClient = None, r_pRenderClient = None, r_hEvent = None, r_hStopEvent = None,
     r_running = False, r_thread = False\<rparr>"

lemma idle_renderer_clean [simp]: "r_clean idle_renderer" "r_refs idle_renderer = []"
  by (simp_all add: idle_renderer_def r_clean_def r_refs_def)

theorem renderer_session_releases_all_witness:
  "\<exists>r1 w1 r2 r3 w3. r_init demo_com 48000 2 (idle_renderer, \<lparr>cw_next = 1, cw_live = [0]\<rparr>) = (True, r1, w1) \<and>
    cw_live w1 = [6, 5, 4, 3, 2, 1, 0] \<and> r_start demo_com r1 = (True, r2) \<and>
    r_stop (r2, w1) = (r3, w3) \<and> cw_live w3 = [0]"
proof -
  let ?w = "\<lparr>cw_next = 1, cw_live = [0]\<rparr>"
  obtain ok r1 w1 where i: "r_init demo_com 48000 2 (idle_renderer, ?w) = (ok, r1, w1)"
    by (metis prod_cases3)
  have v: "ok \<and> cw_live w1 = [6, 5, 4, 3, 2, 1, 0] \<and> \<not> r_running r1"
    using i by (auto simp: r_init_def r_finish_def acquire_def demo_com_def FAILED_def idle_renderer_def)
  then have s: "r_start demo_com r1 = (True, r1\<lparr>r_running := True, r_thread := True\<rparr>)"
    by (simp add: r_start_def demo_com_def FAILED_def)
  obtain r3 w3 where t: "r_stop (r1\<lparr>r_running := True, r_thread := True\<rparr>, w1) = (r3, w3)" by fastforce
  have "r_owns [0] idle_renderer ?w" by (simp add: r_owns_def cw_wf_def)
  then have "cw_live w3 = [0]"
    using renderer_session_releases_all [OF idle_renderer_clean(1) _ i s t, of "[0]"] by simp
  moreover have "r_init demo_com 48000 2 (idle_renderer, ?w) = (True, r1, w1)" using i v by simp
  ultimately show ?thesis using v s t by blast
qed

text \<open>
  C40: What the main loop does instead when \<open>init\<close> fails, trying again without \<open>stop\<close>,
  leaks: an enumerator and a device are live after a failed \<open>Activate\<close>, and the next \<open>init\<close>
  overwrites the only pointers to them. They stay live, and no later \<open>stop\<close> releases them.
\<close>

theorem renderer_retry_leaks:
  assumes "r_clean r" and "r_owns others r w" and "\<not> FAILED (co_initialize E)"
    and "\<not> FAILED (co_enumerator E)" and "\<not> FAILED (co_endpoint E)" and "FAILED (co_activate E)"
    and "r_init E sr ch (r, w) = (ok, r1, w1)" and "r_init E' sr' ch' (r1, w1) = (ok', r2, w2)"
    and "\<not> FAILED (co_initialize E')" and "r_stop (r2, w2) = (r3, w3)" and "\<not> FAILED (co_enumerator E')"
    and "\<not> FAILED (co_endpoint E')"
  shows "\<not> ok \<and> length (cw_live w3) = length (cw_live w) + 2"
proof -
  let ?n = "cw_next w"
  note clean = r_clean_refs [OF assms(1)]
  have live: "cw_live w = others" "list_all (\<lambda>i. i < ?n) others"
    using assms(1,2) by (auto simp: r_owns_def cw_wf_def r_clean_def)
  have fresh: "i \<notin> set others" if "?n \<le> i" for i using live(2) that by (auto simp: list_all_iff)
  have one: "\<not> ok" "cw_live w1 = Suc ?n # ?n # others" "cw_next w1 = Suc (Suc ?n)"
      "r_hEvent r1 = None" "r_hStopEvent r1 = None" "r_pRenderClient r1 = None"
    using assms(3-7) live clean by (auto simp: r_init_def acquire_def Let_def)
  have two: "\<exists>ns. cw_live w2 = ns @ cw_live w1 \<and> set ns \<subseteq> set (r_refs r2) \<and> (\<forall>i\<in>set (r_refs r2). Suc ?n < i)"
    using assms(8,9,11,12) one
    by (auto simp: r_init_def r_finish_def acquire_def r_refs_def Let_def split: if_splits)
  then obtain ns where ns: "cw_live w2 = ns @ cw_live w1" "set ns \<subseteq> set (r_refs r2)"
      "\<forall>i\<in>set (r_refs r2). Suc ?n < i" by blast
  have "filter (\<lambda>i. i \<notin> set (r_refs r2)) ns = []"
    using ns(2) by (auto simp: filter_empty_conv)
  moreover have "filter (\<lambda>i. i \<notin> set (r_refs r2)) (cw_live w1) = cw_live w1"
    using ns(3) live(2) by (fastforce simp: filter_id_conv one list_all_iff)
  ultimately have "cw_live w3 = cw_live w1"
    using r_stop_releases(1) [OF assms(10)] ns(1) by simp
  then show ?thesis using one live by simp
qed

theorem renderer_retry_leaks_witness:
  "\<exists>r1 w1 r2 w2 r3 w3.
    r_init (demo_com\<lparr>co_activate := 0x80004005\<rparr>) 48000 2 (idle_renderer, \<lparr>cw_next = 0, cw_live = []\<rparr>) = (False, r1, w1) \<and>
    r_init demo_com 48000 2 (r1, w1) = (True, r2, w2) \<and> r_stop (r2, w2) = (r3, w3) \<and> length (cw_live w3) = 2"
proof -
  let ?E = "demo_com\<lparr>co_activate := 0x80004005\<rparr>" and ?w = "\<lparr>cw_next = 0, cw_live = []\<rparr>"
  obtain ok r1 w1 where i: "r_init ?E 48000 2 (idle_renderer, ?w) = (ok, r1, w1)" by (metis prod_cases3)
  obtain ok' r2 w2 where i': "r_init demo_com 48000 2 (r1, w1) = (ok', r2, w2)" by (metis prod_cases3)
  obtain r3 w3 where t: "r_stop (r2, w2) = (r3, w3)" by fastforce
  have "r_owns [] idle_renderer ?w" by (simp add: r_owns_def cw_wf_def)
  then have "\<not> ok \<and> length (cw_live w3) = 2"
    using renderer_retry_leaks [OF idle_renderer_clean(1) _ _ _ _ _ i i' _ t, of "[]"]
    by (simp add: demo_com_def FAILED_def)
  moreover have ok'
    using i' by (auto simp: r_init_def r_finish_def demo_com_def FAILED_def Let_def split: prod.splits)
  ultimately show ?thesis using i i' t by auto
qed

end
