(* ===== verification/Renderer_Signal.thy ===== *)
theory Renderer_Signal
  imports Renderer_Lifecycle Ring_Buffer
begin

text \<open>
  The fades of \<open>wasapi_renderer.cpp\<close>: \<open>smoothStep\<close>, the fade-in after a silence, the fade-out into
  one, and the memory of the last samples. Buffers of interleaved samples are lists; sizes and indices are
  natural numbers, since none of them comes near \<open>2 ^ 64\<close>.
\<close>

section \<open>Loops over frames\<close>

text \<open>\<open>for (ch = 0; ch < channels; ++ch) buf[frame * channels + ch] = v ch buf\<close>\<close>

definition set_frame :: "nat \<Rightarrow> nat \<Rightarrow> (nat \<Rightarrow> pcm \<Rightarrow> 16 word) \<Rightarrow> pcm \<Rightarrow> pcm" where
  "set_frame c frame v = fold (\<lambda>ch buf. buf[frame * c + ch := v ch buf]) [0..<c]"

lemma nth_overwrite_out:
  assumes "i + length xs \<le> length buf" and "k < i \<or> i + length xs \<le> k"
  shows "overwrite i xs buf ! k = buf ! k"
  using assms by (auto simp: overwrite_def nth_append)

lemma overwrite_snoc:
  assumes "i + length xs < length buf"
  shows "(overwrite i xs buf)[i + length xs := y] = overwrite i (xs @ [y]) buf"
proof -
  obtain z zs where d: "drop (i + length xs) buf = z # zs"
    using assms by (metis Cons_nth_drop_Suc)
  then have "drop (Suc (i + length xs)) buf = zs" by (metis drop_Suc tl_drop list.sel(3))
  then show ?thesis using assms d by (simp add: overwrite_def list_update_append)
qed

lemma overwrite_append:
  assumes "i + length xs + length ys \<le> length buf"
  shows "overwrite (i + length xs) ys (overwrite i xs buf) = overwrite i (xs @ ys) buf"
  using assms by (simp add: overwrite_def min_absorb2 add.assoc add.commute [of "length ys"])

text \<open>The loop stores a whole frame if what it stores does not depend on what it has stored.\<close>

lemma set_frame_eq:
  assumes "(Suc frame) * c \<le> length buf"
    and "\<And>ch b. ch < c \<Longrightarrow> length b = length buf \<Longrightarrow>
      (\<And>i. i < frame * c \<or> frame * c + ch \<le> i \<Longrightarrow> b ! i = buf ! i) \<Longrightarrow> v ch b = w ch"
  shows "set_frame c frame v buf = overwrite (frame * c) (map w [0..<c]) buf"
proof -
  have "fold (\<lambda>ch buf. buf[frame * c + ch := v ch buf]) [0..<n] buf = overwrite (frame * c) (map w [0..<n]) buf"
    if "n \<le> c" for n
    using that
  proof (induction n)
    case 0
    then show ?case by simp
  next
    case (Suc n)
    have fits: "frame * c + n < length buf" using Suc(2) assms(1) by simp
    have "v n (overwrite (frame * c) (map w [0..<n]) buf) = w n"
    proof (rule assms(2))
      show "overwrite (frame * c) (map w [0..<n]) buf ! i = buf ! i"
        if "i < frame * c \<or> frame * c + n \<le> i" for i
        using that fits by (intro nth_overwrite_out) simp_all
    qed (use Suc(2) fits in simp_all)
    then show ?case
      using Suc overwrite_snoc [of "frame * c" "map w [0..<n]" buf] fits by simp
  qed
  then show ?thesis by (simp add: set_frame_def)
qed

lemma set_frame_const:
  "(Suc frame) * c \<le> length buf \<Longrightarrow>
    set_frame c frame (\<lambda>ch _. w ch) buf = overwrite (frame * c) (map w [0..<c]) buf"
  by (rule set_frame_eq) simp_all

lemma length_set_frame [simp]: "length (set_frame c frame v buf) = length buf"
proof -
  have "length (fold (\<lambda>ch buf. buf[frame * c + ch := v ch buf]) xs buf) = length buf" for xs
    by (induction xs arbitrary: buf) simp_all
  then show ?thesis by (simp add: set_frame_def)
qed

text \<open>A run of frames from \<open>base\<close> on.\<close>

lemma length_concat_frames [simp]: "length (concat (map (\<lambda>k. map (w k) [0..<c]) [a..<b])) = (b - a) * c"
  for w :: "nat \<Rightarrow> nat \<Rightarrow> 'a"
  by (induction b) (auto simp: Suc_diff_le not_less_eq_eq)

lemma frames_loop_eq:
  assumes "(base + n) * c \<le> length buf"
    and "\<And>k ch b. k < n \<Longrightarrow> ch < c \<Longrightarrow> length b = length buf \<Longrightarrow>
      (\<And>i. i < base * c \<or> (base + k) * c + ch \<le> i \<Longrightarrow> b ! i = buf ! i) \<Longrightarrow> v k ch b = w k ch"
  shows "fold (\<lambda>k. set_frame c (base + k) (v k)) [0..<n] buf =
    overwrite (base * c) (concat (map (\<lambda>k. map (w k) [0..<c]) [0..<n])) buf"
  using assms
proof (induction n)
  case 0
  then show ?case by simp
next
  case (Suc n)
  let ?ws = "concat (map (\<lambda>k. map (w k) [0..<c]) [0..<n])"
  let ?b = "overwrite (base * c) ?ws buf"
  have fits: "Suc (base + n) * c \<le> length buf" using Suc(2) by simp
  have len: "length ?ws = n * c" by simp
  then have lb: "length ?b = length buf" using fits by (simp add: add_mult_distrib)
  have IH: "fold (\<lambda>k. set_frame c (base + k) (v k)) [0..<n] buf = ?b"
    using Suc(2,3) by (intro Suc(1)) (simp_all add: add_mult_distrib)
  have "set_frame c (base + n) (v n) ?b = overwrite ((base + n) * c) (map (w n) [0..<c]) ?b"
  proof (rule set_frame_eq)
    fix ch b
    assume ch: "ch < c" and b: "length b = length ?b"
      and same: "\<And>i. i < (base + n) * c \<or> (base + n) * c + ch \<le> i \<Longrightarrow> b ! i = ?b ! i"
    show "v n ch b = w n ch"
    proof (rule Suc(3))
      fix i assume i: "i < base * c \<or> (base + n) * c + ch \<le> i"
      then have "b ! i = ?b ! i" using ch by (intro same) (auto simp: add_mult_distrib)
      also have "\<dots> = buf ! i"
        using i fits by (intro nth_overwrite_out) (auto simp: add_mult_distrib)
      finally show "b ! i = buf ! i" .
    qed (use ch b lb in simp_all)
  qed (use fits lb in simp)
  then show ?case
    using IH len fits overwrite_append [of "base * c" ?ws "map (w n) [0..<c]" buf]
    by (simp add: add_mult_distrib)
qed

section \<open>Gains\<close>

definition double_of_nat :: "nat \<Rightarrow> double" where
  "double_of_nat n = to_double (of_nat n)"

definition double_of_sample :: "16 word \<Rightarrow> double" where
  "double_of_sample s = Fin (of_int (sint s))"

text \<open>\<open>(int16_t)std::lrint(x)\<close>\<close>

definition sample_of_double :: "double \<Rightarrow> 16 word" where
  "sample_of_double x = word_of_int (lrint x)"

definition smoothStep :: "double \<Rightarrow> double" where
  "smoothStep x0 =
     (let x = dclamp x0 (Fin 0) (Fin 1)
      in dmul (dmul x x) (dsub (Fin 3) (dmul (Fin 2) x)))"

text \<open>The length of a fade, at most 5 ms: \<open>min(n, max(1, sampleRate_ / 200))\<close>.\<close>

definition fade_length :: "nat \<Rightarrow> renderer \<Rightarrow> nat" where
  "fade_length n r = min n (unat (max 1 (r_sampleRate r div 200)))"

definition fadeInAfterSilence :: "pcm \<Rightarrow> nat \<Rightarrow> renderer \<Rightarrow> pcm \<times> renderer" where
  "fadeInAfterSilence samples sampleCount r =
     (if \<not> r_recoveringFromSilence r \<or> r_channels r = 0 \<or> sampleCount = 0 then (samples, r)
      else let c = unat (r_channels r);
               frameCount = sampleCount div c;
               fadeFrames = fade_length frameCount r
           in (fold (\<lambda>frame.
                 let gain = smoothStep (ddiv (double_of_nat (frame + 1)) (double_of_nat fadeFrames))
                 in set_frame c frame (\<lambda>ch buf.
                      sample_of_double (dmul (double_of_sample (buf ! (frame * c + ch))) gain)))
                 [0..<fadeFrames] samples,
               r\<lparr>r_recoveringFromSilence := False\<rparr>))"

definition fillSmoothSilence :: "pcm \<Rightarrow> nat \<Rightarrow> nat \<Rightarrow> renderer \<Rightarrow> pcm \<times> renderer" where
  "fillSmoothSilence samples startSample totalSamples r =
     (if r_channels r = 0 \<or> totalSamples \<le> startSample then (samples, r)
      else let c = unat (r_channels r);
               startFrame = startSample div c;
               totalFrames = totalSamples div c;
               fillFrames = totalFrames - startFrame;
               fadeFrames = fade_length fillFrames r
           in (fold (\<lambda>frame.
                 let gain = (if frame < fadeFrames
                             then dsub (Fin 1) (smoothStep (ddiv (double_of_nat (frame + 1)) (double_of_nat fadeFrames)))
                             else Fin 0)
                 in set_frame c (startFrame + frame) (\<lambda>ch buf.
                      let start = (if c \<le> startSample then buf ! ((startFrame - 1) * c + ch)
                                   else if ch < length (r_lastOutputSamples r) then r_lastOutputSamples r ! ch
                                   else 0)
                      in if frame < fadeFrames then sample_of_double (dmul (double_of_sample start) gain) else 0))
                 [0..<fillFrames] samples,
               r\<lparr>r_recoveringFromSilence := True\<rparr>))"

definition rememberLastSamples :: "pcm \<Rightarrow> nat \<Rightarrow> renderer \<Rightarrow> renderer" where
  "rememberLastSamples samples sampleCount r =
     (if r_channels r = 0 \<or> sampleCount < unat (r_channels r) then r
      else let c = unat (r_channels r);
               lastFrame = sampleCount div c - 1;
               last = (if length (r_lastOutputSamples r) \<noteq> c then replicate c 0 else r_lastOutputSamples r)
           in r\<lparr>r_lastOutputSamples := fold (\<lambda>ch l. l[ch := samples ! (lastFrame * c + ch)]) [0..<c] last\<rparr>)"

subsection \<open>Gains lie between zero and one\<close>

lemma rnd53_powr_2 [simp]: "rnd53 2 = 2" "rnd53 3 = 3"
  using rnd53_of_int [of 2] rnd53_of_int [of 3] by simp_all

lemma rnd53_half: "rnd53 (1 / 2) = 1 / 2"
  using rnd53_powi [of "- 1"] by simp

lemma rnd53_0_1: "0 \<le> x \<Longrightarrow> x \<le> 1 \<Longrightarrow> 0 \<le> rnd53 x \<and> rnd53 x \<le> 1"
  using rnd53_between [of 0 1 x] by simp

lemma rnd53_double:
  assumes "rnd53 x = x" and "1 / 2 \<le> x" and "x \<le> 1"
  shows "rnd53 (3 - rnd53 (2 * x)) = 3 - 2 * x"
proof -
  have "\<exists>n. x = of_int n * 2 powi - 53"
    using assms(1,2) by (intro rnd53_multiple) (simp_all add: power_int_def)
  then obtain n where n: "x = of_int n * 2 powi - 53" by blast
  have "of_int n * 2 powi - 53 \<le> (1 :: rat)" and "(1 :: rat) / 2 \<le> of_int n * 2 powi - 53"
    using assms(2,3) n by simp_all
  then have "(of_int n :: rat) \<le> of_int (2 ^ 53)" and "(of_int (2 ^ 52) :: rat) \<le> of_int n"
    by (simp_all add: power_int_def field_simps)
  then have m: "n \<le> 2 ^ 53" "2 ^ 52 \<le> n" by (simp_all only: of_int_le_iff)
  have two: "2 * x = of_int n * 2 powi - 52" by (simp add: n power_int_def power_divide)
  have "rnd53 (2 * x) = 2 * x" unfolding two using m by (intro rnd53_exact) simp_all
  moreover have three: "3 - 2 * x = of_int (3 * 2 ^ 52 - n) * 2 powi - 52"
    by (simp add: n power_int_def power_divide field_simps)
  have "rnd53 (3 - 2 * x) = 3 - 2 * x" unfolding three using m by (intro rnd53_exact) simp_all
  ultimately show ?thesis by simp
qed

lemma rnd53_above_1: "rnd53 (1 + 1 / 2 ^ 53) = 1"
  by code_simp

text \<open>The cubic never exceeds one, rounding included.\<close>

lemma smooth_cubic:
  assumes "rnd53 x = x" and "0 \<le> x" and "x \<le> 1"
  shows "0 \<le> rnd53 (rnd53 (x * x) * rnd53 (3 - rnd53 (2 * x))) \<and>
    rnd53 (rnd53 (x * x) * rnd53 (3 - rnd53 (2 * x))) \<le> 1"
proof -
  let ?p = "rnd53 (x * x)" and ?u = "rnd53 (3 - rnd53 (2 * x))"
  have xx: "0 \<le> x * x" "x * x \<le> 1" using assms(2,3) by (simp_all add: mult_le_one)
  have tx: "0 \<le> rnd53 (2 * x)" "rnd53 (2 * x) \<le> 2"
    using rnd53_between [of 0 2 "2 * x"] assms(2,3) by simp_all
  then have u: "1 \<le> ?u" "?u \<le> 3" using rnd53_between [of 1 3 "3 - rnd53 (2 * x)"] by simp_all
  have p: "0 \<le> ?p" using xx(1) by (rule rnd53_nonneg)
  have low: "0 \<le> rnd53 (?p * ?u)" using p u by (intro rnd53_nonneg [of "?p * ?u"] mult_nonneg_nonneg) linarith+
  have "?p * ?u \<le> 1 + 1 / 2 ^ 53"
  proof (cases "x < 1 / 2")
    case True
    have "x * x \<le> 1 / 2 * (1 / 2)" using True assms(2) by (intro mult_mono) simp_all
    moreover have "rnd53 (1 / 4) = 1 / 4" by code_simp
    ultimately have "?p \<le> 1 / 4" using rnd53_mono [of "x * x" "1 / 4"] by simp
    then have "?p * ?u \<le> 1 / 4 * 3" using p u by (intro mult_mono) simp_all
    also have "\<dots> \<le> 1 + 1 / 2 ^ 53" by simp
    finally show ?thesis .
  next
    case False
    then have ueq: "?u = 3 - 2 * x" using rnd53_double [OF assms(1)] assms(3) by simp
    show ?thesis
    proof (cases "x = 1")
      case True
      then show ?thesis by simp
    next
      case x: False
      have lt: "x * x < 1" using assms(2,3) x by (metis le_less mult_le_one mult_cancel_right1 mult_left_le not_less order_antisym)
      then have "\<bar>?p - x * x\<bar> \<le> 2 powi (- 53) / 2"
        using xx by (intro rnd53_error) (simp_all add: power_int_def)
      then have "\<bar>?p - x * x\<bar> \<le> 1 / 2 ^ 54" by (simp add: power_int_def power_divide)
      then have "?p \<le> x * x + 1 / 2 ^ 54" unfolding abs_le_iff by linarith
      then have "?p * ?u \<le> (x * x + 1 / 2 ^ 54) * ?u" using u by (intro mult_right_mono) simp_all
      also have "\<dots> = x * x * (3 - 2 * x) + (3 - 2 * x) / 2 ^ 54"
        unfolding ueq by (simp add: distrib_right)
      also have "x * x * (3 - 2 * x) = 1 - (1 - x) * (1 - x) * (1 + 2 * x)" by (simp add: algebra_simps)
      also have "1 - (1 - x) * (1 - x) * (1 + 2 * x) + (3 - 2 * x) / 2 ^ 54 \<le> 1 + (3 - 2 * x) / 2 ^ 54"
        using assms(2) by simp
      also have "(3 - 2 * x) / 2 ^ 54 \<le> 2 / 2 ^ 54" using False by (intro divide_right_mono) simp_all
      finally show ?thesis by simp
    qed
  qed
  then have "rnd53 (?p * ?u) \<le> rnd53 (1 + 1 / 2 ^ 53)" by (rule rnd53_mono)
  then show ?thesis using low rnd53_above_1 by simp
qed

lemma smoothStep_unit:
  assumes "x = Fin a" and "rnd53 a = a"
  shows "\<exists>g. smoothStep x = Fin g \<and> 0 \<le> g \<and> g \<le> 1"
proof -
  define y where "y = (if a < 0 then 0 else if 1 < a then 1 else a)"
  have y: "rnd53 y = y" "0 \<le> y" "y \<le> 1" using assms(2) by (simp_all add: y_def)
  have c: "dclamp x (Fin 0) (Fin 1) = Fin y" by (simp add: assms(1) double_simps y_def)
  have big: "(3 :: rat) \<le> 2 ^ 1000"
    by (rule order_trans [of _ "2 ^ 2"]) (simp, rule power_increasing, simp_all)
  have yy: "0 \<le> y * y" "y * y \<le> 1" using y by (simp_all add: mult_le_one)
  have t: "0 \<le> rnd53 (2 * y)" "rnd53 (2 * y) \<le> 2"
    using rnd53_between [of 0 2 "2 * y"] y by simp_all
  have u: "1 \<le> rnd53 (3 - rnd53 (2 * y))" "rnd53 (3 - rnd53 (2 * y)) \<le> 3"
    using rnd53_between [of 1 3 "3 - rnd53 (2 * y)"] t by simp_all
  have p: "0 \<le> rnd53 (y * y)" "rnd53 (y * y) \<le> 1" using rnd53_0_1 [OF yy] by simp_all
  have pu: "0 \<le> rnd53 (y * y) * rnd53 (3 - rnd53 (2 * y))" "rnd53 (y * y) * rnd53 (3 - rnd53 (2 * y)) \<le> 1 * 3"
    using p u by (intro mult_nonneg_nonneg mult_mono; simp)+
  have small: "\<bar>y * y\<bar> \<le> 2 ^ 1000" "\<bar>2 * y\<bar> \<le> 2 ^ 1000" "\<bar>3 - rnd53 (2 * y)\<bar> \<le> 2 ^ 1000"
    "\<bar>rnd53 (y * y) * rnd53 (3 - rnd53 (2 * y))\<bar> \<le> 2 ^ 1000"
    using y yy t pu big by (simp_all add: abs_le_iff)
  have "smoothStep x = Fin (rnd53 (rnd53 (y * y) * rnd53 (3 - rnd53 (2 * y))))"
    by (simp only: smoothStep_def c Let_def double_ops small [THEN to_double_small])
  then show ?thesis using smooth_cubic [OF y] by simp
qed

text \<open>The position in a fade is an exact double of \<open>[0, 1]\<close>.\<close>

lemma double_of_nat_small: "n \<le> 2 ^ 53 \<Longrightarrow> double_of_nat n = Fin (of_nat n)"
proof -
  assume n: "n \<le> 2 ^ 53"
  then have "of_nat n \<le> (of_nat (2 ^ 53) :: rat)" by (simp only: of_nat_le_iff)
  also have "\<dots> \<le> 2 ^ 1000" using power_increasing [of 53 1000 "2 :: rat"] by simp
  finally have "\<bar>of_nat n :: rat\<bar> \<le> 2 ^ 1000" by simp
  then show ?thesis by (simp only: double_of_nat_def to_double_small rnd53_of_nat [OF n])
qed

lemma ddiv_position:
  assumes "0 < n" and "k \<le> n" and "n \<le> 2 ^ 53"
  shows "\<exists>a. ddiv (double_of_nat k) (double_of_nat n) = Fin a \<and> rnd53 a = a \<and> 0 \<le> a \<and> a \<le> 1 \<and> (k = n \<longrightarrow> a = 1)"
proof -
  have fin: "double_of_nat k = Fin (of_nat k)" "double_of_nat n = Fin (of_nat n)"
    using assms by (simp_all add: double_of_nat_small)
  have q: "0 \<le> of_nat k / (of_nat n :: rat)" "of_nat k / (of_nat n :: rat) \<le> 1" using assms by simp_all
  have "(1 :: rat) \<le> 2 ^ 1000" by simp
  then have "\<bar>of_nat k / (of_nat n :: rat)\<bar> \<le> 2 ^ 1000" using q by (simp only: abs_of_nonneg)
  then have "ddiv (double_of_nat k) (double_of_nat n) = Fin (rnd53 (of_nat k / of_nat n))"
    using assms(1) fin by (simp add: double_simps)
  then show ?thesis using rnd53_0_1 [OF q] assms(1) by auto
qed

text \<open>The gain of the \<open>k\<close>-th of \<open>n\<close> frames, counted from one.\<close>

definition gain :: "nat \<Rightarrow> nat \<Rightarrow> double" where
  "gain k n = smoothStep (ddiv (double_of_nat k) (double_of_nat n))"

lemma smoothStep_1: "smoothStep (Fin 1) = Fin 1"
  by code_simp

lemma gain_unit:
  assumes "0 < n" and "k \<le> n" and "n \<le> 2 ^ 53"
  shows "\<exists>g. gain k n = Fin g \<and> 0 \<le> g \<and> g \<le> 1"
  using ddiv_position [OF assms] smoothStep_unit by (fastforce simp: gain_def)

lemma gain_last: "0 < n \<Longrightarrow> n \<le> 2 ^ 53 \<Longrightarrow> gain n n = Fin 1"
  using ddiv_position [of n n] smoothStep_1 by (auto simp: gain_def)

subsection \<open>Scaled samples\<close>

text \<open>\<open>between a b x\<close>: the sample \<open>x\<close> lies between \<open>a\<close> and \<open>b\<close>, in either order.\<close>

definition between :: "16 word \<Rightarrow> 16 word \<Rightarrow> 16 word \<Rightarrow> bool" where
  "between a b x \<longleftrightarrow> min (sint a) (sint b) \<le> sint x \<and> sint x \<le> max (sint a) (sint b)"

lemma sint_sample: "- (2 ^ 15) \<le> sint (s :: 16 word)" "sint s < 2 ^ 15"
  using sint_ge [of s] sint_lt [of s] by simp_all

lemma sample_abs: "\<bar>of_int (sint (s :: 16 word)) :: rat\<bar> \<le> 2 ^ 15"
proof -
  have "\<bar>sint s\<bar> \<le> 2 ^ 15" using sint_sample [of s] by linarith
  then have "of_int \<bar>sint s\<bar> \<le> (of_int (2 ^ 15) :: rat)" by (simp only: of_int_le_iff)
  then show ?thesis by (simp only: of_int_abs of_int_power of_int_numeral)
qed

lemma sample_of_double_between:
  assumes "of_int (min (sint a) (sint b)) \<le> x" and "x \<le> of_int (max (sint a) (sint b))"
  shows "between a b (sample_of_double (Fin x))" and "sint (sample_of_double (Fin x)) = rne x"
proof -
  have r: "min (sint a) (sint b) \<le> rne x" "rne x \<le> max (sint a) (sint b)"
    using rne_between [OF assms] by simp_all
  have s: "- (2 ^ 15) \<le> rne x" "rne x < 2 ^ 15"
    using r sint_sample [of a] sint_sample [of b] by (simp_all add: min_def max_def split: if_splits)
  have "\<bar>rne x\<bar> < 2 ^ 31" using s by (simp add: abs_less_iff)
  then have "sample_of_double (Fin x) = word_of_int (rne x)" by (simp add: sample_of_double_def)
  moreover have "sint (word_of_int (rne x) :: 16 word) = rne x"
    using s by (simp add: sint_sbintrunc' signed_take_bit_int_eq_self)
  ultimately show "sint (sample_of_double (Fin x)) = rne x" and "between a b (sample_of_double (Fin x))"
    using r by (simp_all add: between_def)
qed

lemma rnd53_sample [simp]: "rnd53 (of_int (sint (s :: 16 word))) = of_int (sint s)"
  using sint_sample [of s] by (intro rnd53_of_int) simp

lemma rnd53_signed [simp]: "rnd53 (signed (s :: 16 word)) = signed s"
  using rnd53_sample [of s] by simp

lemma rne_signed [simp]: "rne (signed (s :: 16 word)) = sint s"
  using rne_of_int [of "sint s"] by simp

lemma scale_range: "0 \<le> g \<Longrightarrow> g \<le> 1 \<Longrightarrow> min 0 r \<le> r * g \<and> r * g \<le> max 0 (r :: rat)"
  using mult_left_mono [of g 1 r] mult_left_mono_neg [of g 1 r] mult_nonneg_nonneg [of r g]
    mult_nonpos_nonneg [of r g]
  by (cases "0 \<le> r") (simp_all add: min_def max_def)

text \<open>A gain in \<open>[0, 1]\<close> moves a sample towards zero.\<close>

lemma scaled_between:
  assumes "0 \<le> g" and "g \<le> 1"
  shows "between 0 s (sample_of_double (dmul (double_of_sample s) (Fin g)))"
proof -
  let ?s = "of_int (sint s) :: rat"
  have bs: "\<bar>?s\<bar> \<le> 2 ^ 15" by (rule sample_abs)
  have in_range: "of_int (min 0 (sint s)) \<le> ?s * g" "?s * g \<le> of_int (max 0 (sint s))"
    using scale_range [OF assms, of ?s] by (simp_all only: of_int_min of_int_max of_int_0)
  have ex: "rnd53 (of_int (min 0 (sint s))) = of_int (min 0 (sint s))"
    "rnd53 (of_int (max 0 (sint s))) = of_int (max 0 (sint s))"
    by (simp_all add: min_def max_def)
  have "\<bar>?s * g\<bar> \<le> 2 ^ 15 * 1" unfolding abs_mult using bs assms by (intro mult_mono) simp_all
  also have "\<dots> \<le> 2 ^ 1000" using power_increasing [of 15 1000 "2 :: rat"] by simp
  finally have "dmul (double_of_sample s) (Fin g) = Fin (rnd53 (?s * g))"
    by (simp only: double_of_sample_def double_ops to_double_small)
  then show ?thesis
    using sample_of_double_between(1) [of 0 s "rnd53 (?s * g)"] rnd53_between [OF ex in_range]
    by simp
qed

lemma scaled_1: "sample_of_double (dmul (double_of_sample s) (Fin 1)) = s"
proof -
  have bs: "\<bar>of_int (sint s) :: rat\<bar> \<le> 2 ^ 15" by (rule sample_abs)
  also have "\<dots> \<le> 2 ^ 1000" using power_increasing [of 15 1000 "2 :: rat"] by simp
  finally have "dmul (double_of_sample s) (Fin 1) = Fin (of_int (sint s))"
    by (simp add: double_of_sample_def double_ops to_double_small del: power_numeral)
  moreover have "sint (sample_of_double (Fin (of_int (sint s)))) = sint s"
    using sample_of_double_between(2) [of s s "of_int (sint s)"] by simp
  ultimately show ?thesis by (metis signed_word_eqI rne_signed)
qed

section \<open>The fades\<close>

text \<open>Where a sample of a run of frames lies.\<close>

lemma nth_concat_frames:
  assumes "i < n * c"
  shows "concat (map (\<lambda>k. map (w k) [0..<c]) [0..<n]) ! i = w (i div c) (i mod c)"
  using assms
proof (induction n)
  case (Suc n)
  show ?case
  proof (cases "i < n * c")
    case True
    then show ?thesis using Suc(1) by (simp add: nth_append)
  next
    case False
    then have r: "i - n * c < c" using Suc(2) by simp
    then have "i div c = n" "i mod c = i - n * c"
      using False by (metis add_diff_inverse_nat div_mult_self3 div_less add.right_neutral less_zeroE mult.commute neq0_conv,
        metis add_diff_inverse_nat mod_mult_self3 mod_less)
    then show ?thesis using False r by (simp add: nth_append)
  qed
qed simp

definition scale :: "double \<Rightarrow> 16 word \<Rightarrow> 16 word" where
  "scale g s = sample_of_double (dmul (double_of_sample s) g)"

lemma fade_length_le [simp]: "fade_length n r \<le> n"
  by (simp add: fade_length_def)

lemma fade_length_pos: "0 < n \<Longrightarrow> 0 < fade_length n r"
proof -
  have "1 \<le> max 1 (r_sampleRate r div 200)" by simp
  then have "1 \<le> unat (max 1 (r_sampleRate r div 200))" by (simp only: word_le_nat_alt unat_1)
  then show "0 < n \<Longrightarrow> 0 < fade_length n r" by (simp add: fade_length_def)
qed

lemma fade_length_small: "fade_length n r \<le> 2 ^ 53"
proof -
  have "unat (max 1 (r_sampleRate r div 200)) < 2 ^ 32"
    using unsigned_less [of "max 1 (r_sampleRate r div 200)", where ?'a = nat] by simp
  then show ?thesis by (simp add: fade_length_def)
qed

lemma div_bounds:
  fixes c :: nat
  assumes "0 < c"
  shows "m div c * c \<le> m" and "i < m div c * c \<Longrightarrow> i div c < m div c"
  using assms by (simp, metis div_less_iff_less_mult)

lemma gain_scale:
  assumes "0 < n" and "k \<le> n" and "n \<le> 2 ^ 53"
  shows "between 0 s (scale (gain k n) s)"
  using gain_unit [OF assms] scaled_between by (auto simp: scale_def)

text \<open>
  The fade-in after silence changes at most the first \<open>fade_length\<close> frames, and moves their
  samples towards zero; the last frame of the fade is unchanged.
\<close>

lemma fadeIn_nth:
  assumes "fadeInAfterSilence samples n r = (out, r')" and "n \<le> length samples" and "i < length samples"
  shows "length out = length samples" and "between 0 (samples ! i) (out ! i)"
    and "unat (r_channels r) * fade_length (n div unat (r_channels r)) r \<le> i + unat (r_channels r) \<Longrightarrow>
      out ! i = samples ! i"
proof -
  let ?c = "unat (r_channels r)"
  let ?n = "fade_length (n div ?c) r"
  let ?w = "\<lambda>k ch. scale (gain (k + 1) ?n) (samples ! (k * ?c + ch))"
  have self: "between 0 s s" for s by (simp add: between_def)
  have "length out = length samples \<and> between 0 (samples ! i) (out ! i) \<and>
    (?c * ?n \<le> i + ?c \<longrightarrow> out ! i = samples ! i)"
  proof (cases "\<not> r_recoveringFromSilence r \<or> r_channels r = 0 \<or> n = 0")
    case True
    then show ?thesis using assms(1) self by (auto simp: fadeInAfterSilence_def)
  next
    case False
    then have c: "0 < ?c" by (simp add: unat_gt_0)
    have "?n * ?c \<le> n div ?c * ?c" by (intro mult_right_mono) simp_all
    then have fits: "?n * ?c \<le> length samples" using div_bounds(1) [OF c, of n] assms(2) by linarith
    have "out = fold (\<lambda>k. set_frame ?c (0 + k) (\<lambda>ch b. scale (gain (k + 1) ?n) (b ! (k * ?c + ch)))) [0..<?n] samples"
      using assms(1) False by (auto simp: fadeInAfterSilence_def Let_def gain_def scale_def)
    also have "\<dots> = overwrite (0 * ?c) (concat (map (\<lambda>k. map (?w k) [0..<?c]) [0..<?n])) samples"
      using fits by (intro frames_loop_eq) simp_all
    finally have out: "out = overwrite 0 (concat (map (\<lambda>k. map (?w k) [0..<?c]) [0..<?n])) samples" by simp
    have len: "length out = length samples" unfolding out using fits by (intro length_overwrite) simp
    show ?thesis
    proof (cases "i < ?n * ?c")
      case True
      then have k: "i div ?c < ?n" using c by (simp add: div_less_iff_less_mult)
      have o: "out ! i = scale (gain (i div ?c + 1) ?n) (samples ! i)"
        unfolding out using True fits assms(3) by (simp add: nth_overwrite nth_concat_frames)
      have "out ! i = samples ! i" if "?c * ?n \<le> i + ?c"
      proof -
        have "?n * ?c \<le> i + 1 * ?c" using that by (simp add: mult.commute)
        then have "(?n - 1) * ?c \<le> i" by (simp add: diff_mult_distrib)
        then have "?n - 1 \<le> i div ?c" using c by (simp add: less_eq_div_iff_mult_less_eq)
        then have "i div ?c + 1 = ?n" using k by linarith
        then show ?thesis unfolding o using k fade_length_small by (simp add: gain_last scale_def scaled_1)
      qed
      moreover have "between 0 (samples ! i) (out ! i)"
        unfolding o using k fade_length_small by (intro gain_scale) simp_all
      ultimately show ?thesis using len by blast
    next
      case False
      then have "out ! i = samples ! i" unfolding out using fits by (intro nth_overwrite_out) simp_all
      then show ?thesis using len self by simp
    qed
  qed
  then show "length out = length samples" and "between 0 (samples ! i) (out ! i)"
    and "?c * ?n \<le> i + ?c \<Longrightarrow> out ! i = samples ! i" by blast+
qed

text \<open>
  Filling up with silence: the samples already there are kept, the rest fades from the last
  sample of each channel to zero, which the last frame of the fade reaches.
\<close>

definition fade_out :: "nat \<Rightarrow> nat \<Rightarrow> double" where
  "fade_out k n = dsub (Fin 1) (gain k n)"

lemma fade_out_unit:
  assumes "0 < n" and "k \<le> n" and "n \<le> 2 ^ 53"
  shows "\<exists>g. fade_out k n = Fin g \<and> 0 \<le> g \<and> g \<le> 1" and "k = n \<Longrightarrow> fade_out k n = Fin 0"
proof -
  obtain g where g: "gain k n = Fin g" "0 \<le> g" "g \<le> 1" using gain_unit [OF assms] by blast
  have "(1 :: rat) \<le> 2 ^ 1000" by simp
  then have "\<bar>1 - g\<bar> \<le> 2 ^ 1000" using g by (simp only: abs_of_nonneg)
  then have f: "fade_out k n = Fin (rnd53 (1 - g))" by (simp add: fade_out_def g double_ops to_double_small del: power_numeral)
  then show "\<exists>g. fade_out k n = Fin g \<and> 0 \<le> g \<and> g \<le> 1" using rnd53_0_1 [of "1 - g"] g by simp
  show "k = n \<Longrightarrow> fade_out k n = Fin 0" using f g gain_last [of n] assms by simp
qed

lemma scale_0 [simp]: "scale (Fin 0) s = 0"
  by (simp add: scale_def double_of_sample_def double_ops to_double_small sample_of_double_def)

text \<open>The sample of a channel that the silence continues.\<close>

definition held_sample :: "pcm \<Rightarrow> nat \<Rightarrow> renderer \<Rightarrow> nat \<Rightarrow> 16 word" where
  "held_sample samples startSample r ch =
     (let c = unat (r_channels r)
      in if c \<le> startSample then samples ! ((startSample div c - 1) * c + ch)
         else if ch < length (r_lastOutputSamples r) then r_lastOutputSamples r ! ch else 0)"

lemma fill_eq:
  assumes "fillSmoothSilence samples start need r = (out, r')" and "need \<le> length samples"
    and "r_channels r \<noteq> 0" and "start < need"
  defines "c \<equiv> unat (r_channels r)"
  defines "n \<equiv> need div c - start div c"
  defines "m \<equiv> fade_length n r"
  shows "out = overwrite (start div c * c) (concat (map (\<lambda>k. map (\<lambda>ch.
      if k < m then scale (fade_out (k + 1) m) (held_sample samples start r ch) else 0) [0..<c]) [0..<n])) samples"
    and "r' = r\<lparr>r_recoveringFromSilence := True\<rparr>" and "(start div c + n) * c \<le> length samples"
proof -
  have c: "0 < c" using assms(3) by (simp add: c_def unat_gt_0)
  have "start div c \<le> need div c" using assms(4) by (simp add: div_le_mono)
  then have "start div c + n = need div c" by (simp add: n_def)
  then show fits: "(start div c + n) * c \<le> length samples"
    using order_trans [OF div_bounds(1) [OF c, of need] assms(2)] by simp
  let ?v = "\<lambda>k ch b. let s = if c \<le> start then b ! ((start div c - 1) * c + ch)
      else if ch < length (r_lastOutputSamples r) then r_lastOutputSamples r ! ch else 0
    in if k < m then scale (if k < m then fade_out (k + 1) m else Fin 0) s else 0"
  let ?w = "\<lambda>k ch. if k < m then scale (fade_out (k + 1) m) (held_sample samples start r ch) else 0"
  have "out = fold (\<lambda>k. set_frame c (start div c + k) (?v k)) [0..<n] samples"
    using assms(1,3,4)
    unfolding fillSmoothSilence_def Let_def c_def [symmetric] n_def [symmetric] m_def [symmetric]
      fade_out_def gain_def scale_def
    by simp
  also have "\<dots> = overwrite (start div c * c) (concat (map (\<lambda>k. map (?w k) [0..<c]) [0..<n])) samples"
  proof (rule frames_loop_eq)
    fix k ch b
    assume ch: "ch < c" and same: "\<And>i. i < start div c * c \<or> (start div c + k) * c + ch \<le> i \<Longrightarrow> b ! i = samples ! i"
    have "b ! ((start div c - 1) * c + ch) = samples ! ((start div c - 1) * c + ch)" if "c \<le> start"
    proof (intro same disjI1)
      have "1 \<le> start div c" using that c by (simp add: div_greater_zero_iff Suc_le_eq)
      then have "(start div c - 1) * c + c = start div c * c" by (simp add: diff_mult_distrib)
      then show "(start div c - 1) * c + ch < start div c * c" using ch by linarith
    qed
    then show "?v k ch b = ?w k ch" by (simp add: held_sample_def c_def [symmetric] Let_def)
  qed (rule fits)
  finally show "out = overwrite (start div c * c) (concat (map (\<lambda>k. map (?w k) [0..<c]) [0..<n])) samples" .
  show "r' = r\<lparr>r_recoveringFromSilence := True\<rparr>"
    using assms(1,3,4) by (auto simp: fillSmoothSilence_def Let_def)
qed

lemma fill_nth:
  assumes "fillSmoothSilence samples start need r = (out, r')" and "need \<le> length samples"
    and "r_channels r \<noteq> 0" and "start < need"
  defines "c \<equiv> unat (r_channels r)"
  defines "n \<equiv> need div c - start div c"
  shows "length out = length samples"
    and "i < start div c * c \<or> need div c * c \<le> i \<Longrightarrow> out ! i = samples ! i"
    and "start div c * c \<le> i \<Longrightarrow> i < need div c * c \<Longrightarrow> between 0 (held_sample samples start r (i mod c)) (out ! i)"
    and "start div c * c + fade_length n r * c \<le> i + c \<Longrightarrow> i < need div c * c \<Longrightarrow> start div c * c \<le> i \<Longrightarrow>
      out ! i = 0"
proof -
  let ?b = "start div c" and ?m = "fade_length n r"
  let ?w = "\<lambda>k ch. if k < ?m then scale (fade_out (k + 1) ?m) (held_sample samples start r ch) else 0"
  let ?ws = "concat (map (\<lambda>k. map (?w k) [0..<c]) [0..<n])"
  note F = fill_eq [OF assms(1-4), folded c_def, folded n_def]
  have out: "out = overwrite (?b * c) ?ws samples" by (rule F(1))
  have c: "0 < c" using assms(3) by (simp add: c_def unat_gt_0)
  have bn: "?b + n = need div c" using assms(4) by (simp add: n_def div_le_mono)
  have fits: "?b * c + length ?ws \<le> length samples" using F(3) by (simp add: add_mult_distrib)
  have hi: "?b * c + length ?ws = need div c * c" by (simp add: add_mult_distrib flip: bn)
  show "length out = length samples" unfolding out using fits by (rule length_overwrite)
  show "i < ?b * c \<or> need div c * c \<le> i \<Longrightarrow> out ! i = samples ! i"
    unfolding out using fits hi by (intro nth_overwrite_out) auto
  have at: "out ! i = ?w (i div c - ?b) (i mod c)" and k: "i div c - ?b < n"
    if i: "?b * c \<le> i" "i < need div c * c"
  proof -
    have j: "i - ?b * c < n * c" using i hi by simp
    obtain d where d: "i = ?b * c + d" using i(1) by (metis le_Suc_ex)
    then have "(i - ?b * c) div c = i div c - ?b" "(i - ?b * c) mod c = i mod c" using c by simp_all
    then show "out ! i = ?w (i div c - ?b) (i mod c)"
      unfolding out using fits hi i j by (subst nth_overwrite) (simp_all add: nth_concat_frames)
    show "i div c - ?b < n" using j d c by (simp add: div_less_iff_less_mult)
  qed
  show "between 0 (held_sample samples start r (i mod c)) (out ! i)"
    if "?b * c \<le> i" "i < need div c * c"
  proof (cases "i div c - ?b < ?m")
    case True
    then obtain g where "fade_out (i div c - ?b + 1) ?m = Fin g" "0 \<le> g" "g \<le> 1"
      using fade_out_unit(1) [of ?m "i div c - ?b + 1"] fade_length_small by force
    then show ?thesis using True scaled_between by (simp add: at [OF that] scale_def)
  qed (simp add: at [OF that] between_def)
  show "out ! i = 0" if late: "?b * c + ?m * c \<le> i + c" and i: "i < need div c * c" "?b * c \<le> i"
  proof (cases "i div c - ?b < ?m")
    case True
    have "(?b + ?m - 1) * c \<le> i"
      using late by (simp add: diff_mult_distrib add_mult_distrib)
    then have "?b + ?m - 1 \<le> i div c" using c by (simp add: less_eq_div_iff_mult_less_eq)
    then have "i div c - ?b + 1 = ?m" using True by linarith
    then show ?thesis using True fade_out_unit(2) [of ?m ?m] fade_length_small by (simp add: at [OF i(2,1)])
  qed (simp add: at [OF i(2,1)])
qed

text \<open>The memory of the last frame.\<close>

lemma remember_eq:
  assumes "0 < unat (r_channels r)" and "unat (r_channels r) \<le> n"
  shows "rememberLastSamples samples n r = r\<lparr>r_lastOutputSamples :=
    map (\<lambda>ch. samples ! ((n div unat (r_channels r) - 1) * unat (r_channels r) + ch)) [0..<unat (r_channels r)]\<rparr>"
proof -
  let ?c = "unat (r_channels r)"
  have loop: "fold (\<lambda>ch l. l[ch := f ch]) [0..<k] l = map f [0..<k] @ drop k l" if "k \<le> length l" for f l k
    using that
  proof (induction k)
    case (Suc k)
    then have "drop k l = l ! k # drop (Suc k) l" by (simp add: Cons_nth_drop_Suc)
    then show ?case using Suc by (simp add: list_update_append)
  qed simp
  have "r_channels r \<noteq> 0" using assms(1) by auto
  then show ?thesis using assms by (auto simp: rememberLastSamples_def Let_def loop)
qed

end
