(* ===== verification/Time_Compression.thy ===== *)
theory Time_Compression
  imports Renderer_Signal
begin

text \<open>
  Playing faster at the same pitch (\<open>wasapi_renderer.cpp\<close>): \<open>findSmoothSkip\<close> looks for the best
  place to leave samples out, \<open>renderPitchPreserved\<close> joins what is before and after with a cross-fade.
\<close>

section \<open>The search for a place to cut\<close>

text \<open>\<open>for (frame = 0; frame < fadeFrames; frame += step)\<close>, with the sum \<open>score\<close> as a \<open>uint64_t\<close>.\<close>

function score_loop :: "(nat \<Rightarrow> u64 \<Rightarrow> u64) \<Rightarrow> nat \<Rightarrow> nat \<Rightarrow> nat \<Rightarrow> u64 \<Rightarrow> u64" where
  "score_loop body fadeFrames step frame score =
     (if frame < fadeFrames \<and> 0 < step then score_loop body fadeFrames step (frame + step) (body frame score)
      else score)"
  by pat_completeness auto
termination
  by (relation "measure (\<lambda>(_, fadeFrames, _, frame, _). fadeFrames - frame)") auto

declare score_loop.simps [simp del]

definition skip_score :: "pcm \<Rightarrow> nat \<Rightarrow> nat \<Rightarrow> nat \<Rightarrow> nat \<Rightarrow> nat \<Rightarrow> u64" where
  "skip_score buf c skipFrames fadeFrames step start =
     score_loop (\<lambda>frame score0.
       let leftFrame = start + frame; rightFrame = start + skipFrames + frame
       in fold (\<lambda>ch score.
            let a = sint (buf ! (leftFrame * c + ch)); b = sint (buf ! (rightFrame * c + ch))
            in score + of_int \<bar>a - b\<bar>) [0..<c] score0)
       fadeFrames step 0 0"

definition findSmoothSkip :: "nat \<Rightarrow> nat \<Rightarrow> nat \<Rightarrow> renderer \<Rightarrow> nat" where
  "findSmoothSkip inputFrames skipFrames fadeFrames r =
     (if r_channels r = 0 \<or> inputFrames \<le> skipFrames + fadeFrames then 0
      else let maxStart = inputFrames - skipFrames - fadeFrames;
               step = max 1 (fadeFrames div 32)
           in snd (fold (\<lambda>start (bestScore, bestStart).
                let score = skip_score (r_stretchInputBuf r) (unat (r_channels r)) skipFrames fadeFrames step start
                in if score < bestScore then (score, start) else (bestScore, bestStart))
              [0..<maxStart + 1] (- 1, maxStart div 2)))"

section \<open>Time compression\<close>

text \<open>\<open>ringBuffer_->read\<close> into the front of an array; returns the number of samples.\<close>

definition read_into :: "nat \<Rightarrow> pcm \<Rightarrow> ring_buffer \<Rightarrow> nat \<times> pcm \<times> ring_buffer" where
  "read_into n buf rb = (let (out, rb') = rb_get n rb in (length out, overwrite 0 out buf, rb'))"

text \<open>
  A loop over source and output frames with both bounds,
  \<open>for (; frame < limit && outFrame < outputFrames; ++frame, ++outFrame)\<close>.
\<close>

function out_loop :: "(nat \<Rightarrow> nat \<Rightarrow> pcm \<Rightarrow> pcm) \<Rightarrow> nat \<Rightarrow> nat \<Rightarrow> nat \<Rightarrow> nat \<Rightarrow> pcm \<Rightarrow> nat \<times> pcm" where
  "out_loop body limit outputFrames frame outFrame out =
     (if frame < limit \<and> outFrame < outputFrames
      then out_loop body limit outputFrames (frame + 1) (outFrame + 1) (body frame outFrame out)
      else (outFrame, out))"
  by pat_completeness auto
termination
  by (relation "measure (\<lambda>(_, limit, _, frame, _, _). limit - frame)") auto

declare out_loop.simps [simp del]

definition copy_frame :: "nat \<Rightarrow> pcm \<Rightarrow> nat \<Rightarrow> nat \<Rightarrow> pcm \<Rightarrow> pcm" where
  "copy_frame c src frame outFrame = set_frame c outFrame (\<lambda>ch _. src ! (frame * c + ch))"

text \<open>\<open>a + (b - a) * t\<close>, rounded to a sample.\<close>

definition mix :: "16 word \<Rightarrow> 16 word \<Rightarrow> double \<Rightarrow> 16 word" where
  "mix a b t = sample_of_double
     (dadd (double_of_sample a) (dmul (dsub (double_of_sample b) (double_of_sample a)) t))"

definition splice :: "nat \<Rightarrow> nat \<Rightarrow> nat \<Rightarrow> nat \<Rightarrow> nat \<Rightarrow> nat \<Rightarrow> pcm \<Rightarrow> pcm \<Rightarrow> nat \<times> pcm" where
  "splice c gotFrames outputFrames skipStart skipFrames fadeFrames src output =
     (let (o1, out1) = out_loop (copy_frame c src) skipStart outputFrames 0 0 output;
          (o2, out2) = out_loop (\<lambda>frame outFrame.
              let t = smoothStep (ddiv (double_of_nat (frame + 1)) (double_of_nat (fadeFrames + 1)));
                  leftFrame = skipStart + frame; rightFrame = skipStart + skipFrames + frame
              in set_frame c outFrame (\<lambda>ch _. mix (src ! (leftFrame * c + ch)) (src ! (rightFrame * c + ch)) t))
            fadeFrames outputFrames 0 o1 out1
      in out_loop (copy_frame c src) gotFrames outputFrames (skipStart + skipFrames + fadeFrames) o2 out2)"

text \<open>
  The number of samples delivered, the output array, the renderer and the ring buffer. The
  result is \<open>None\<close> only where the conversion to \<open>size_t\<close> would be undefined.
\<close>

definition renderPitchPreserved ::
    "pcm \<Rightarrow> nat \<Rightarrow> double \<Rightarrow> renderer \<times> ring_buffer \<Rightarrow> (nat \<times> pcm \<times> renderer \<times> ring_buffer) option" where
  "renderPitchPreserved output outputSamples speed0 = (\<lambda>(r, rb).
     let c = unat (r_channels r) in
     if r_channels r = 0 \<or> outputSamples < c then Some (0, output, r, rb)
     else let outputFrames = outputSamples div c;
              availableFrames = unat (rb_availableToRead rb) div c
     in if outputFrames = 0 \<or> availableFrames = 0 then Some (0, output, r, rb)
     else let speed = dclamp speed0 (Fin 1) (ddiv (double_of_nat (unat (r_maxSpeedPermille r))) (Fin 1000))
     in if dle speed (to_double (1001 / 1000)) \<or> availableFrames \<le> outputFrames
        then let (n, out, rb') = read_into (min outputFrames availableFrames * c) output rb in Some (n, out, r, rb')
     else case size_cast (dceil (dmul (double_of_nat outputFrames) speed)) of
       None \<Rightarrow> None
     | Some wanted \<Rightarrow>
       let targetInputFrames = (if wanted < outputFrames then outputFrames
                                else if availableFrames < wanted then availableFrames else wanted);
           skipFrames = targetInputFrames - outputFrames
       in if skipFrames = 0
          then let (n, out, rb') = read_into outputSamples output rb in Some (n, out, r, rb')
       else let inputSamples = targetInputFrames * c;
                buf = (if length (r_stretchInputBuf r) < inputSamples
                       then vec_resize inputSamples 0 (r_stretchInputBuf r) else r_stretchInputBuf r);
                (gotSamples, src, rb') = read_into inputSamples buf rb;
                r' = r\<lparr>r_stretchInputBuf := src\<rparr>;
                gotFrames = gotSamples div c
       in if gotFrames \<le> outputFrames
          then Some (gotSamples, overwrite 0 (take gotSamples src) output, r', rb')
       else let skipFrames = gotFrames - outputFrames;
                fadeFrames = min (min (unat (max 1 (r_sampleRate r div 500))) (outputFrames div 4))
                                 (gotFrames - skipFrames)
       in if fadeFrames < 2 \<or> gotFrames \<le> skipFrames + fadeFrames
          then Some (outputSamples, overwrite 0 (take outputSamples src) output, r', rb')
       else let skipStart = findSmoothSkip gotFrames skipFrames fadeFrames r';
                (outFrame, out) = splice c gotFrames outputFrames skipStart skipFrames fadeFrames src output
       in Some (outFrame * c, out, r', rb'))"

section \<open>The search finds the first best place\<close>

text \<open>The cost of a cut as a mathematical sum, over every \<open>step\<close>-th frame of the fade.\<close>

definition cut_cost :: "pcm \<Rightarrow> nat \<Rightarrow> nat \<Rightarrow> nat \<Rightarrow> nat \<Rightarrow> nat \<Rightarrow> int" where
  "cut_cost buf c skip fade step start =
     (\<Sum>k<(fade + step - 1) div step. \<Sum>ch<c.
        \<bar>sint (buf ! ((start + k * step) * c + ch)) - sint (buf ! ((start + skip + k * step) * c + ch))\<bar>)"

lemma score_loop_eq:
  assumes "0 < step" and "\<And>f s. body f s = s + of_int (g f)"
  shows "score_loop body fade step frame score =
    score + of_int (\<Sum>k<(fade - frame + step - 1) div step. g (frame + k * step))"
  using assms
proof (induction body fade step frame score rule: score_loop.induct)
  case (1 body fade step frame score)
  show ?case
  proof (cases "frame < fade")
    case False
    then show ?thesis using 1(2) by (simp add: score_loop.simps)
  next
    case True
    let ?n = "(fade - (frame + step) + step - 1) div step"
    have n: "(fade - frame + step - 1) div step = Suc ?n"
    proof (cases "frame + step < fade")
      case lt: True
      then have "fade - (frame + step) + step - 1 = fade - frame - 1" and "fade - frame + step - 1 = (fade - frame - 1) + step"
        by simp_all
      then show ?thesis using 1(2) by (simp only: div_add_self2)
    next
      case False
      have "?n = 0" using False 1(2) by simp
      moreover have "(fade - frame + step - 1) div step = 1"
        using False True 1(2) by (intro div_nat_eqI) simp_all
      ultimately show ?thesis by simp
    qed
    have "score_loop body fade step frame score = score_loop body fade step (frame + step) (body frame score)"
      using True 1(2) by (subst score_loop.simps) simp
    also have "\<dots> = body frame score + of_int (\<Sum>k<?n. g (frame + step + k * step))"
      using True 1(1)[OF _ 1(2) 1(3)] 1(2) by simp
    also have "(\<Sum>k<?n. g (frame + step + k * step)) = (\<Sum>k<?n. g (frame + Suc k * step))"
      by (simp add: add.assoc)
    finally show ?thesis unfolding n sum.lessThan_Suc_shift 1(3) by simp
  qed
qed

lemma skip_score_eq:
  assumes "0 < step"
  shows "skip_score buf c skip fade step start = of_int (cut_cost buf c skip fade step start)"
proof -
  let ?d = "\<lambda>f ch. \<bar>sint (buf ! ((start + f) * c + ch)) - sint (buf ! ((start + skip + f) * c + ch))\<bar>"
  have inner: "fold (\<lambda>ch score. score + of_int (h ch)) [0..<n] s = s + of_int (\<Sum>ch<n. h ch)"
    for h n and s :: u64
    by (induction n) (simp_all add: add.assoc)
  show ?thesis
    unfolding skip_score_def Let_def inner
    using score_loop_eq [OF assms, where frame = 0 and score = 0 and fade = fade and g = "\<lambda>f. \<Sum>ch<c. ?d f ch"]
    by (simp add: cut_cost_def)
qed
lemma sample_distance: "0 \<le> \<bar>sint a - sint b\<bar> \<and> \<bar>sint a - sint b\<bar> \<le> 65535" for a b :: "16 word"
  using sint_sample [of a] sint_sample [of b] by (simp add: abs_le_iff)

lemma cut_cost_bounds:
  assumes "c < 256" and "fade < 2 ^ 32"
  shows "0 \<le> cut_cost buf c skip fade step start" and "cut_cost buf c skip fade step start < 2 ^ 64 - 1"
proof -
  let ?n = "(fade + step - 1) div step"
  show "0 \<le> cut_cost buf c skip fade step start"
    by (auto simp: cut_cost_def intro!: sum_nonneg)
  have "?n \<le> fade"
  proof (cases "step = 0 \<or> fade = 0")
    case True
    then show ?thesis by (cases "step = 0") simp_all
  next
    case False
    then have "fade + step - 1 = fade - 1 + step" by simp
    then have "?n = (fade - 1 + step) div step" by (simp only:)
    then have "?n = Suc ((fade - 1) div step)" using False div_add_self2 [of step "fade - 1"] by linarith
    also have "\<dots> \<le> Suc (fade - 1)" using div_le_dividend [of "fade - 1" step] by (simp only: Suc_le_mono)
    finally show ?thesis using False by simp
  qed
  have "cut_cost buf c skip fade step start \<le> (\<Sum>k<?n. \<Sum>ch<c. 65535)"
    unfolding cut_cost_def using sample_distance by (intro sum_mono) simp
  also have "\<dots> = int ?n * (int c * 65535)" by simp
  also have "\<dots> \<le> 2 ^ 32 * (256 * 65535)"
    using assms \<open>?n \<le> fade\<close> by (intro mult_mono) simp_all
  finally show "cut_cost buf c skip fade step start < 2 ^ 64 - 1" by simp
qed

text \<open>A loop that keeps the first strict minimum of \<open>f\<close> so far.\<close>

lemma first_minimum:
  fixes f :: "nat \<Rightarrow> 'a::linorder"
  assumes "\<forall>i<Suc n. f i < hi"
  shows "\<exists>k\<le>n. fold (\<lambda>i (best, pos). if f i < best then (f i, i) else (best, pos)) [0..<Suc n] (hi, d) = (f k, k) \<and>
    (\<forall>i\<le>n. f k \<le> f i) \<and> (\<forall>i<k. f k < f i)"
  using assms
proof (induction n)
  case 0
  then show ?case by simp
next
  case (Suc n)
  obtain k where k: "k \<le> n" "\<forall>i\<le>n. f k \<le> f i" "\<forall>i<k. f k < f i"
    and run: "fold (\<lambda>i (best, pos). if f i < best then (f i, i) else (best, pos)) [0..<Suc n] (hi, d) = (f k, k)"
    using Suc by auto
  have step: "fold (\<lambda>i (best, pos). if f i < best then (f i, i) else (best, pos)) [0..<Suc (Suc n)] (hi, d) =
      (if f (Suc n) < f k then (f (Suc n), Suc n) else (f k, k))"
    using run by simp
  show ?case
  proof (cases "f (Suc n) < f k")
    case True
    then have "\<forall>i\<le>Suc n. f (Suc n) \<le> f i" "\<forall>i<Suc n. f (Suc n) < f i"
      using k(2) by (auto simp: le_Suc_eq less_Suc_eq_le)
    then show ?thesis using True step by (intro exI [of _ "Suc n"]) simp
  next
    case False
    then have "\<forall>i\<le>Suc n. f k \<le> f i" using k(2) by (auto simp: le_Suc_eq)
    then show ?thesis using False step k by (intro exI [of _ k]) simp
  qed
qed

lemma score_less_iff:
  fixes a b :: int
  assumes "0 \<le> a" "a < 2 ^ 64" "0 \<le> b" "b < 2 ^ 64"
  shows "(of_int a :: u64) < of_int b \<longleftrightarrow> a < b" and "(of_int a :: u64) \<le> of_int b \<longleftrightarrow> a \<le> b"
  using assms by (simp_all add: word_less_def word_le_def uint_word_of_int)

lemma findSmoothSkip_least:
  assumes "r_channels r \<noteq> 0" and "skip + fade < inputFrames" and "fade < 2 ^ 32"
  defines "cost \<equiv> cut_cost (r_stretchInputBuf r) (unat (r_channels r)) skip fade (max 1 (fade div 32))"
  shows "findSmoothSkip inputFrames skip fade r \<le> inputFrames - skip - fade"
    and "i \<le> inputFrames - skip - fade \<Longrightarrow> cost (findSmoothSkip inputFrames skip fade r) \<le> cost i"
    and "i < findSmoothSkip inputFrames skip fade r \<Longrightarrow> cost (findSmoothSkip inputFrames skip fade r) < cost i"
proof -
  let ?c = "unat (r_channels r)" and ?step = "max 1 (fade div 32)" and ?max = "inputFrames - skip - fade"
  let ?f = "\<lambda>i. skip_score (r_stretchInputBuf r) ?c skip fade ?step i"
  have f: "?f i = of_int (cost i)" for i by (simp add: cost_def skip_score_eq)
  have "?c < 256" using unsigned_less [of "r_channels r", where ?'a = nat] by simp
  note B = cut_cost_bounds [OF this assms(3), folded cost_def]
  have b: "0 \<le> cost i" "cost i < 2 ^ 64 - 1" for i unfolding cost_def using B cost_def by simp_all
  have "?f i < - 1" for i
  proof -
    have "?f i < of_int (2 ^ 64 - 1)"
      unfolding f using b [of i] by (subst score_less_iff(1)) simp_all
    also have "of_int (2 ^ 64 - 1) = (- 1 :: u64)" by simp
    finally show ?thesis .
  qed
  then obtain k where k: "k \<le> ?max" "\<forall>i\<le>?max. ?f k \<le> ?f i" "\<forall>i<k. ?f k < ?f i"
    and run: "fold (\<lambda>i (best, pos). if ?f i < best then (?f i, i) else (best, pos)) [0..<Suc ?max] (- 1, ?max div 2) = (?f k, k)"
    using first_minimum [of ?max ?f "- 1" "?max div 2"] by blast
  have nle: "\<not> inputFrames \<le> skip + fade" using assms(2) by simp
  have res: "findSmoothSkip inputFrames skip fade r = k"
    using run assms(1) nle unfolding findSmoothSkip_def Let_def
    by (simp only: if_False Suc_eq_plus1 snd_conv simp_thms)
  have less: "?f i < ?f j \<longleftrightarrow> cost i < cost j" and le: "?f i \<le> ?f j \<longleftrightarrow> cost i \<le> cost j" for i j
    unfolding f using b [of i] b [of j] by (intro score_less_iff; simp)+
  show "findSmoothSkip inputFrames skip fade r \<le> ?max" using k(1) by (simp add: res)
  show "i \<le> ?max \<Longrightarrow> cost (findSmoothSkip inputFrames skip fade r) \<le> cost i"
    using k(2) unfolding res le by blast
  show "i < findSmoothSkip inputFrames skip fade r \<Longrightarrow> cost (findSmoothSkip inputFrames skip fade r) < cost i"
    using k(3) unfolding res less by blast
qed

section \<open>Cross-fades\<close>

lemma mix_between:
  assumes "0 \<le> g" and "g \<le> 1"
  shows "between a b (mix a b (Fin g))"
proof -
  let ?a = "of_int (sint a) :: rat" and ?b = "of_int (sint b) :: rat" and ?d = "of_int (sint b - sint a) :: rat"
  have big: "x \<le> 2 ^ 20 \<Longrightarrow> x \<le> 2 ^ 1000" for x :: rat
    by (erule order_trans) (rule power_increasing, simp_all)
  have ad: "\<bar>sint b - sint a\<bar> \<le> 65535" using sample_distance [of b a] by simp
  then have "of_int \<bar>sint b - sint a\<bar> \<le> (of_int 65535 :: rat)" by (simp only: of_int_le_iff)
  then have d: "\<bar>?d\<bar> \<le> 65535" by (simp only: of_int_abs of_int_numeral)
  have dex: "rnd53 ?d = ?d" using ad by (intro rnd53_of_int) simp
  have "\<bar>?d\<bar> \<le> 2 ^ 1000" by (rule big, rule order_trans [OF d]) simp
  then have sub: "dsub (double_of_sample b) (double_of_sample a) = Fin ?d"
    using to_double_small [of ?d] dex by (simp only: double_of_sample_def double_ops of_int_diff)
  have m: "min 0 ?d \<le> ?d * g" "?d * g \<le> max 0 ?d" using scale_range [OF assms, of ?d] by simp_all
  have ex0: "rnd53 (min 0 ?d) = min 0 ?d" "rnd53 (max 0 ?d) = max 0 ?d"
    using dex by (simp_all only: min_def max_def rnd53_0 split: if_splits) simp_all
  note M = rnd53_between [OF ex0 m]
  have bound: "\<bar>x\<bar> \<le> 65535" if "min 0 ?d \<le> x" "x \<le> max 0 ?d" for x :: rat
    using that d by (auto simp: abs_le_iff min_def max_def split: if_splits)
  have "\<bar>?d * g\<bar> \<le> 2 ^ 1000" by (rule big, rule order_trans [OF bound [OF m]]) simp
  then have mul: "dmul (dsub (double_of_sample b) (double_of_sample a)) (Fin g) = Fin (rnd53 (?d * g))"
    by (simp only: sub double_ops to_double_small)
  let ?x = "?a + rnd53 (?d * g)"
  have x: "of_int (min (sint a) (sint b)) \<le> ?x" "?x \<le> of_int (max (sint a) (sint b))"
    using M unfolding of_int_min of_int_max of_int_diff by linarith+
  have ex: "rnd53 (of_int (min (sint a) (sint b))) = of_int (min (sint a) (sint b))"
    "rnd53 (of_int (max (sint a) (sint b))) = of_int (max (sint a) (sint b))"
    by (simp_all add: min_def max_def)
  have "\<bar>?x\<bar> \<le> 2 ^ 15 + 65535"
    using sample_abs [of a] bound [OF M] by (intro order_trans [OF abs_triangle_ineq] add_mono) simp_all
  then have "\<bar>?x\<bar> \<le> 2 ^ 1000" by (intro big) simp
  then have "mix a b (Fin g) = sample_of_double (Fin (rnd53 ?x))"
    unfolding mix_def mul by (simp only: double_of_sample_def double_ops to_double_small)
  then show ?thesis
    using sample_of_double_between(1) [OF rnd53_between [OF ex x]] by simp
qed

section \<open>The loops of the splice\<close>

lemma length_concat_const:
  "(\<And>f. length (V f) = c) \<Longrightarrow> length (concat (map V xs)) = length xs * c"
  by (induction xs) simp_all

lemma out_loop_eq:
  assumes "\<And>f o' b. (o' + 1) * c \<le> length b \<Longrightarrow> body f o' b = overwrite (o' * c) (V f) b"
    and "\<And>f. length (V f) = c" and "outputFrames * c \<le> length out"
  shows "out_loop body limit outputFrames frame outFrame out =
    (outFrame + min (limit - frame) (outputFrames - outFrame),
     overwrite (outFrame * c) (concat (map V [frame..<frame + min (limit - frame) (outputFrames - outFrame)])) out)"
  using assms
proof (induction body limit outputFrames frame outFrame out rule: out_loop.induct)
  case (1 body limit outputFrames frame outFrame out)
  show ?case
  proof (cases "frame < limit \<and> outFrame < outputFrames")
    case False
    then have "min (limit - frame) (outputFrames - outFrame) = 0" by auto
    then show ?thesis using False by (subst out_loop.simps) auto
  next
    case True
    let ?k = "min (limit - frame) (outputFrames - outFrame)"
      and ?k' = "min (limit - (frame + 1)) (outputFrames - (outFrame + 1))"
    have k: "?k = Suc ?k'" using True by auto
    have "(outFrame + ?k) * c \<le> outputFrames * c" using True by (intro mult_right_mono) auto
    then have fits: "(outFrame + Suc ?k') * c \<le> length out" using 1(4) by (simp only: k)
    have b: "body frame outFrame out = overwrite (outFrame * c) (V frame) out"
      using fits by (intro 1(2)) (simp add: add_mult_distrib)
    have lv: "length (V frame) = c" by (rule 1(3))
    have lb: "length (overwrite (outFrame * c) (V frame) out) = length out"
      using fits lv by (simp add: add_mult_distrib)
    have lc: "length (concat (map V [frame + 1..<frame + 1 + ?k'])) = ?k' * c"
      by (simp only: length_concat_const [where V = V and c = c, OF 1(3)] length_upt add_diff_cancel_left')
    have run: "V frame @ concat (map V [frame + 1..<frame + 1 + n]) = concat (map V [frame..<frame + Suc n])" for n
      by (simp add: upt_conv_Cons del: upt_Suc)
    have "out_loop body limit outputFrames (frame + 1) (outFrame + 1) (overwrite (outFrame * c) (V frame) out) =
        (outFrame + 1 + ?k', overwrite ((outFrame + 1) * c) (concat (map V [frame + 1..<frame + 1 + ?k']))
          (overwrite (outFrame * c) (V frame) out))"
      using 1(1)[OF True 1(2) 1(3)] 1(4) lb unfolding b by simp
    also have "overwrite ((outFrame + 1) * c) (concat (map V [frame + 1..<frame + 1 + ?k']))
          (overwrite (outFrame * c) (V frame) out) =
        overwrite (outFrame * c) (V frame @ concat (map V [frame + 1..<frame + 1 + ?k'])) out"
      using overwrite_append [of "outFrame * c" "V frame" "concat (map V [frame + 1..<frame + 1 + ?k'])" out] fits lc
      by (simp add: lv add_mult_distrib algebra_simps)
    also have "V frame @ concat (map V [frame + 1..<frame + 1 + ?k']) = concat (map V [frame..<frame + ?k])"
      unfolding k by (rule run)
    finally show ?thesis using True by (subst out_loop.simps) (simp add: b k)
  qed
qed

text \<open>The frames \<open>a, \<dots>, b - 1\<close> of a list.\<close>

definition frames :: "nat \<Rightarrow> pcm \<Rightarrow> nat \<Rightarrow> nat \<Rightarrow> pcm" where
  "frames c xs a b = take ((b - a) * c) (drop (a * c) xs)"

lemma concat_frames:
  assumes "b * c \<le> length xs"
  shows "concat (map (\<lambda>f. map (\<lambda>ch. xs ! (f * c + ch)) [0..<c]) [a..<b]) = frames c xs a b"
  using assms
proof (induction b)
  case 0
  then show ?case by (simp add: frames_def)
next
  case (Suc b)
  show ?case
  proof (cases "a \<le> b")
    case False
    then show ?thesis by (simp add: frames_def)
  next
    case True
    have "map (\<lambda>ch. xs ! (b * c + ch)) [0..<c] = take c (drop (b * c) xs)"
      using Suc(2) by (intro nth_equalityI) simp_all
    moreover have "frames c xs a (Suc b) = frames c xs a b @ take c (drop (b * c) xs)"
    proof -
      have e: "(Suc b - a) * c = (b - a) * c + c" "(b - a) * c + a * c = b * c"
        using True by (simp_all add: Suc_diff_le flip: add_mult_distrib)
      show ?thesis unfolding frames_def e(1) take_add drop_drop e(2) by (rule refl)
    qed
    ultimately show ?thesis using Suc True by simp
  qed
qed

lemma length_frames: "b * c \<le> length xs \<Longrightarrow> length (frames c xs a b) = (b - a) * c"
  by (cases "a \<le> b") (simp_all add: frames_def diff_mult_distrib)

definition cross_fade :: "nat \<Rightarrow> pcm \<Rightarrow> nat \<Rightarrow> nat \<Rightarrow> nat \<Rightarrow> pcm" where
  "cross_fade c src p skip fade = concat (map (\<lambda>k. map (\<lambda>ch.
     mix (src ! ((p + k) * c + ch)) (src ! ((p + skip + k) * c + ch)) (gain (k + 1) (fade + 1))) [0..<c]) [0..<fade])"

lemma splice_eq:
  assumes "p + skip + fade \<le> got" and "outputFrames = got - skip" and "got * c \<le> length src"
    and "outputFrames * c \<le> length output"
  shows "splice c got outputFrames p skip fade src output =
    (outputFrames, overwrite 0 (frames c src 0 p @ cross_fade c src p skip fade @ frames c src (p + skip + fade) got) output)"
proof -
  let ?F = "\<lambda>f. map (\<lambda>ch. src ! (f * c + ch)) [0..<c]"
  let ?X = "\<lambda>k. map (\<lambda>ch. mix (src ! ((p + k) * c + ch)) (src ! ((p + skip + k) * c + ch)) (gain (k + 1) (fade + 1))) [0..<c]"
  have copy: "copy_frame c src f o' b = overwrite (o' * c) (?F f) b" if "(o' + 1) * c \<le> length b" for f o' b
    using that unfolding copy_frame_def by (intro set_frame_const) simp
  have "p * c \<le> got * c" using assms(1) by (intro mult_right_mono) simp_all
  then have pc: "p * c \<le> length src" using assms(3) by (rule order_trans)
  have outs: "outputFrames = p + fade + (got - (p + skip + fade))" using assms(1,2) by simp
  have k1: "min (p - 0) (outputFrames - 0) = p" and k2: "min (fade - 0) (outputFrames - p) = fade"
    and k3: "min (got - (p + skip + fade)) (outputFrames - (p + fade)) = got - (p + skip + fade)"
    using outs by auto
  let ?A = "frames c src 0 p" and ?B = "concat (map ?X [0..<fade])" and ?C = "frames c src (p + skip + fade) got"
  have lens: "length ?A = p * c" "length ?B = fade * c" "length ?C = (got - (p + skip + fade)) * c"
    using pc assms(3) by (simp_all add: length_frames)
  have total: "p * c + fade * c + (got - (p + skip + fade)) * c \<le> length output"
    using assms(4) unfolding outs by (simp add: add_mult_distrib)
  have s1: "out_loop (copy_frame c src) p outputFrames 0 0 output = (p, overwrite 0 ?A output)"
    using out_loop_eq [where V = ?F and limit = p and frame = 0 and outFrame = 0, OF copy _ assms(4)] k1
      concat_frames [of p c src 0] pc assms(3) by simp
  have b2: "outputFrames * c \<le> length (overwrite 0 ?A output)" using assms(4) total lens by simp
  have s2: "out_loop (\<lambda>frame outFrame.
        let t = smoothStep (ddiv (double_of_nat (frame + 1)) (double_of_nat (fade + 1)));
            leftFrame = p + frame; rightFrame = p + skip + frame
        in set_frame c outFrame (\<lambda>ch _. mix (src ! (leftFrame * c + ch)) (src ! (rightFrame * c + ch)) t))
      fade outputFrames 0 p (overwrite 0 ?A output) = (p + fade, overwrite (p * c) ?B (overwrite 0 ?A output))"
    using out_loop_eq [where V = ?X and limit = fade and frame = 0 and outFrame = p, OF _ _ b2] k2
    by (simp add: gain_def Let_def set_frame_const)
  have o2: "overwrite (p * c) ?B (overwrite 0 ?A output) = overwrite 0 (?A @ ?B) output"
    using overwrite_append [of 0 ?A ?B "output"] total lens by simp
  have b3: "outputFrames * c \<le> length (overwrite 0 (?A @ ?B) output)" using assms(4) total lens by simp
  have s3: "out_loop (copy_frame c src) got outputFrames (p + skip + fade) (p + fade) (overwrite 0 (?A @ ?B) output) =
      (outputFrames, overwrite ((p + fade) * c) ?C (overwrite 0 (?A @ ?B) output))"
    using out_loop_eq [where V = ?F and limit = got and frame = "p + skip + fade" and outFrame = "p + fade", OF copy _ b3] k3 outs concat_frames [of got c src "p + skip + fade"] assms(1,3) by simp
  have o3: "overwrite ((p + fade) * c) ?C (overwrite 0 (?A @ ?B) output) = overwrite 0 (?A @ ?B @ ?C) output"
    using overwrite_append [of 0 "?A @ ?B" ?C "output"] total lens by (simp add: add_mult_distrib)
  show ?thesis
    unfolding splice_def s1 Let_def case_prod_conv
    using s2 s3 o2 o3 by (simp add: Let_def cross_fade_def)
qed

section \<open>What time compression delivers\<close>

text \<open>
  \<open>out\<close> is \<open>src\<close> with some frames cut out and a cross-fade over the cut, each of whose samples
  lies between the two it replaces; nothing cut and no fade is a special case.
\<close>

definition cut_and_fade :: "nat \<Rightarrow> pcm \<Rightarrow> pcm \<Rightarrow> bool" where
  "cut_and_fade c src out \<longleftrightarrow> (\<exists>p skip fade cross. (p + skip + fade) * c \<le> length src \<and>
     length cross = fade * c \<and> out = take (p * c) src @ cross @ drop ((p + skip + fade) * c) src \<and>
     (\<forall>i<fade * c. between (src ! (p * c + i)) (src ! ((p + skip) * c + i)) (cross ! i)))"

lemma cut_and_fade_refl [simp]: "cut_and_fade c xs xs"
  unfolding cut_and_fade_def by (intro exI [of _ 0] exI [of _ "[]"]) simp

lemma cut_and_fade_take:
  assumes "m \<le> g" and "length xs = g * c"
  shows "cut_and_fade c xs (take (m * c) xs)"
  unfolding cut_and_fade_def using assms
  by (intro exI [of _ m] exI [of _ "g - m"] exI [of _ 0] exI [of _ "[]"]) simp

lemma cut_and_fade_splice:
  assumes "(p + skip + fade) * c \<le> length src" and "fade < 2 ^ 53"
  shows "cut_and_fade c src (take (p * c) src @ cross_fade c src p skip fade @ drop ((p + skip + fade) * c) src)"
proof -
  let ?x = "cross_fade c src p skip fade"
  have "between (src ! (p * c + i)) (src ! ((p + skip) * c + i)) (?x ! i)" if i: "i < fade * c" for i
  proof -
    have c: "0 < c" using i by (cases c) simp_all
    have d: "i div c * c + i mod c = i" by simp
    then have k: "(p + i div c) * c + i mod c = p * c + i" "(p + skip + i div c) * c + i mod c = (p + skip) * c + i"
      by (simp_all only: add_mult_distrib add.assoc)
    have "i div c < fade" using i c by (simp add: div_less_iff_less_mult)
    then obtain g where g: "gain (i div c + 1) (fade + 1) = Fin g" "0 \<le> g" "g \<le> 1"
      using gain_unit [of "fade + 1" "i div c + 1"] assms(2) by auto
    have "?x ! i = mix (src ! (p * c + i)) (src ! ((p + skip) * c + i)) (Fin g)"
      unfolding cross_fade_def nth_concat_frames [OF i] k g(1) by (rule refl)
    then show ?thesis using mix_between [OF g(2,3)] by simp
  qed
  moreover have "length ?x = fade * c" by (simp add: cross_fade_def)
  ultimately show ?thesis using assms(1) unfolding cut_and_fade_def by blast
qed

lemma read_into_spec:
  assumes "rb_inv rb" and "n < 2 ^ 64"
  obtains rb' where "read_into n buf rb = (min n (length (rb_contents rb)), overwrite 0 (take n (rb_contents rb)) buf, rb')"
    and "rb_inv rb'" and "rb_contents rb' = drop n (rb_contents rb)" and "rb_cap rb' = rb_cap rb"
proof -
  obtain out rb' where g: "rb_get n rb = (out, rb')" by fastforce
  note spec = rb_get_spec [OF assms g]
  have "read_into n buf rb = (min n (length (rb_contents rb)), overwrite 0 (take n (rb_contents rb)) buf, rb')"
    using spec(2) by (simp add: read_into_def g min.commute)
  then show ?thesis using that spec(1,3,4) by blast
qed

text \<open>The limit on the speed is a double between one and four.\<close>

definition speed_limits_ok :: "renderer \<Rightarrow> bool" where
  "speed_limits_ok r \<longleftrightarrow> 1000 \<le> unat (r_maxSpeedPermille r) \<and> unat (r_maxSpeedPermille r) \<le> 4000"

definition max_speed :: "renderer \<Rightarrow> double" where
  "max_speed r = ddiv (double_of_nat (unat (r_maxSpeedPermille r))) (Fin 1000)"

lemma max_speed_range:
  assumes "speed_limits_ok r"
  shows "\<exists>m. max_speed r = Fin m \<and> rnd53 m = m \<and> 1 \<le> m \<and> m \<le> 4"
proof -
  let ?p = "of_nat (unat (r_maxSpeedPermille r)) :: rat"
  have "of_nat 1000 \<le> ?p" "?p \<le> of_nat 4000"
    using assms unfolding speed_limits_ok_def by (simp_all only: of_nat_le_iff)
  then have q: "1 \<le> ?p / 1000" "?p / 1000 \<le> 4" by simp_all
  have "(4 :: rat) \<le> 2 ^ 1000" by (rule order_trans [of _ "2 ^ 2"]) (simp, rule power_increasing, simp_all)
  then have "\<bar>?p / 1000\<bar> \<le> 2 ^ 1000" using q by linarith
  moreover have "double_of_nat (unat (r_maxSpeedPermille r)) = Fin ?p"
    using assms by (intro double_of_nat_small) (simp add: speed_limits_ok_def)
  ultimately have "max_speed r = Fin (rnd53 (?p / 1000))"
    by (simp add: max_speed_def double_ops to_double_small del: power_numeral)
  moreover have "rnd53 4 = (4 :: rat)" using rnd53_of_int [of 4] by simp
  ultimately show ?thesis using rnd53_between [of 1 4, OF _ _ q] by simp
qed

lemma wanted_frames:
  assumes "m < 2 ^ 40" and "1 \<le> s" and "s \<le> 4"
  shows "\<exists>n. size_cast (dceil (dmul (double_of_nat m) (Fin s))) = Some n \<and> m \<le> n \<and> n \<le> 4 * m"
proof -
  let ?m = "of_nat m :: rat" and ?y = "rnd53 (of_nat m * s)"
  have ms: "?m \<le> ?m * s" "?m * s \<le> of_nat (4 * m)"
    using assms(2,3) mult_left_mono [of 1 s ?m] mult_left_mono [of s 4 ?m] by simp_all
  have "(of_nat (4 * m) :: rat) \<le> of_nat (2 ^ 42)" using assms(1) by (simp only: of_nat_le_iff) simp
  then have b42: "(of_nat (4 * m) :: rat) \<le> 2 ^ 42" by simp
  have "(2 :: rat) ^ 42 \<le> 2 ^ 1000" by (rule power_increasing) simp_all
  then have "\<bar>?m * s\<bar> \<le> 2 ^ 1000" using ms b42 of_nat_0_le_iff [of m, where ?'a = rat] by (simp only: abs_of_nonneg)
  moreover have "double_of_nat m = Fin ?m" using assms(1) by (intro double_of_nat_small) simp
  ultimately have mul: "dmul (double_of_nat m) (Fin s) = Fin ?y" by (simp only: double_ops to_double_small)
  have "rnd53 ?m = ?m" "rnd53 (of_nat (4 * m)) = of_nat (4 * m)"
    using assms(1) by (intro rnd53_of_nat; simp)+
  then have y: "?m \<le> ?y" "?y \<le> of_nat (4 * m)" using rnd53_between [OF _ _ ms] by blast+
  have c: "int m \<le> \<lceil>?y\<rceil>" "\<lceil>?y\<rceil> \<le> int (4 * m)"
    using y by (simp_all add: ceiling_le_iff le_ceiling_iff)
  have "(of_int \<lceil>?y\<rceil> :: rat) < 2 ^ 64"
  proof -
    have "int (4 * m) < 2 ^ 64" using assms(1) by simp
    then have "\<lceil>?y\<rceil> < 2 ^ 64" using c(2) by (rule le_less_trans [rotated])
    then have "(of_int \<lceil>?y\<rceil> :: rat) < of_int (2 ^ 64)" by (simp only: of_int_less_iff)
    then show ?thesis by simp
  qed
  moreover have "(- 1 :: rat) < of_int \<lceil>?y\<rceil>" using c(1) by linarith
  ultimately have "size_cast (dceil (dmul (double_of_nat m) (Fin s))) = Some (nat \<lceil>?y\<rceil>)"
    by (simp add: mul del: power_numeral)
  then show ?thesis using c by (intro exI [of _ "nat \<lceil>?y\<rceil>"]) linarith
qed

text \<open>
  What one call delivers: \<open>n\<close> samples at the front of \<open>out\<close>, as many as asked for or, where the
  ring buffer holds fewer, as many as it holds; made of the frames taken from the
  ring buffer, of which there are at most four times as many as asked for; fewer than asked
  for only when the ring buffer is empty afterwards.
\<close>

definition delivers :: "nat \<Rightarrow> nat \<Rightarrow> pcm \<Rightarrow> ring_buffer \<Rightarrow> nat \<times> pcm \<times> ring_buffer \<Rightarrow> bool" where
  "delivers c need output rb = (\<lambda>(n, out, rb').
     rb_inv rb' \<and> rb_cap rb' = rb_cap rb \<and> length out = length output \<and> n = min need (length (rb_contents rb)) \<and> c dvd n \<and>
     drop n out = drop n output \<and> (n < need \<longrightarrow> rb_contents rb' = []) \<and>
     (\<exists>src. rb_contents rb = src @ rb_contents rb' \<and> c dvd length src \<and> length src \<le> 4 * need \<and>
        cut_and_fade c src (take n out)))"

lemma delivers_read:
  assumes "rb_inv rb" and "c dvd length (rb_contents rb)" and "length output = m * c" and "m * c < 2 ^ 64"
    and "read_into (min m (length (rb_contents rb) div c) * c) output rb = (n, out, rb')" and "0 < c"
  shows "delivers c (m * c) output rb (n, out, rb')"
proof -
  obtain a where a: "length (rb_contents rb) = a * c" using assms(2) by (metis dvd_def mult.commute)
  then have av: "length (rb_contents rb) div c = a" using assms(6) by simp
  have le: "min m a * c \<le> m * c" "min m a * c \<le> a * c" by (intro mult_right_mono; simp)+
  obtain rb1 where r: "read_into (min m a * c) output rb = (min (min m a * c) (length (rb_contents rb)),
      overwrite 0 (take (min m a * c) (rb_contents rb)) output, rb1)"
      "rb_inv rb1" "rb_contents rb1 = drop (min m a * c) (rb_contents rb)" "rb_cap rb1 = rb_cap rb"
    by (rule read_into_spec [OF assms(1) le_less_trans [OF le(1) assms(4)]])
  have "(n, out, rb') = (min (min m a * c) (length (rb_contents rb)),
      overwrite 0 (take (min m a * c) (rb_contents rb)) output, rb1)"
    using r(1) assms(5) unfolding av by (rule trans [OF sym, rotated])
  moreover have "min (min m a * c) (length (rb_contents rb)) = min m a * c"
    unfolding a using le(2) by (rule min_absorb1)
  ultimately have eqs: "n = min m a * c" "out = overwrite 0 (take (min m a * c) (rb_contents rb)) output" "rb' = rb1"
    by (simp_all only: prod.inject)
  have "min m a * c < m * c \<Longrightarrow> rb_contents rb' = []"
    using r(3) eqs(3) a by (cases "m \<le> a") (simp_all add: min_def)
  moreover have "cut_and_fade c (take (min m a * c) (rb_contents rb)) (take n out)"
    using eqs a le by (simp add: overwrite_def min_absorb2)
  moreover have "min m a \<le> 4 * m" by linarith
  moreover have "rb_contents rb = take (min m a * c) (rb_contents rb) @ rb_contents rb'"
    using r(3) eqs(3) by simp
  moreover have "n = min (m * c) (length (rb_contents rb))"
    unfolding eqs(1) a by (simp only: nat_mult_min_left)
  moreover have "c dvd min (m * c) (a * c)" by (simp add: min_def)
  ultimately show ?thesis
    unfolding delivers_def case_prod_conv eqs
    using r(2,4) eqs a le assms(3)
    by (intro conjI exI [of _ "take (min m a * c) (rb_contents rb)"])
      (simp_all add: overwrite_def min_absorb2)
qed

lemma fade_bound:
  "min (min (unat (max 1 (sr div 500))) q) r < 2 ^ 32" for sr :: u32
proof -
  have "unat (max 1 (sr div 500)) < 2 ^ 32"
    using unsigned_less [of "max 1 (sr div 500)", where ?'a = nat] by simp
  then show ?thesis by simp
qed

text \<open>The part of the code after the candidate frames have been read, all of them available.\<close>

lemma stretch_delivers:
  fixes c m target :: nat and data :: pcm
  assumes "0 < c" and "m < target" and "length data = target * c" and "length output = m * c"
    and "src = overwrite 0 data buf" and "target * c \<le> length buf" and "unat (r_channels r) = c"
    and "r_stretchInputBuf r = src"
  defines "skip \<equiv> target - m"
  defines "fade \<equiv> min (min (unat (max 1 (r_sampleRate r div 500))) (m div 4)) (target - skip)"
  shows "fade < 2 \<or> target \<le> skip + fade \<Longrightarrow>
      length (overwrite 0 (take (m * c) src) output) = m * c \<and>
      cut_and_fade c data (overwrite 0 (take (m * c) src) output)"
    and "\<not> (fade < 2 \<or> target \<le> skip + fade) \<Longrightarrow>
      splice c target m (findSmoothSkip target skip fade r) skip fade src output = (n, out) \<Longrightarrow>
      n = m \<and> length out = m * c \<and> cut_and_fade c data out"
proof -
  have mt: "m * c \<le> target * c" using assms(2) by (intro mult_right_mono) simp_all
  have src: "src = data @ drop (target * c) buf" using assms(3,5,6) by (simp add: overwrite_def)
  have lsrc: "target * c \<le> length src" using assms(3) by (simp add: src)
  have lo: "m * c \<le> length output" using assms(4) by simp
  have tk: "take k src = take k data" if "k \<le> target * c" for k using that assms(3) by (simp add: src)
  have over: "overwrite 0 xs output = xs" if "length xs = m * c" for xs
    using that assms(4) by (simp add: overwrite_def)
  have ltk: "length (take (m * c) data) = m * c" using mt assms(3) by simp
  show "fade < 2 \<or> target \<le> skip + fade \<Longrightarrow>
      length (overwrite 0 (take (m * c) src) output) = m * c \<and>
      cut_and_fade c data (overwrite 0 (take (m * c) src) output)"
    unfolding tk [OF mt] over [OF ltk] using ltk cut_and_fade_take [of m target data c] assms(2,3) by simp
  show "n = m \<and> length out = m * c \<and> cut_and_fade c data out"
    if big: "\<not> (fade < 2 \<or> target \<le> skip + fade)"
      and run: "splice c target m (findSmoothSkip target skip fade r) skip fade src output = (n, out)"
  proof -
    let ?p = "findSmoothSkip target skip fade r"
    have fade: "fade < 2 ^ 32" unfolding fade_def by (rule fade_bound)
    have "r_channels r \<noteq> 0" using assms(1,7) by auto
    then have "?p \<le> target - skip - fade" using big fade by (intro findSmoothSkip_least(1)) simp_all
    then have p: "?p + skip + fade \<le> target" using big by linarith
    then have pc: "(?p + skip + fade) * c \<le> target * c" "?p * c \<le> target * c" by (intro mult_right_mono; simp)+
    have fr: "frames c src 0 ?p = take (?p * c) data" "frames c src (?p + skip + fade) target = drop ((?p + skip + fade) * c) data"
      using pc assms(3) by (simp_all add: frames_def src diff_mult_distrib)
    have x: "cross_fade c src ?p skip fade = cross_fade c data ?p skip fade"
    proof -
      have at: "src ! ((q + k) * c + ch) = data ! ((q + k) * c + ch)" if "k < fade" "ch < c" "q + fade \<le> target" for q k ch
      proof -
        have "(q + k + 1) * c \<le> target * c" using that by (intro mult_right_mono) simp_all
        then have "(q + k) * c + ch < length data" using that(2) assms(3) by simp
        then show ?thesis by (simp add: src nth_append)
      qed
      have "src ! ((?p + k) * c + ch) = data ! ((?p + k) * c + ch)"
        "src ! ((?p + skip + k) * c + ch) = data ! ((?p + skip + k) * c + ch)" if "k < fade" "ch < c" for k ch
        using p that by (intro at; simp)+
      then show ?thesis unfolding cross_fade_def
        by (intro arg_cong [where f = concat] map_cong refl) (simp del: upt_Suc)
    qed
    let ?out = "take (?p * c) data @ cross_fade c data ?p skip fade @ drop ((?p + skip + fade) * c) data"
    have m: "m = target - skip" using assms(2) by (simp add: skip_def)
    have "length (cross_fade c data ?p skip fade) = fade * c" by (simp add: cross_fade_def)
    moreover have "?p + fade + (target - (?p + skip + fade)) = m" using p m by simp
    ultimately have len: "length ?out = m * c" using pc assms(3) by (simp flip: add_mult_distrib diff_mult_distrib)
    have "splice c target m ?p skip fade src output = (m, overwrite 0 ?out output)"
      using splice_eq [OF p m lsrc lo, unfolded fr x] .
    then have "n = m" "out = ?out" using run over [OF len] by simp_all
    moreover have "cut_and_fade c data ?out"
      using pc(1) assms(3) fade by (intro cut_and_fade_splice) simp_all
    ultimately show ?thesis using len by simp
  qed
qed

lemma unchanged_renderer:
  assumes "f = Some (n, out, r, rb')" and "P (n, out, rb')"
  shows "\<exists>n out buf rb'. f = Some (n, out, r\<lparr>r_stretchInputBuf := buf\<rparr>, rb') \<and> P (n, out, rb')"
proof (intro exI conjI)
  show "f = Some (n, out, r\<lparr>r_stretchInputBuf := r_stretchInputBuf r\<rparr>, rb')" using assms(1) by simp
qed (rule assms(2))

lemma renderPitchPreserved_delivers:
  fixes rb :: ring_buffer
  assumes "rb_inv rb" and "unat (r_channels r) = c" and "0 < c" and "c dvd length (rb_contents rb)"
    and "length output = m * c" and "m < 2 ^ 32" and "speed \<noteq> NaN" and "speed_limits_ok r"
  shows "\<exists>n out buf rb'. renderPitchPreserved output (m * c) speed (r, rb) =
      Some (n, out, r\<lparr>r_stretchInputBuf := buf\<rparr>, rb') \<and> delivers c (m * c) output rb (n, out, rb')"
proof -
  obtain a where a: "length (rb_contents rb) = a * c" using assms(4) by (metis dvd_def mult.commute)
  have av: "unat (rb_availableToRead rb) div c = a" using a assms(3) by (simp add: rb_availableToRead_spec)
  have mc: "m * c div c = m" using assms(3) by simp
  have c256: "c < 256" using assms(2) unsigned_less [of "r_channels r", where ?'a = nat] by simp
  have "m * c \<le> 2 ^ 32 * 256" using assms(6) c256 by (intro mult_mono) simp_all
  then have big: "m * c < 2 ^ 64" by (rule le_less_trans) simp
  have ac: "a * c < 2 ^ 64" unfolding a [symmetric] using unsigned_less [of "rb_availableToRead rb", where ?'a = nat]
    by (simp add: rb_availableToRead_spec)
  have ch: "r_channels r \<noteq> 0" using assms(2,3) by auto
  have empty: "delivers c (m * c) output rb (0, output, rb)" if "m = 0 \<or> a = 0"
  proof -
    have none: "a = 0 \<Longrightarrow> rb_contents rb = []" using a by (metis length_0_conv mult_0)
    have "min (m * c) (length (rb_contents rb)) = 0" using that a by auto
    then show ?thesis using that none assms(1) unfolding delivers_def by (auto intro!: exI [of _ "[]"])
  qed
  consider (none) "m = 0 \<or> a = 0" | (some) "0 < m" "0 < a" by auto
  then show ?thesis
  proof cases
    case none
    have "renderPitchPreserved output (m * c) speed (r, rb) = Some (0, output, r, rb)"
      using none ch assms(2,3) mc av
      by (cases "m = 0") (simp_all add: renderPitchPreserved_def Let_def)
    moreover have "delivers c (m * c) output rb (0, output, rb)" using none by (rule empty)
    ultimately show ?thesis by (rule unchanged_renderer)
  next
    case some
    then have front: "\<not> (r_channels r = 0 \<or> m * c < c)" "\<not> (m = 0 \<or> a = 0)"
      using ch by (simp_all add: not_less)
    obtain mx where mx: "max_speed r = Fin mx" "1 \<le> mx" "mx \<le> 4" using max_speed_range [OF assms(8)] by blast
    then obtain s where s: "dclamp speed (Fin 1) (max_speed r) = Fin s" "1 \<le> s" "s \<le> 4"
      using dclamp_range [OF assms(7) mx(2)] by fastforce
    obtain w where w: "size_cast (dceil (dmul (double_of_nat m) (Fin s))) = Some w" "m \<le> w" "w \<le> 4 * m"
      using wanted_frames [of m s] assms(6) s by auto
    define plain where "plain \<longleftrightarrow> dle (Fin s) (to_double (1001 / 1000)) \<or> a \<le> m"
    define target where "target = (if w < m then m else if a < w then a else w)"
    have code: "renderPitchPreserved output (m * c) speed (r, rb) =
       (if plain then let (n, out, rb') = read_into (min m a * c) output rb in Some (n, out, r, rb')
        else if target - m = 0 then let (n, out, rb') = read_into (m * c) output rb in Some (n, out, r, rb')
        else let buf = (if length (r_stretchInputBuf r) < target * c
                        then vec_resize (target * c) 0 (r_stretchInputBuf r) else r_stretchInputBuf r);
                 (gotSamples, src, rb') = read_into (target * c) buf rb;
                 r' = r\<lparr>r_stretchInputBuf := src\<rparr>;
                 gotFrames = gotSamples div c
        in if gotFrames \<le> m then Some (gotSamples, overwrite 0 (take gotSamples src) output, r', rb')
        else let skipFrames = gotFrames - m;
                 fadeFrames = min (min (unat (max 1 (r_sampleRate r div 500))) (m div 4)) (gotFrames - skipFrames)
        in if fadeFrames < 2 \<or> gotFrames \<le> skipFrames + fadeFrames
           then Some (m * c, overwrite 0 (take (m * c) src) output, r', rb')
        else let skipStart = findSmoothSkip gotFrames skipFrames fadeFrames r';
                 (outFrame, out) = splice c gotFrames m skipStart skipFrames fadeFrames src output
        in Some (outFrame * c, out, r', rb'))"
      unfolding renderPitchPreserved_def case_prod_conv max_speed_def [symmetric]
      by (simp only: Let_def assms(2) mc av front if_False s(1) w(1) option.case plain_def target_def)
    consider (read) "plain \<or> target - m = 0" | (stretch) "\<not> plain" "m < target" by linarith
    then show ?thesis
    proof cases
      case read
      have "renderPitchPreserved output (m * c) speed (r, rb) =
          (let (n, out, rb') = read_into (min m a * c) output rb in Some (n, out, r, rb'))"
      proof (cases plain)
        case True
        then show ?thesis unfolding code by (simp only: if_True)
      next
        case False
        then have "target - m = 0" and "min m a = m" using read by (simp_all add: plain_def)
        then show ?thesis using False unfolding code by (simp only: if_True if_False simp_thms)
      qed
      moreover obtain n out rb' where ri: "read_into (min m a * c) output rb = (n, out, rb')" by (rule prod_cases3)
      moreover have "length (rb_contents rb) div c = a" using a assms(3) by simp
      ultimately have "renderPitchPreserved output (m * c) speed (r, rb) = Some (n, out, r, rb')"
        and "delivers c (m * c) output rb (n, out, rb')"
        using delivers_read [OF assms(1,4,5) big _ assms(3), of n out rb'] by simp_all
      then show ?thesis by (rule unchanged_renderer [where P = "delivers c (m * c) output rb"])
    next
      case stretch
      then have ta: "target \<le> a" "target \<le> 4 * m" using w by (auto simp: target_def plain_def split: if_splits)
      then have tc: "target * c \<le> a * c" by (intro mult_right_mono) simp_all
      have "m * c \<le> a * c" using stretch(2) ta(1) by (intro mult_right_mono) simp_all
      then have tm: "m * c = min (m * c) (length (rb_contents rb))" unfolding a by simp
      define buf where "buf = (if length (r_stretchInputBuf r) < target * c
         then vec_resize (target * c) 0 (r_stretchInputBuf r) else r_stretchInputBuf r)"
      have lbuf: "target * c \<le> length buf" by (simp add: buf_def)
      define data where "data = take (target * c) (rb_contents rb)"
      have ld: "length data = target * c" using tc a by (simp add: data_def)
      define src where "src = overwrite 0 data buf"
      obtain rb' where "read_into (target * c) buf rb = (min (target * c) (length (rb_contents rb)),
          overwrite 0 (take (target * c) (rb_contents rb)) buf, rb')"
        and rb': "rb_inv rb'" "rb_contents rb' = drop (target * c) (rb_contents rb)" "rb_cap rb' = rb_cap rb"
        by (rule read_into_spec [OF assms(1) le_less_trans [OF tc ac]])
      then have ri: "read_into (target * c) buf rb = (target * c, src, rb')"
        using tc a by (simp add: src_def data_def)
      have got: "target * c div c = target" using assms(3) by simp
      have t0: "target - m \<noteq> 0" "\<not> target \<le> m" using stretch by simp_all
      let ?r = "r\<lparr>r_stretchInputBuf := src\<rparr>"
      let ?skip = "target - m"
      let ?fade = "min (min (unat (max 1 (r_sampleRate r div 500))) (m div 4)) (target - ?skip)"
      obtain n o' where sp: "splice c target m (findSmoothSkip target ?skip ?fade ?r) ?skip ?fade src output = (n, o')"
        by fastforce
      have run: "renderPitchPreserved output (m * c) speed (r, rb) =
         (if ?fade < 2 \<or> target \<le> ?skip + ?fade then Some (m * c, overwrite 0 (take (m * c) src) output, ?r, rb')
          else Some (n * c, o', ?r, rb'))"
        unfolding code buf_def [symmetric]
        by (simp only: stretch t0 if_False Let_def ri got case_prod_conv sp)
      note S = stretch_delivers [OF assms(3) stretch(2) ld assms(5) src_def lbuf, of ?r]
      have S1: "?fade < 2 \<or> target \<le> ?skip + ?fade \<Longrightarrow> length (overwrite 0 (take (m * c) src) output) = m * c \<and>
          cut_and_fade c data (overwrite 0 (take (m * c) src) output)"
        and S2: "\<not> (?fade < 2 \<or> target \<le> ?skip + ?fade) \<Longrightarrow> n = m \<and> length o' = m * c \<and> cut_and_fade c data o'"
        using S(1) S(2) [of n o'] assms(2) sp by simp_all
      have D: "delivers c (m * c) output rb (m * c, out, rb')" if "length out = m * c" "cut_and_fade c data out" for out
        unfolding delivers_def case_prod_conv using that assms(5) rb' ld ta tm
        by (intro conjI exI [of _ data]) (simp_all add: data_def)
      show ?thesis
      proof (cases "?fade < 2 \<or> target \<le> ?skip + ?fade")
        case True
        then show ?thesis using run D S1 [OF True] by (simp only: if_True) blast
      next
        case False
        then show ?thesis using run D S2 [OF False] by (simp only: if_False) blast
      qed
    qed
  qed
qed

end
