(* ===== verification/Render_Thread.thy ===== *)
theory Render_Thread
  imports Time_Compression
begin

text \<open>
  \<open>WasapiRenderer::renderThread\<close>: the control of the playing speed, one turn of the loop
  (\<open>render_turn\<close>, everything between the wake-up and \<open>ReleaseBuffer\<close>) and the loop itself. The
  function \<open>std::exp\<close> is an argument, since its rounding is not specified; \<open>exp_ok\<close> is what is
  needed of it. A turn yields \<open>None\<close> where the code would use a null pointer, store past the
  end of the device buffer or convert a double that does not fit.
\<close>

definition exp_ok :: "(double \<Rightarrow> double) \<Rightarrow> bool" where
  "exp_ok e \<longleftrightarrow> (\<forall>a. e (Fin a) \<noteq> NaN)"

section \<open>Speed control\<close>

definition bufferedSamples :: "ring_buffer option \<Rightarrow> nat" where
  "bufferedSamples ring = (case ring of None \<Rightarrow> 0 | Some rb \<Rightarrow> unat (rb_availableToRead rb))"

definition target_speed :: "(double \<Rightarrow> double) \<Rightarrow> nat \<Rightarrow> renderer \<Rightarrow> double" where
  "target_speed cexp bufferedBeforeRead r =
     (let baseline = r_dropBaselineDurationMs r
      in if baseline > 0 then
           let cachedMs = dmul (ddiv (double_of_nat bufferedBeforeRead)
                                     (double_of_nat (unat (r_sampleRate r * ucast (r_channels r))))) (Fin 1000);
               protect = double_of_nat (unat (r_protectMs r));
               x = ddiv (dsub cachedMs protect) (double_of_nat (unat baseline))
           in if dless (Fin 0) x
              then cexp (ddiv (dmul (dmul (dmul x x) x) protect) (double_of_nat (unat baseline)))
              else Fin 1
         else Fin 1)"

definition speed_control :: "(double \<Rightarrow> double) \<Rightarrow> nat \<Rightarrow> renderer \<Rightarrow> renderer" where
  "speed_control cexp bufferedBeforeRead r =
     (let maxSpeed = ddiv (double_of_nat (unat (r_maxSpeedPermille r))) (Fin 1000);
          targetSpeed = dclamp (target_speed cexp bufferedBeforeRead r) (Fin 1) maxSpeed
      in r\<lparr>r_currentSpeed :=
           (if dless (r_currentSpeed r) targetSpeed
            then dmin targetSpeed (dadd (r_currentSpeed r) (to_double (2 / 100)))
            else targetSpeed)\<rparr>)"

section \<open>A turn\<close>

text \<open>What follows the read in a turn.\<close>

definition finish_turn :: "nat \<Rightarrow> nat \<Rightarrow> pcm \<Rightarrow> renderer \<Rightarrow> pcm \<times> renderer" where
  "finish_turn n need out1 r2 =
     (let (out2, r3) = (if 0 < n then fadeInAfterSilence out1 n r2 else (out1, r2));
          (out3, r4) = (if n < need
            then let (out, r') = fillSmoothSilence out2 n need r3
                 in (out, r'\<lparr>r_silenceFillCount := r_silenceFillCount r' + 1\<rparr>)
            else (out2, r3));
          r5 = rememberLastSamples out3 need r4
      in (out3, r5\<lparr>r_renderCount := r_renderCount r5 + 1\<rparr>))"

definition render_turn ::
    "(double \<Rightarrow> double) \<Rightarrow> u32 \<Rightarrow> pcm option \<Rightarrow> renderer \<times> ring_buffer \<Rightarrow>
     (pcm option \<times> bool \<times> renderer \<times> ring_buffer) option" where
  "render_turn cexp padding pData = (\<lambda>(r, rb).
     let framesAvailable = r_bufferFrames r - padding in
     if framesAvailable = 0 then Some (None, False, r, rb)
     else let baseline = r_dropBaselineDurationMs r;
              r1 = speed_control cexp (bufferedSamples (Some rb)) r;
              needSamples = unat framesAvailable * unat (r_channels r)
     in case (if r_pRenderClient r = None then None else pData) of
       None \<Rightarrow> None
     | Some out0 \<Rightarrow>
       if length out0 < needSamples then None else
       (case (if baseline = 0
              then let (n, out, rb') = read_into needSamples out0 rb in Some (n, out, r1, rb')
              else renderPitchPreserved out0 needSamples (r_currentSpeed r1) (r1, rb)) of
          None \<Rightarrow> None
        | Some (readSamples, out1, r2, rb') \<Rightarrow>
          let (out, r') = finish_turn readSamples needSamples out1 r2
          in Some (Some out, readSamples < needSamples, r', rb')))"

section \<open>The thread\<close>

text \<open>
  What \<open>WaitForMultipleObjects\<close> reports. With an event come the padding and the buffer that
  \<open>GetCurrentPadding\<close> and \<open>GetBuffer\<close> return.
\<close>

datatype wake = Wake_Event u32 "pcm option" | Wake_Stop | Wake_Timeout | Wake_Other

text \<open>
  The loop over a list of turns: what the other threads did before the turn (the flag
  \<open>running_\<close> and the samples written to the ring buffer) and what the wait reports. Results: the
  buffers played, whether an underrun was reported, whether \<open>onFatalTimeout\<close> was called,
  whether the thread has ended, and the final state.
\<close>

record thread_result =
  t_played :: "pcm list"
  t_underrun :: bool
  t_timeout :: bool
  t_ended :: bool

definition t_idle :: thread_result where
  "t_idle = \<lparr>t_played = [], t_underrun = False, t_timeout = False, t_ended = False\<rparr>"

fun renderThread ::
    "(double \<Rightarrow> double) \<Rightarrow> (bool \<times> pcm \<times> wake) list \<Rightarrow> renderer \<times> ring_buffer \<Rightarrow>
     (thread_result \<times> renderer \<times> ring_buffer) option" where
  "renderThread cexp [] (r, rb) = Some (t_idle, r, rb)"
| "renderThread cexp ((running, written, wake) # turns) (r, rb0) =
     (let rb = snd (rb_put written rb0) in
      if \<not> running then Some (t_idle\<lparr>t_ended := True\<rparr>, r, rb)
      else case wake of
        Wake_Stop \<Rightarrow> Some (t_idle\<lparr>t_ended := True\<rparr>, r, rb)
      | Wake_Timeout \<Rightarrow> Some (t_idle\<lparr>t_timeout := True, t_ended := True\<rparr>, r, rb)
      | Wake_Other \<Rightarrow> renderThread cexp turns (r, rb)
      | Wake_Event padding pData \<Rightarrow>
          (case render_turn cexp padding pData (r, rb) of
             None \<Rightarrow> None
           | Some (out, low, r', rb') \<Rightarrow>
             (case renderThread cexp turns (r', rb') of
                None \<Rightarrow> None
              | Some (t, s) \<Rightarrow>
                  Some (t\<lparr>t_played := (case out of None \<Rightarrow> t_played t | Some o' \<Rightarrow> o' # t_played t),
                          t_underrun := low \<or> t_underrun t\<rparr>, s))))"

section \<open>The speed stays in range\<close>

text \<open>Finite doubles of at most \<open>2 ^ k\<close>.\<close>

definition at_most :: "nat \<Rightarrow> double \<Rightarrow> bool" where
  "at_most k d \<longleftrightarrow> (\<exists>a. d = Fin a \<and> \<bar>a\<bar> \<le> 2 ^ k)"

lemma at_most_to_double: "\<bar>x\<bar> \<le> 2 ^ k \<Longrightarrow> k \<le> 1000 \<Longrightarrow> at_most k (to_double x)"
proof -
  assume x: "\<bar>x\<bar> \<le> 2 ^ k" and k: "k \<le> 1000"
  have "(2 :: rat) ^ k \<le> 2 ^ 1000" using k by (intro power_increasing) simp_all
  then have t: "to_double x = Fin (rnd53 x)" using x by (intro to_double_small) linarith
  have e: "rnd53 (2 ^ k) = 2 ^ k" and e': "rnd53 (- (2 ^ k)) = - (2 ^ k)"
    using rnd53_powi [of "int k"] by simp_all
  have "\<bar>rnd53 x\<bar> \<le> 2 ^ k" using rnd53_between [OF e' e, of x] x by (simp add: abs_le_iff)
  then show ?thesis using t by (simp add: at_most_def)
qed

lemma at_most_mono: "at_most j d \<Longrightarrow> j \<le> k \<Longrightarrow> at_most k d"
  using power_increasing [of j k "2 :: rat"] by (fastforce simp: at_most_def intro: order_trans)

lemma at_most_mul: "at_most i a \<Longrightarrow> at_most j b \<Longrightarrow> i + j \<le> 1000 \<Longrightarrow> at_most (i + j) (dmul a b)"
proof -
  assume "at_most i a" "at_most j b" and k: "i + j \<le> 1000"
  then obtain x y where xy: "a = Fin x" "b = Fin y" "\<bar>x\<bar> \<le> 2 ^ i" "\<bar>y\<bar> \<le> 2 ^ j" by (auto simp: at_most_def)
  have "\<bar>x\<bar> * \<bar>y\<bar> \<le> 2 ^ i * 2 ^ j" using xy(3,4) by (intro mult_mono) simp_all
  then have "\<bar>x * y\<bar> \<le> 2 ^ (i + j)" by (simp only: abs_mult power_add)
  then have "at_most (i + j) (to_double (x * y))" using k by (rule at_most_to_double)
  then show ?thesis by (simp only: xy double_ops)
qed

lemma at_most_sub: "at_most k a \<Longrightarrow> at_most k b \<Longrightarrow> k < 1000 \<Longrightarrow> at_most (k + 1) (dsub a b)"
proof -
  assume "at_most k a" "at_most k b" and k: "k < 1000"
  then obtain x y where xy: "a = Fin x" "b = Fin y" "\<bar>x\<bar> \<le> 2 ^ k" "\<bar>y\<bar> \<le> 2 ^ k" by (auto simp: at_most_def)
  have "\<bar>x - y\<bar> \<le> \<bar>x\<bar> + \<bar>y\<bar>" by (rule abs_triangle_ineq4)
  then have "\<bar>x - y\<bar> \<le> 2 ^ (k + 1)" using xy(3,4) by simp
  then have "at_most (k + 1) (to_double (x - y))" using k by (intro at_most_to_double) simp_all
  then show ?thesis by (simp only: xy double_ops)
qed

lemma at_most_div: "at_most k a \<Longrightarrow> 1 \<le> b \<Longrightarrow> k \<le> 1000 \<Longrightarrow> at_most k (ddiv a (Fin b))"
proof -
  assume "at_most k a" and b: "1 \<le> b" and k: "k \<le> 1000"
  then obtain x where x: "a = Fin x" "\<bar>x\<bar> \<le> 2 ^ k" by (auto simp: at_most_def)
  have "\<bar>x / b\<bar> \<le> \<bar>x\<bar> / 1" unfolding abs_divide using b by (intro divide_left_mono) simp_all
  then have "\<bar>x / b\<bar> \<le> 2 ^ k" using x(2) by simp
  then have "at_most k (to_double (x / b))" using k by (rule at_most_to_double)
  then show ?thesis using b by (simp add: x double_ops)
qed

lemma double_of_u32: "double_of_nat (unat (w :: u32)) = Fin (of_nat (unat w))"
  using unsigned_less [of w, where ?'a = nat] by (intro double_of_nat_small) simp

lemma at_most_u32: "at_most 32 (double_of_nat (unat (w :: u32)))"
proof -
  have "unat w \<le> 2 ^ 32" using unsigned_less [of w, where ?'a = nat] by simp
  then have "(of_nat (unat w) :: rat) \<le> of_nat (2 ^ 32)" by (simp only: of_nat_le_iff)
  then have "\<bar>of_nat (unat w) :: rat\<bar> \<le> 2 ^ 32" by (simp only: abs_of_nat of_nat_power of_nat_numeral)
  then show ?thesis unfolding at_most_def using double_of_u32 by blast
qed

lemma u32_ge_1: "0 < (w :: u32) \<Longrightarrow> 1 \<le> (of_nat (unat w) :: rat)"
proof -
  assume "0 < w"
  then have "0 < unat w" by (simp add: word_less_nat_alt)
  then have "of_nat 1 \<le> (of_nat (unat w) :: rat)" by (simp only: of_nat_le_iff)
  then show ?thesis by simp
qed

lemma target_speed_not_NaN:
  assumes "exp_ok cexp" and "r_sampleRate r * ucast (r_channels r) \<noteq> 0" and "n < 2 ^ 64"
  shows "target_speed cexp n r \<noteq> NaN"
proof (cases "0 < r_dropBaselineDurationMs r")
  case True
  let ?b = "of_nat (unat (r_dropBaselineDurationMs r)) :: rat"
  let ?rate = "r_sampleRate r * ucast (r_channels r)"
  let ?cached = "dmul (ddiv (double_of_nat n) (double_of_nat (unat ?rate))) (Fin 1000)"
  let ?x = "ddiv (dsub ?cached (double_of_nat (unat (r_protectMs r)))) (double_of_nat (unat (r_dropBaselineDurationMs r)))"
  have b1: "1 \<le> ?b" using True by (rule u32_ge_1)
  have r1: "1 \<le> (of_nat (unat ?rate) :: rat)" using assms(2) by (intro u32_ge_1) (simp add: word_neq_0_conv)
  have "(of_nat n :: rat) \<le> of_nat (2 ^ 64)" using assms(3) by (simp only: of_nat_le_iff)
  then have n: "at_most 64 (double_of_nat n)"
    unfolding double_of_nat_def by (intro at_most_to_double) (simp_all only: abs_of_nat of_nat_power of_nat_numeral)
  have "at_most 64 (ddiv (double_of_nat n) (double_of_nat (unat ?rate)))"
    unfolding double_of_u32 using n r1 by (rule at_most_div) simp
  moreover have "at_most 10 (Fin 1000)" by (simp add: at_most_def)
  ultimately have "at_most (64 + 10) ?cached" by (rule at_most_mul) simp
  then have "at_most (74 + 1) (dsub ?cached (double_of_nat (unat (r_protectMs r))))"
    by (intro at_most_sub at_most_mono [OF at_most_u32]) simp_all
  then have x: "at_most 75 ?x" unfolding double_of_u32 using b1 by (intro at_most_div) simp_all
  then have "at_most (75 + 75 + 75 + 32) (dmul (dmul (dmul ?x ?x) ?x) (double_of_nat (unat (r_protectMs r))))"
    by (intro at_most_mul at_most_u32) simp_all
  then have "at_most 257 (ddiv (dmul (dmul (dmul ?x ?x) ?x) (double_of_nat (unat (r_protectMs r))))
      (double_of_nat (unat (r_dropBaselineDurationMs r))))"
    unfolding double_of_u32 [of "r_dropBaselineDurationMs r"] using b1 by (intro at_most_div) simp_all
  then have "cexp (ddiv (dmul (dmul (dmul ?x ?x) ?x) (double_of_nat (unat (r_protectMs r))))
      (double_of_nat (unat (r_dropBaselineDurationMs r)))) \<noteq> NaN"
    using assms(1) by (auto simp: at_most_def exp_ok_def)
  then show ?thesis using True by (simp add: target_speed_def Let_def)
qed (simp add: target_speed_def)

text \<open>The speed is a number between one and four.\<close>

definition speed_ok :: "renderer \<Rightarrow> bool" where
  "speed_ok r \<longleftrightarrow> (\<exists>s. r_currentSpeed r = Fin s \<and> 1 \<le> s \<and> s \<le> 4)"

definition ramp :: rat where "ramp = rnd53 (2 / 100)"

lemma speed_control_range:
  assumes "exp_ok cexp" and "r_sampleRate r * ucast (r_channels r) \<noteq> 0" and "n < 2 ^ 64"
    and "speed_limits_ok r" and "r_currentSpeed r = Fin s" and "1 \<le> s" and "s \<le> 4"
  shows "\<exists>s' mx. r_currentSpeed (speed_control cexp n r) = Fin s' \<and> max_speed r = Fin mx \<and>
    1 \<le> s' \<and> s' \<le> mx \<and> mx \<le> 4 \<and> s' \<le> max s (rnd53 (s + ramp)) \<and>
    (r_dropBaselineDurationMs r = 0 \<longrightarrow> s' = 1)"
proof -
  obtain mx where mx: "max_speed r = Fin mx" "rnd53 mx = mx" "1 \<le> mx" "mx \<le> 4"
    using max_speed_range [OF assms(4)] by blast
  let ?t = "target_speed cexp n r"
  have tn: "?t \<noteq> NaN" by (rule target_speed_not_NaN [OF assms(1-3)])
  obtain t where t: "dclamp ?t (Fin 1) (Fin mx) = Fin t" "1 \<le> t" "t \<le> mx"
    using dclamp_range [OF tn mx(3)] by blast
  have ramp: "0 < ramp" "ramp \<le> 1" "to_double (2 / 100) = Fin ramp"
    unfolding ramp_def by code_simp+
  have "\<bar>s + ramp\<bar> \<le> 2 ^ 3" using ramp(1,2) assms(6,7) by (simp add: abs_le_iff)
  then have add: "dadd (Fin s) (to_double (2 / 100)) = Fin (rnd53 (s + ramp))"
    using to_double_pow [of "s + ramp" 3] by (simp only: ramp(3) double_ops)
  have one: "1 \<le> rnd53 (s + ramp)" using rnd53_mono [of 1 "s + ramp"] ramp(1) assms(6) by simp
  have run: "r_currentSpeed (speed_control cexp n r) =
      (if s < t then Fin (min t (rnd53 (s + ramp))) else Fin t)"
    unfolding speed_control_def max_speed_def [symmetric] Let_def mx(1) t(1) assms(5) add
    by (simp add: double_ops)
  have none: "t = 1" if "r_dropBaselineDurationMs r = 0"
    using that t(1) mx(3) by (simp add: target_speed_def double_ops)
  show ?thesis
  proof (cases "s < t")
    case True
    then show ?thesis using run mx t one none assms(6) by auto
  next
    case False
    then show ?thesis using run mx t none by auto
  qed
qed

section \<open>A turn never fails and takes from the front\<close>

text \<open>What a read leaves of the ring buffer, whatever was asked for.\<close>

definition takes_front :: "ring_buffer \<Rightarrow> ring_buffer \<Rightarrow> bool" where
  "takes_front rb rb' \<longleftrightarrow> rb_inv rb' \<and> rb_cap rb' = rb_cap rb \<and> (\<exists>src. rb_contents rb = src @ rb_contents rb')"

lemma takes_front_refl [simp]: "rb_inv rb \<Longrightarrow> takes_front rb rb"
  by (simp add: takes_front_def)

lemma read_into_takes_front:
  assumes "rb_inv rb" and "read_into n buf rb = (k, out, rb')"
  shows "takes_front rb rb'"
proof -
  obtain r o' where r: "rb_read (of_nat n) rb = (r, o', rb')"
    using assms(2) by (auto simp: read_into_def rb_get_def split: prod.splits)
  note spec = rb_read_spec [OF assms(1) r]
  have "rb_contents rb = take (unat (of_nat n :: u64)) (rb_contents rb) @ rb_contents rb'" using spec by simp
  then show ?thesis using spec unfolding takes_front_def by blast
qed

lemma renderPitchPreserved_safe:
  assumes "rb_inv rb" and "speed \<noteq> NaN" and "speed_limits_ok r" and "need < 2 ^ 40"
  shows "\<exists>n out buf rb'. renderPitchPreserved output need speed (r, rb) =
    Some (n, out, r\<lparr>r_stretchInputBuf := buf\<rparr>, rb') \<and> takes_front rb rb'"
proof -
  define Q where "Q f \<longleftrightarrow> (\<exists>n out buf rb'. f = Some (n, out, r\<lparr>r_stretchInputBuf := buf\<rparr>, rb') \<and> takes_front rb rb')"
    for f :: "(nat \<times> pcm \<times> renderer \<times> ring_buffer) option"
  have same: "Q (Some (k, o', r, rb1))" if "takes_front rb rb1" for k o' rb1
    using unchanged_renderer [where P = "\<lambda>(n, out, rb'). takes_front rb rb'", OF refl, of k o' rb1 r] that
    by (simp add: Q_def)
  have Qif: "Q (if p then x else y)" if "Q x" "Q y" for p x y using that by simp
  let ?c = "unat (r_channels r)" and ?out = "need div unat (r_channels r)"
    and ?av = "unat (rb_availableToRead rb) div unat (r_channels r)"
  obtain mx where mx: "max_speed r = Fin mx" "1 \<le> mx" "mx \<le> 4" using max_speed_range [OF assms(3)] by blast
  then obtain s where s: "dclamp speed (Fin 1) (max_speed r) = Fin s" "1 \<le> s" "s \<le> 4"
    using dclamp_range [OF assms(2) mx(2)] by fastforce
  have "?out < 2 ^ 40" using assms(4) by (rule le_less_trans [OF div_le_dividend])
  then obtain w where w: "size_cast (dceil (dmul (double_of_nat ?out) (Fin s))) = Some w"
    using wanted_frames s by blast
  define target where "target = (if w < ?out then ?out else if ?av < w then ?av else w)"
  obtain n1 o1 rb1 where r1: "read_into (min ?out ?av * ?c) output rb = (n1, o1, rb1)" by (rule prod_cases3)
  obtain n2 o2 rb2 where r2: "read_into need output rb = (n2, o2, rb2)" by (rule prod_cases3)
  define buf where "buf = (if length (r_stretchInputBuf r) < target * ?c
     then vec_resize (target * ?c) 0 (r_stretchInputBuf r) else r_stretchInputBuf r)"
  obtain n3 src rb3 where r3: "read_into (target * ?c) buf rb = (n3, src, rb3)" by (rule prod_cases3)
  note F = read_into_takes_front [OF assms(1) r1] read_into_takes_front [OF assms(1) r2]
    read_into_takes_front [OF assms(1) r3]
  have stretched: "Q (Some (k, o', r\<lparr>r_stretchInputBuf := src\<rparr>, rb3))"
    "Q (case x of (outFrame, out) \<Rightarrow> Some (outFrame * ?c, out, r\<lparr>r_stretchInputBuf := src\<rparr>, rb3))"
    for k o' and x :: "nat \<times> pcm"
    using F(3) by (auto simp: Q_def split: prod.split)
  have "Q (renderPitchPreserved output need speed (r, rb))"
    unfolding renderPitchPreserved_def case_prod_conv max_speed_def [symmetric] Let_def s(1) w option.case
      target_def [symmetric] buf_def [symmetric] r1 r2 r3
    by (intro Qif same stretched takes_front_refl assms(1) F)
  then show ?thesis by (simp only: Q_def)
qed

text \<open>The fields of the renderer that a turn can change, set to fixed values.\<close>

definition erase :: "renderer \<Rightarrow> renderer" where
  "erase r = r\<lparr>r_currentSpeed := Fin 1, r_stretchInputBuf := [], r_recoveringFromSilence := False,
     r_lastOutputSamples := [], r_renderCount := 0, r_silenceFillCount := 0\<rparr>"

lemma erase_update [simp]:
  "erase (r\<lparr>r_currentSpeed := a\<rparr>) = erase r" "erase (r\<lparr>r_stretchInputBuf := b\<rparr>) = erase r"
  "erase (r\<lparr>r_recoveringFromSilence := c\<rparr>) = erase r" "erase (r\<lparr>r_lastOutputSamples := d\<rparr>) = erase r"
  "erase (r\<lparr>r_renderCount := e\<rparr>) = erase r" "erase (r\<lparr>r_silenceFillCount := e\<rparr>) = erase r"
  by (simp_all add: erase_def)

lemma erase_eqD:
  assumes "erase r' = erase r"
  shows "r_running r' = r_running r" and "r_thread r' = r_thread r" and "r_refs r' = r_refs r"
    and "r_channels r' = r_channels r" and "r_sampleRate r' = r_sampleRate r"
    and "r_maxSpeedPermille r' = r_maxSpeedPermille r" and "r_pRenderClient r' = r_pRenderClient r"
    and "r_dropBaselineDurationMs r' = r_dropBaselineDurationMs r" and "r_bufferFrames r' = r_bufferFrames r"
  using arg_cong [OF assms, of r_running] arg_cong [OF assms, of r_thread] arg_cong [OF assms, of r_refs]
    arg_cong [OF assms, of r_channels] arg_cong [OF assms, of r_sampleRate]
    arg_cong [OF assms, of r_maxSpeedPermille] arg_cong [OF assms, of r_pRenderClient]
    arg_cong [OF assms, of r_dropBaselineDurationMs] arg_cong [OF assms, of r_bufferFrames]
  by (simp_all add: erase_def r_refs_def)

lemma fade_frames [simp]:
  "erase (snd (fadeInAfterSilence s n r)) = erase r" "erase (snd (fillSmoothSilence s n m r)) = erase r"
  "erase (rememberLastSamples s n r) = erase r" "erase (speed_control e n r) = erase r"
  "r_currentSpeed (snd (fadeInAfterSilence s n r)) = r_currentSpeed r"
  "r_currentSpeed (snd (fillSmoothSilence s n m r)) = r_currentSpeed r"
  "r_currentSpeed (rememberLastSamples s n r) = r_currentSpeed r"
  by (simp_all add: fadeInAfterSilence_def fillSmoothSilence_def rememberLastSamples_def speed_control_def Let_def)

lemma finish_turn_frame:
  assumes "finish_turn n need out1 r2 = (out, r')"
  shows "erase r' = erase r2" and "r_currentSpeed r' = r_currentSpeed r2"
proof -
  obtain out2 r3 where f: "(if 0 < n then fadeInAfterSilence out1 n r2 else (out1, r2)) = (out2, r3)" by fastforce
  obtain out3 r4 where g: "fillSmoothSilence out2 n need r3 = (out3, r4)" by fastforce
  have 3: "erase r3 = erase r2" "r_currentSpeed r3 = r_currentSpeed r2"
    using fade_frames(1,5) [of out1 n r2] f by (cases "0 < n"; simp)+
  have 4: "erase r4 = erase r3" "r_currentSpeed r4 = r_currentSpeed r3"
    using fade_frames(2,6) [of out2 n need r3] by (simp_all add: g)
  show "erase r' = erase r2" and "r_currentSpeed r' = r_currentSpeed r2"
    using assms 3 4 unfolding finish_turn_def f g Let_def case_prod_conv by (auto split: if_splits)
qed

lemma render_turn_eq:
  assumes "r_bufferFrames r - padding \<noteq> 0" and "r_pRenderClient r \<noteq> None"
    and "need = unat (r_bufferFrames r - padding) * unat (r_channels r)"
    and "r1 = speed_control cexp (length (rb_contents rb)) r"
    and "(if r_dropBaselineDurationMs r = 0
          then let (n, out, rb') = read_into need out0 rb in Some (n, out, r1, rb')
          else renderPitchPreserved out0 need (r_currentSpeed r1) (r1, rb)) = Some (n, out1, r2, rb')"
    and "finish_turn n need out1 r2 = (out, r')"
    and "need \<le> length out0"
  shows "render_turn cexp padding (Some out0) (r, rb) = Some (Some out, n < need, r', rb')"
proof -
  have room: "(length out0 < need) = False" using assms(7) by simp
  have b: "bufferedSamples (Some rb) = length (rb_contents rb)"
    by (simp add: bufferedSamples_def rb_availableToRead_spec)
  show ?thesis
    unfolding render_turn_def case_prod_conv Let_def b assms(3,4) [symmetric]
    by (simp only: assms(1,2) room assms(5) [unfolded Let_def] assms(6) if_False option.case case_prod_conv)
qed

text \<open>What a renderer needs for its turns not to fail.\<close>

definition render_ready :: "renderer \<Rightarrow> bool" where
  "render_ready r \<longleftrightarrow> speed_limits_ok r \<and> speed_ok r \<and> r_sampleRate r * ucast (r_channels r) \<noteq> 0"

lemma render_ready_erase:
  assumes "render_ready r" and "erase r' = erase r" and "speed_ok r'"
  shows "render_ready r'"
  using assms erase_eqD [OF assms(2)] by (simp add: render_ready_def speed_limits_ok_def)

lemma speed_control_ready:
  assumes "exp_ok cexp" and "render_ready r"
  shows "speed_ok (speed_control cexp (length (rb_contents rb)) r)"
    and "r_currentSpeed (speed_control cexp (length (rb_contents rb)) r) \<noteq> NaN"
proof -
  obtain s where s: "r_currentSpeed r = Fin s" "1 \<le> s" "s \<le> 4"
    using assms(2) by (auto simp: render_ready_def speed_ok_def)
  have "length (rb_contents rb) < 2 ^ 64"
    using unsigned_less [of "rb_availableToRead rb", where ?'a = nat]
    by (simp add: rb_availableToRead_spec)
  then obtain s' mx where "r_currentSpeed (speed_control cexp (length (rb_contents rb)) r) = Fin s'"
      "1 \<le> s'" "s' \<le> mx" "mx \<le> 4"
    using speed_control_range [OF assms(1) _ _ _ s, of "length (rb_contents rb)"] assms(2)
    unfolding render_ready_def by blast
  then show "speed_ok (speed_control cexp (length (rb_contents rb)) r)"
    and "r_currentSpeed (speed_control cexp (length (rb_contents rb)) r) \<noteq> NaN"
    by (auto simp: speed_ok_def)
qed

lemma need_small: "unat (f :: u32) * unat (c :: u8) < 2 ^ 40"
proof -
  have "unat f < 2 ^ 32" "unat c < 2 ^ 8"
    using unsigned_less [of f, where ?'a = nat] unsigned_less [of c, where ?'a = nat] by simp_all
  then have "unat f * unat c \<le> (2 ^ 32 - 1) * (2 ^ 8 - 1)" by (intro mult_mono) simp_all
  then show ?thesis by (rule le_less_trans) simp
qed

text \<open>
  The faults of a turn: the device has room, and there is no render client, \<open>GetBuffer\<close> has
  returned no buffer, or one that is shorter than what was asked for.
\<close>

definition turn_faults :: "u32 \<Rightarrow> pcm option \<Rightarrow> renderer \<Rightarrow> bool" where
  "turn_faults padding pData r \<longleftrightarrow> r_bufferFrames r - padding \<noteq> 0 \<and>
     (r_pRenderClient r = None \<or>
      (case pData of None \<Rightarrow> True
       | Some out0 \<Rightarrow> length out0 < unat (r_bufferFrames r - padding) * unat (r_channels r)))"

lemma turn_faults_erase: "erase r' = erase r \<Longrightarrow> turn_faults padding pData r' = turn_faults padding pData r"
  by (simp only: turn_faults_def erase_eqD(4,7,9) [of r' r])

lemma render_turn_faults: "turn_faults padding pData r \<Longrightarrow> render_turn cexp padding pData (r, rb) = None"
  by (auto simp: turn_faults_def render_turn_def Let_def split: option.split)

lemma render_turn_safe:
  assumes "exp_ok cexp" and "render_ready r" and "rb_inv rb" and "\<not> turn_faults padding pData r"
  shows "\<exists>o' low r' rb'. render_turn cexp padding pData (r, rb) = Some (o', low, r', rb') \<and>
    takes_front rb rb' \<and> erase r' = erase r \<and> render_ready r'"
proof (cases "r_bufferFrames r - padding = 0")
  case True
  then show ?thesis using assms(2,3) by (auto simp: render_turn_def)
next
  case False
  define need where "need = unat (r_bufferFrames r - padding) * unat (r_channels r)"
  obtain out0 where pd: "pData = Some out0" and room: "need \<le> length out0" and client: "r_pRenderClient r \<noteq> None"
    using assms(4) False by (auto simp: turn_faults_def need_def not_less split: option.splits)
  define r1 where "r1 = speed_control cexp (length (rb_contents rb)) r"
  have r1: "speed_ok r1" "r_currentSpeed r1 \<noteq> NaN" "erase r1 = erase r"
    unfolding r1_def using speed_control_ready [OF assms(1,2)] by simp_all
  have lim: "speed_limits_ok r1" using render_ready_erase [OF assms(2) r1(3,1)] by (simp add: render_ready_def)
  have "\<exists>n out1 r2 rb'. (if r_dropBaselineDurationMs r = 0
      then let (n, out, rb') = read_into need out0 rb in Some (n, out, r1, rb')
      else renderPitchPreserved out0 need (r_currentSpeed r1) (r1, rb)) = Some (n, out1, r2, rb') \<and>
    takes_front rb rb' \<and> erase r2 = erase r1 \<and> r_currentSpeed r2 = r_currentSpeed r1"
  proof (cases "r_dropBaselineDurationMs r = 0")
    case True
    obtain n out rb' where ri: "read_into need out0 rb = (n, out, rb')" by (rule prod_cases3)
    show ?thesis using True ri read_into_takes_front [OF assms(3) ri] by simp
  next
    case False
    have "need < 2 ^ 40" unfolding need_def by (rule need_small)
    then obtain n out buf rb' where "renderPitchPreserved out0 need (r_currentSpeed r1) (r1, rb) =
        Some (n, out, r1\<lparr>r_stretchInputBuf := buf\<rparr>, rb')" "takes_front rb rb'"
      using renderPitchPreserved_safe [OF assms(3) r1(2) lim] by blast
    then show ?thesis using False by simp
  qed
  then obtain n out1 r2 rb' where X: "(if r_dropBaselineDurationMs r = 0
      then let (n, out, rb') = read_into need out0 rb in Some (n, out, r1, rb')
      else renderPitchPreserved out0 need (r_currentSpeed r1) (r1, rb)) = Some (n, out1, r2, rb')"
    "takes_front rb rb'" "erase r2 = erase r1" "r_currentSpeed r2 = r_currentSpeed r1" by blast
  obtain out r' where fin: "finish_turn n need out1 r2 = (out, r')" by fastforce
  note F = finish_turn_frame [OF fin]
  have e: "erase r' = erase r" using F(1) X(3) r1(3) by simp
  have "speed_ok r'" using r1(1) F(2) X(4) by (simp add: speed_ok_def)
  then have "render_ready r'" by (rule render_ready_erase [OF assms(2) e])
  with render_turn_eq [OF False client need_def r1_def X(1) fin room] X(2) e
  show ?thesis unfolding pd by blast
qed

text \<open>Nothing else makes a turn fail.\<close>

lemma render_turn_None_iff:
  assumes "exp_ok cexp" and "render_ready r" and "rb_inv rb"
  shows "render_turn cexp padding pData (r, rb) = None \<longleftrightarrow> turn_faults padding pData r"
  using render_turn_safe [OF assms, of padding pData] render_turn_faults [of padding pData r cexp rb]
  by (cases "turn_faults padding pData r") auto

section \<open>A turn with whole frames\<close>

definition ring_frames :: "nat \<Rightarrow> ring_buffer \<Rightarrow> bool" where
  "ring_frames c rb \<longleftrightarrow> rb_inv rb \<and> 0 < c \<and> c dvd rb_cap rb \<and> c dvd length (rb_contents rb)"

text \<open>
  What a turn plays: the first \<open>n\<close> samples come from the ring buffer, cut and cross-faded, and
  moved towards zero when they follow a silence; the rest runs out to silence.
\<close>

definition plays :: "renderer \<Rightarrow> ring_buffer \<Rightarrow> pcm \<Rightarrow> nat \<Rightarrow> ring_buffer \<Rightarrow> bool" where
  "plays r rb out n rb' \<longleftrightarrow> (\<exists>src w.
     rb_contents rb = src @ rb_contents rb' \<and> cut_and_fade (unat (r_channels r)) src w \<and> length w = n \<and>
     (\<forall>i<n. between 0 (w ! i) (out ! i)) \<and>
     (\<not> r_recoveringFromSilence r \<longrightarrow> take n out = w) \<and>
     (r_dropBaselineDurationMs r = 0 \<longrightarrow> w = src))"

lemma fadeIn_recovering:
  "fadeInAfterSilence s n r = (out, r') \<Longrightarrow> 0 < n \<Longrightarrow> r_channels r \<noteq> 0 \<Longrightarrow> \<not> r_recoveringFromSilence r'"
  "fadeInAfterSilence s n r = (out, r') \<Longrightarrow> \<not> r_recoveringFromSilence r \<Longrightarrow> out = s \<and> r' = r"
  "fadeInAfterSilence s n r = (out, r') \<Longrightarrow> r_lastOutputSamples r' = r_lastOutputSamples r \<and>
     r_channels r' = r_channels r \<and> r_sampleRate r' = r_sampleRate r"
  by (auto simp: fadeInAfterSilence_def Let_def split: if_splits)

lemma remember_recovering [simp]: "r_recoveringFromSilence (rememberLastSamples s n r) = r_recoveringFromSilence r"
  by (simp add: rememberLastSamples_def Let_def)

definition fade_max :: "renderer \<Rightarrow> nat" where
  "fade_max r = unat (max 1 (r_sampleRate r div 200))"

lemma finish_turn_fills:
  fixes r2 :: renderer
  assumes "finish_turn n need out1 r2 = (out, r')" and "0 < unat (r_channels r2)" and "unat (r_channels r2) dvd n"
    and "unat (r_channels r2) dvd need" and "n \<le> need" and "length out1 = need"
  defines "c \<equiv> unat (r_channels r2)"
  shows "length out = need" and "i < n \<Longrightarrow> between 0 (out1 ! i) (out ! i)"
    and "\<not> r_recoveringFromSilence r2 \<Longrightarrow> take n out = take n out1"
    and "n \<le> i \<Longrightarrow> i < need \<Longrightarrow> between 0 (held_sample out n r2 (i mod c)) (out ! i)"
    and "n + fade_max r2 * c \<le> i + c \<Longrightarrow> n \<le> i \<Longrightarrow> i < need \<Longrightarrow> out ! i = 0"
    and "0 < n \<Longrightarrow> n = need \<Longrightarrow> \<not> r_recoveringFromSilence r'"
proof -
  have ch: "r_channels r2 \<noteq> 0" using assms(2) by auto
  obtain out2 r3 where f: "(if 0 < n then fadeInAfterSilence out1 n r2 else (out1, r2)) = (out2, r3)" by fastforce
  have f': "0 < n \<Longrightarrow> fadeInAfterSilence out1 n r2 = (out2, r3)" using f by simp
  have "r_lastOutputSamples r3 = r_lastOutputSamples r2 \<and> r_channels r3 = r_channels r2 \<and>
    r_sampleRate r3 = r_sampleRate r2"
  proof (cases "0 < n")
    case True
    then show ?thesis using fadeIn_recovering(3) [OF f' [OF True]] by blast
  next
    case False
    then have "r3 = r2" using f by simp
    then show ?thesis by blast
  qed
  then have three: "r_lastOutputSamples r3 = r_lastOutputSamples r2" "r_channels r3 = r_channels r2"
    "r_sampleRate r3 = r_sampleRate r2" by blast+
  have len2: "length out2 = need"
  proof (cases "0 < n")
    case True
    then show ?thesis using fadeIn_nth(1) [OF f' [OF True], of 0] assms(5,6) by simp
  next
    case False
    then show ?thesis using f assms(6) by simp
  qed
  have b2: "between 0 (out1 ! i) (out2 ! i)" if "i < n" for i
    using fadeIn_nth(2) [OF f'] that assms(5,6) by simp
  have keep2: "out2 = out1" if "\<not> r_recoveringFromSilence r2"
    using f fadeIn_recovering(2) [of out1 n r2 out2 r3] that by (cases "0 < n") simp_all
  have "length out = need \<and> (i < n \<longrightarrow> between 0 (out1 ! i) (out ! i)) \<and>
        (\<not> r_recoveringFromSilence r2 \<longrightarrow> take n out = take n out1) \<and>
        (n \<le> i \<longrightarrow> i < need \<longrightarrow> between 0 (held_sample out n r2 (i mod c)) (out ! i)) \<and>
        (n + fade_max r2 * c \<le> i + c \<longrightarrow> n \<le> i \<longrightarrow> i < need \<longrightarrow> out ! i = 0) \<and>
        (0 < n \<longrightarrow> n = need \<longrightarrow> \<not> r_recoveringFromSilence r')"
  proof (cases "n < need")
    case False
    then have "out = out2" and "r_recoveringFromSilence r' = r_recoveringFromSilence r3"
      using assms(1) unfolding finish_turn_def f by (auto simp: Let_def)
    moreover have "n = need" using False assms(5) by simp
    ultimately show ?thesis
      using len2 b2 keep2 fadeIn_recovering(1) [OF f' _ ch] by simp
  next
    case True
    obtain r4 where g: "fillSmoothSilence out2 n need r3 = (out, r4)"
      using assms(1) True unfolding finish_turn_def f by (auto simp: Let_def split: prod.splits)
    have c3: "unat (r_channels r3) = c" "r_channels r3 \<noteq> 0" using three(2) ch by (simp_all add: c_def)
    note F = fill_nth [OF g _ c3(2) True, unfolded c3(1)]
    have div: "n div c * c = n" "need div c * c = need" using assms(3,4) by (simp_all add: c_def)
    have same: "out ! k = out2 ! k" if "k < n" for k using F(2) [of k] that len2 div by simp
    have held: "held_sample out n r2 ch = held_sample out2 n r3 ch" if "ch < c" for ch
    proof (cases "c \<le> n")
      case c: True
      have c0: "0 < c" using assms(2) by (simp add: c_def)
      have "1 \<le> n div c" using c c0 by (simp add: div_greater_zero_iff Suc_le_eq)
      then have "(n div c - 1) * c + c = n" using div(1) c by (simp add: diff_mult_distrib)
      then have "(n div c - 1) * c + ch < n" using that by linarith
      then show ?thesis using c by (simp add: held_sample_def c3(1) c_def [symmetric] Let_def same)
    next
      case False
      then show ?thesis using three by (simp add: held_sample_def c3(1) c_def [symmetric] Let_def)
    qed
    have need_le: "need \<le> length out2" using len2 by simp
    have len: "length out = need" using F(1) len2 by simp
    have "take n out = take n out2" using same len len2 assms(5) by (intro nth_equalityI) simp_all
    moreover have "between 0 (held_sample out n r2 (i mod c)) (out ! i)" if "n \<le> i" "i < need"
      using F(3) [of i] that len2 div held [of "i mod c"] assms(2) by (simp add: c_def)
    moreover have "out ! i = 0" if late: "n + fade_max r2 * c \<le> i + c" "n \<le> i" "i < need"
    proof -
      have "fade_length (need div c - n div c) r3 \<le> fade_max r2" by (simp add: fade_length_def fade_max_def three)
      then have "fade_length (need div c - n div c) r3 * c \<le> fade_max r2 * c" by (rule mult_right_mono) simp
      then have "n + fade_length (need div c - n div c) r3 * c \<le> i + c" using late(1) by linarith
      then show ?thesis using F(4) [of i, unfolded div] late(2,3) need_le by blast
    qed
    ultimately show ?thesis
      using len same b2 keep2 True by simp
  qed
  then show "length out = need" and "i < n \<Longrightarrow> between 0 (out1 ! i) (out ! i)"
    and "\<not> r_recoveringFromSilence r2 \<Longrightarrow> take n out = take n out1"
    and "n \<le> i \<Longrightarrow> i < need \<Longrightarrow> between 0 (held_sample out n r2 (i mod c)) (out ! i)"
    and "n + fade_max r2 * c \<le> i + c \<Longrightarrow> n \<le> i \<Longrightarrow> i < need \<Longrightarrow> out ! i = 0"
    and "0 < n \<Longrightarrow> n = need \<Longrightarrow> \<not> r_recoveringFromSilence r'"
    by blast+
qed

lemma delivers_takes_front: "delivers c need out0 rb (n, out, rb') \<Longrightarrow> takes_front rb rb'"
  by (auto simp: delivers_def takes_front_def)

lemma delivers_ring_frames:
  assumes "delivers c need out0 rb (n, out, rb')" and "ring_frames c rb"
  shows "ring_frames c rb'"
proof -
  obtain src where d: "rb_inv rb'" "rb_cap rb' = rb_cap rb" "rb_contents rb = src @ rb_contents rb'" "c dvd length src"
    using assms(1) by (auto simp: delivers_def)
  have "c dvd length (rb_contents rb)" using assms(2) by (simp only: ring_frames_def)
  then have "c dvd length (rb_contents rb')" unfolding d(3) using d(4) by (simp only: length_append dvd_add_right_iff)
  then show ?thesis using d(1,2) assms(2) by (simp only: ring_frames_def)
qed

lemma front_overwrite:
  "take (length xs) (overwrite 0 xs buf) = xs" "drop (length xs) (overwrite 0 xs buf) = drop (length xs) buf"
  by (simp_all add: overwrite_def)

text \<open>The samples of a turn, for whole frames and a buffer of the requested size.\<close>

lemma render_turn_plays:
  fixes padding :: u32
  assumes "exp_ok cexp" and "render_ready r" and "ring_frames (unat (r_channels r)) rb" and "r_pRenderClient r \<noteq> None"
    and "r_bufferFrames r - padding \<noteq> 0"
    and "length out0 = unat (r_bufferFrames r - padding) * unat (r_channels r)"
  shows "\<exists>out n r' rb'. render_turn cexp padding (Some out0) (r, rb) = Some (Some out, n < length out, r', rb') \<and>
    length out = length out0 \<and> n = min (length out) (length (rb_contents rb)) \<and> plays r rb out n rb' \<and>
    ring_frames (unat (r_channels r)) rb' \<and> erase r' = erase r \<and> render_ready r' \<and>
    (n < length out \<longrightarrow> rb_contents rb' = []) \<and>
    (n = length out \<longrightarrow> \<not> r_recoveringFromSilence r') \<and>
    (\<forall>i. n \<le> i \<and> i < length out \<longrightarrow> between 0 (held_sample out n r (i mod unat (r_channels r))) (out ! i)) \<and>
    (\<forall>i. n + fade_max r * unat (r_channels r) \<le> i + unat (r_channels r) \<and> n \<le> i \<and> i < length out \<longrightarrow> out ! i = 0)"
proof -
  let ?c = "unat (r_channels r)" and ?m = "unat (r_bufferFrames r - padding)"
  have c: "0 < ?c" and rb: "rb_inv rb" "?c dvd length (rb_contents rb)"
    using assms(3) by (simp_all only: ring_frames_def)
  have m: "0 < ?m" using assms(5) by (simp add: unat_gt_0)
  have m32: "?m < 2 ^ 32" using unsigned_less [of "r_bufferFrames r - padding", where ?'a = nat] by simp
  define r1 where "r1 = speed_control cexp (length (rb_contents rb)) r"
  have r1: "speed_ok r1" "r_currentSpeed r1 \<noteq> NaN" "erase r1 = erase r"
    unfolding r1_def using speed_control_ready [OF assms(1,2)] by simp_all
  have lim: "speed_limits_ok r1" using render_ready_erase [OF assms(2) r1(3,1)] by (simp add: render_ready_def)
  have rec1: "r_recoveringFromSilence r1 = r_recoveringFromSilence r" "r_lastOutputSamples r1 = r_lastOutputSamples r"
    by (simp_all add: r1_def speed_control_def Let_def)
  note E1 = erase_eqD [OF r1(3)]
  have "\<exists>n out1 r2 rb'. (if r_dropBaselineDurationMs r = 0
      then let (n, out, rb') = read_into (?m * ?c) out0 rb in Some (n, out, r1, rb')
      else renderPitchPreserved out0 (?m * ?c) (r_currentSpeed r1) (r1, rb)) = Some (n, out1, r2, rb') \<and>
    delivers ?c (?m * ?c) out0 rb (n, out1, rb') \<and> (\<exists>buf. r2 = r1\<lparr>r_stretchInputBuf := buf\<rparr>) \<and>
    (r_dropBaselineDurationMs r = 0 \<longrightarrow> rb_contents rb = take n out1 @ rb_contents rb')"
  proof (cases "r_dropBaselineDurationMs r = 0")
    case True
    have big: "?m * ?c < 2 ^ 64" using need_small [of "r_bufferFrames r - padding" "r_channels r"] by (rule less_trans) simp
    obtain a where a: "length (rb_contents rb) = a * ?c" using rb(2) by (metis dvd_def mult.commute)
    obtain rb' where ri: "read_into (?m * ?c) out0 rb = (min (?m * ?c) (length (rb_contents rb)),
        overwrite 0 (take (?m * ?c) (rb_contents rb)) out0, rb')"
      and rb': "rb_inv rb'" "rb_contents rb' = drop (?m * ?c) (rb_contents rb)" "rb_cap rb' = rb_cap rb"
      by (rule read_into_spec [OF rb(1) big])
    let ?n = "min (?m * ?c) (length (rb_contents rb))" and ?src = "take (?m * ?c) (rb_contents rb)"
    have lsrc: "length ?src = ?n" by (simp add: min.commute)
    have dv: "?c dvd ?n" unfolding a by (simp add: min_def)
    have tk: "take ?n (overwrite 0 ?src out0) = ?src" and dr: "drop ?n (overwrite 0 ?src out0) = drop ?n out0"
      using front_overwrite [of ?src out0] unfolding lsrc by simp_all
    have "delivers ?c (?m * ?c) out0 rb (?n, overwrite 0 ?src out0, rb')"
      unfolding delivers_def case_prod_conv
    proof (intro conjI exI [of _ ?src])
      show "length (overwrite 0 ?src out0) = length out0" using assms(6) lsrc by (intro length_overwrite) simp
      show "?n < ?m * ?c \<longrightarrow> rb_contents rb' = []" unfolding rb'(2) drop_eq_Nil by (simp add: min_def)
      show "cut_and_fade ?c ?src (take ?n (overwrite 0 ?src out0))" unfolding tk by simp
      show "length ?src \<le> 4 * (?m * ?c)" unfolding lsrc by simp
    qed (use rb' dv lsrc dr in \<open>simp_all only: append_take_drop_id min.cobounded1\<close>)
    moreover have "rb_contents rb = take ?n (overwrite 0 ?src out0) @ rb_contents rb'"
      unfolding tk rb'(2) by simp
    moreover have "\<exists>buf. r1 = r1\<lparr>r_stretchInputBuf := buf\<rparr>"
      by (rule exI [of _ "r_stretchInputBuf r1"]) simp
    ultimately show ?thesis using True ri by auto
  next
    case False
    have c1: "unat (r_channels r1) = ?c" using E1 by simp
    obtain n out buf rb' where "renderPitchPreserved out0 (?m * ?c) (r_currentSpeed r1) (r1, rb) =
        Some (n, out, r1\<lparr>r_stretchInputBuf := buf\<rparr>, rb')" "delivers ?c (?m * ?c) out0 rb (n, out, rb')"
      using renderPitchPreserved_delivers [OF rb(1) c1 c rb(2) assms(6) m32 r1(2) lim] by blast
    then show ?thesis using False by auto
  qed
  then obtain n out1 r2 rb' buf where X: "(if r_dropBaselineDurationMs r = 0
      then let (n, out, rb') = read_into (?m * ?c) out0 rb in Some (n, out, r1, rb')
      else renderPitchPreserved out0 (?m * ?c) (r_currentSpeed r1) (r1, rb)) = Some (n, out1, r2, rb')"
    "delivers ?c (?m * ?c) out0 rb (n, out1, rb')" "r2 = r1\<lparr>r_stretchInputBuf := buf\<rparr>"
    "r_dropBaselineDurationMs r = 0 \<Longrightarrow> rb_contents rb = take n out1 @ rb_contents rb'" by blast
  have r2: "erase r2 = erase r" "r_currentSpeed r2 = r_currentSpeed r1" "r_channels r2 = r_channels r"
    "r_recoveringFromSilence r2 = r_recoveringFromSilence r" "r_sampleRate r2 = r_sampleRate r"
    "r_lastOutputSamples r2 = r_lastOutputSamples r"
    using r1(3) E1 rec1 by (simp_all add: X(3))
  obtain out r' where fin: "finish_turn n (?m * ?c) out1 r2 = (out, r')" by fastforce
  obtain src where D: "length out1 = length out0" "n = min (?m * ?c) (length (rb_contents rb))" "?c dvd n" "n < ?m * ?c \<longrightarrow> rb_contents rb' = []"
      "rb_contents rb = src @ rb_contents rb'" "cut_and_fade ?c src (take n out1)"
    using X(2) unfolding delivers_def case_prod_conv by blast
  have nle: "n \<le> ?m * ?c" unfolding D(2) by (rule min.cobounded1)
  have c2: "0 < unat (r_channels r2)" "unat (r_channels r2) dvd n" "unat (r_channels r2) dvd ?m * ?c"
    using c D(3) by (simp_all add: r2(3))
  note F = finish_turn_fills [OF fin c2 nle, unfolded D(1), OF assms(6)]
  note FF = finish_turn_frame [OF fin]
  have ready: "render_ready r'"
    using r1(1) FF r2(1,2) by (intro render_ready_erase [OF assms(2)]) (simp_all add: speed_ok_def)
  have len: "length out = ?m * ?c" by (rule F(1))
  have held: "held_sample out n r2 ch = held_sample out n r ch" for ch by (simp only: held_sample_def r2)
  have fm: "fade_max r2 = fade_max r" by (simp add: fade_max_def r2)
  have ltn: "length (take n out1) = n" using D(1) nle assms(6) by simp
  have "plays r rb out n rb'"
    unfolding plays_def
  proof (intro exI conjI allI impI)
    show "rb_contents rb = src @ rb_contents rb'" "cut_and_fade ?c src (take n out1)" "length (take n out1) = n"
      by (rule D(5), rule D(6), rule ltn)
    show "between 0 (take n out1 ! i) (out ! i)" if "i < n" for i using F(2) [of i] that by simp
    show "take n out = take n out1" if "\<not> r_recoveringFromSilence r" using F(3) that r2(4) by simp
    show "take n out1 = src" if "r_dropBaselineDurationMs r = 0"
      using X(4) [OF that] D(5) by simp
  qed
  moreover have "\<not> r_recoveringFromSilence r'" if "n = length out"
    using F(6) that m c unfolding len by simp
  moreover have "\<forall>i. n \<le> i \<and> i < length out \<longrightarrow> between 0 (held_sample out n r (i mod ?c)) (out ! i)"
    using F(4) unfolding len held r2(3) by blast
  moreover have "\<forall>i. n + fade_max r * ?c \<le> i + ?c \<and> n \<le> i \<and> i < length out \<longrightarrow> out ! i = 0"
    using F(5) unfolding len fm r2(3) by blast
  moreover have "render_turn cexp padding (Some out0) (r, rb) = Some (Some out, n < length out, r', rb')"
    unfolding len by (rule render_turn_eq [OF assms(5,4) refl r1_def X(1) fin]) (simp add: assms(6))
  moreover have "erase r' = erase r" using FF(1) r2(1) by simp
  moreover have "ring_frames ?c rb'" by (rule delivers_ring_frames [OF X(2) assms(3)])
  moreover have "length out = length out0" using len assms(6) by simp
  moreover have "n = min (length out) (length (rb_contents rb))" "n < length out \<longrightarrow> rb_contents rb' = []"
    unfolding len by (rule D(2), rule D(4))
  ultimately show ?thesis using ready by blast
qed

end
