(* ===== verification/Rendering.thy ===== *)
theory Rendering
  imports Render_Thread
begin

text \<open>
  What the render thread promises: every buffer the device asks for is filled, the samples of
  the ring buffer are played in order, an underrun runs out to silence, compression in time
  keeps the ends and cuts at the cheapest place, the speed stays within its limits, no turn
  fails, and the thread ends when it is told to.
\<close>

section \<open>Writes between turns\<close>

lemma ring_frames_put:
  assumes "ring_frames c rb" and "c dvd length xs" and "length xs < 2 ^ 64"
  shows "ring_frames c (snd (rb_put xs rb))"
    and "\<exists>k. rb_contents (snd (rb_put xs rb)) = rb_contents rb @ take k xs"
proof -
  obtain n rb' where p: "rb_put xs rb = (n, rb')" by fastforce
  have rb: "rb_inv rb" "0 < c" "c dvd rb_cap rb" "c dvd length (rb_contents rb)"
    using assms(1) by (simp_all only: ring_frames_def)
  note spec = rb_put_spec [OF rb(1) assms(3) p]
  show "\<exists>k. rb_contents (snd (rb_put xs rb)) = rb_contents rb @ take k xs"
    unfolding p snd_conv using spec(3) by blast
  have "length (rb_contents rb') = length (rb_contents rb) + min (length xs) (rb_cap rb - length (rb_contents rb))"
    unfolding spec(3) length_append length_take by (simp only: min.commute)
  moreover have "c dvd min (length xs) (rb_cap rb - length (rb_contents rb))"
    using rb(3,4) assms(2) by (simp add: min_def dvd_diff_nat del: length_rb_contents)
  ultimately have "c dvd length (rb_contents rb')" using rb(4) by simp
  then show "ring_frames c (snd (rb_put xs rb))"
    using spec(1,4) rb(2,3) by (simp only: p snd_conv ring_frames_def)
qed

text \<open>
  A turn as its surroundings promise it: whole frames are written, and \<open>GetBuffer\<close> returns
  room for as many frames as were asked for.
\<close>

fun turn_framed :: "renderer \<Rightarrow> bool \<times> pcm \<times> wake \<Rightarrow> bool" where
  "turn_framed r (running, written, wake) \<longleftrightarrow>
     length written < 2 ^ 64 \<and> unat (r_channels r) dvd length written \<and>
     (case wake of
        Wake_Event padding pData \<Rightarrow>
          (case pData of
             None \<Rightarrow> r_bufferFrames r - padding = 0
           | Some out0 \<Rightarrow> length out0 = unat (r_bufferFrames r - padding) * unat (r_channels r))
      | _ \<Rightarrow> True)"

lemma turn_framed_erase:
  assumes "erase r' = erase r"
  shows "turn_framed r' = turn_framed r"
proof
  show "turn_framed r' x = turn_framed r x" for x
    using erase_eqD(4,9) [OF assms] by (cases x) (simp split: wake.split option.split)
qed

text \<open>
  The thread without compression over plain lists: a write adds as much as there is room
  for, an event takes what the device has room for from the front. Results: the buffers
  played, whether one of them was short, and what is left.
\<close>

fun ideal_playback ::
    "nat \<Rightarrow> u32 \<Rightarrow> nat \<Rightarrow> (bool \<times> pcm \<times> wake) list \<Rightarrow> pcm \<Rightarrow> pcm list \<times> bool \<times> pcm" where
  "ideal_playback cap bufferFrames channels [] q = ([], False, q)"
| "ideal_playback cap bufferFrames channels ((running, written, wake) # turns) q0 =
     (let q = q0 @ take (cap - length q0) written in
      if \<not> running then ([], False, q)
      else case wake of
        Wake_Event padding _ \<Rightarrow>
          (if bufferFrames - padding = 0 then ideal_playback cap bufferFrames channels turns q
           else let need = unat (bufferFrames - padding) * channels;
                    (played, low, rest) = ideal_playback cap bufferFrames channels turns (drop need q)
                in (take need q # played, length q < need \<or> low, rest))
      | Wake_Other \<Rightarrow> ideal_playback cap bufferFrames channels turns q
      | _ \<Rightarrow> ([], False, q))"

lemma ring_frames_put_exact:
  assumes "ring_frames c rb" and "length xs < 2 ^ 64"
  shows "rb_contents (snd (rb_put xs rb)) = rb_contents rb @ take (rb_cap rb - length (rb_contents rb)) xs"
    and "rb_cap (snd (rb_put xs rb)) = rb_cap rb"
proof -
  obtain n rb' where p: "rb_put xs rb = (n, rb')" by fastforce
  have rb: "rb_inv rb" using assms(1) by (simp only: ring_frames_def)
  show "rb_contents (snd (rb_put xs rb)) = rb_contents rb @ take (rb_cap rb - length (rb_contents rb)) xs"
    and "rb_cap (snd (rb_put xs rb)) = rb_cap rb"
    using rb_put_spec(3,4) [OF rb assms(2) p] by (simp_all only: p snd_conv)
qed

text \<open>One turn without compression.\<close>

lemma render_turn_ideal:
  fixes padding :: u32
  assumes "exp_ok cexp" and "render_ready r" and "ring_frames (unat (r_channels r)) rb"
    and "r_pRenderClient r \<noteq> None" and "r_dropBaselineDurationMs r = 0"
    and "r_bufferFrames r - padding \<noteq> 0"
    and "length out0 = unat (r_bufferFrames r - padding) * unat (r_channels r)"
  shows "\<exists>out r' rb'. render_turn cexp padding (Some out0) (r, rb) =
      Some (Some out, length (rb_contents rb) < length out0, r', rb') \<and>
    rb_contents rb' = drop (length out0) (rb_contents rb) \<and> rb_cap rb' = rb_cap rb \<and>
    ring_frames (unat (r_channels r)) rb' \<and> erase r' = erase r \<and> render_ready r' \<and>
    (\<not> length (rb_contents rb) < length out0 \<longrightarrow> \<not> r_recoveringFromSilence r' \<and>
      (\<not> r_recoveringFromSilence r \<longrightarrow> out = take (length out0) (rb_contents rb)))"
proof -
  obtain out n r' rb' where T: "render_turn cexp padding (Some out0) (r, rb) = Some (Some out, n < length out, r', rb')"
      "length out = length out0" "n = min (length out) (length (rb_contents rb))" "plays r rb out n rb'"
      "ring_frames (unat (r_channels r)) rb'" "erase r' = erase r" "render_ready r'"
      "n < length out \<longrightarrow> rb_contents rb' = []" "n = length out \<longrightarrow> \<not> r_recoveringFromSilence r'"
    using render_turn_plays [OF assms(1-4,6,7)] by blast
  have cap: "rb_cap rb' = rb_cap rb"
    using render_turn_safe [OF assms(1,2), of rb padding "Some out0"] assms(3,4,7) T(1)
    by (auto simp: ring_frames_def takes_front_def turn_faults_def)
  obtain src where src: "rb_contents rb = src @ rb_contents rb'" "length src = n"
      "\<not> r_recoveringFromSilence r \<longrightarrow> take n out = src"
    using T(4) assms(5) by (auto simp: plays_def)
  have low: "n < length out \<longleftrightarrow> length (rb_contents rb) < length out0"
    unfolding T(2,3) by linarith
  have rest: "rb_contents rb' = drop (length out0) (rb_contents rb)"
  proof (cases "n < length out")
    case True
    then show ?thesis using T(8) low by simp
  next
    case False
    then have "length src = length out0" using T(2,3) src(2) by simp
    then show ?thesis unfolding src(1) by simp
  qed
  have "\<not> r_recoveringFromSilence r' \<and> (\<not> r_recoveringFromSilence r \<longrightarrow> out = take (length out0) (rb_contents rb))"
    if "\<not> length (rb_contents rb) < length out0"
  proof -
    have n: "n = length out" using that T(3) unfolding T(2) by simp
    then show ?thesis using T(2,9) src by simp
  qed
  then show ?thesis using T(1,5-7) rest cap unfolding low by blast
qed

lemma thread_ideal:
  assumes "exp_ok cexp" and "render_ready r" and "ring_frames (unat (r_channels r)) rb"
    and "r_pRenderClient r \<noteq> None" and "r_dropBaselineDurationMs r = 0"
    and "list_all (turn_framed r) turns"
    and "ideal_playback (rb_cap rb) (r_bufferFrames r) (unat (r_channels r)) turns (rb_contents rb) = (played, low, rest)"
  shows "\<exists>t r' rb'. renderThread cexp turns (r, rb) = Some (t, r', rb') \<and>
    rb_contents rb' = rest \<and> t_underrun t = low \<and> (\<not> low \<and> \<not> r_recoveringFromSilence r \<longrightarrow> t_played t = played)"
  using assms
proof (induction turns arbitrary: r rb played low)
  case Nil
  then show ?case by (simp add: t_idle_def)
next
  case (Cons turn turns)
  obtain running written wake where x: "turn = (running, written, wake)" by (rule prod_cases3)
  let ?rb = "snd (rb_put written rb)" and ?c = "unat (r_channels r)"
  have w: "length written < 2 ^ 64" "?c dvd length written" using Cons.prems(6) by (simp_all add: x)
  note F = ring_frames_put [OF Cons.prems(3) w(2,1)] and P = ring_frames_put_exact [OF Cons.prems(3) w(1)]
  have rest: "list_all (turn_framed r) turns" using Cons.prems(6) by simp
  consider (stop) "\<not> running \<or> wake = Wake_Stop \<or> wake = Wake_Timeout"
    | (other) running "wake = Wake_Other" | (event) padding pData where running "wake = Wake_Event padding pData"
    by (cases wake) auto
  then show ?case
  proof cases
    case stop
    then show ?thesis using Cons.prems(7) P by (auto simp: x t_idle_def Let_def split: if_splits)
  next
    case other
    then have "ideal_playback (rb_cap ?rb) (r_bufferFrames r) ?c turns (rb_contents ?rb) = (played, low, rest)"
      using Cons.prems(7) P by (simp add: x Let_def)
    then show ?thesis using Cons.IH [OF Cons.prems(1,2) F(1) Cons.prems(4,5) rest] other by (simp add: x Let_def)
  next
    case event
    show ?thesis
    proof (cases "r_bufferFrames r - padding = 0")
      case True
      then have turn: "render_turn cexp padding pData (r, ?rb) = Some (None, False, r, ?rb)"
        by (simp add: render_turn_def)
      have "ideal_playback (rb_cap ?rb) (r_bufferFrames r) ?c turns (rb_contents ?rb) = (played, low, rest)"
        using Cons.prems(7) P event True by (simp add: x Let_def)
      then show ?thesis
        using Cons.IH [OF Cons.prems(1,2) F(1) Cons.prems(4,5) rest] event turn by (fastforce simp: x Let_def)
    next
      case False
      let ?need = "unat (r_bufferFrames r - padding) * ?c"
      obtain out0 where pd: "pData = Some out0" and len: "length out0 = ?need"
        using Cons.prems(6) False by (auto simp: x event split: option.splits)
      obtain played1 low1 where I: "ideal_playback (rb_cap rb) (r_bufferFrames r) ?c turns (drop ?need (rb_contents ?rb)) =
          (played1, low1, rest)" "played = take ?need (rb_contents ?rb) # played1"
          "low \<longleftrightarrow> length (rb_contents ?rb) < ?need \<or> low1"
        using Cons.prems(7) event False unfolding P(1) by (auto simp: x Let_def split: prod.splits)
      obtain out r1 rb1 where T: "render_turn cexp padding pData (r, ?rb) =
            Some (Some out, length (rb_contents ?rb) < ?need, r1, rb1)"
          "rb_contents rb1 = drop ?need (rb_contents ?rb)" "rb_cap rb1 = rb_cap ?rb" "ring_frames ?c rb1"
          "erase r1 = erase r" "render_ready r1"
          "\<not> length (rb_contents ?rb) < ?need \<Longrightarrow> \<not> r_recoveringFromSilence r1 \<and>
            (\<not> r_recoveringFromSilence r \<longrightarrow> out = take ?need (rb_contents ?rb))"
        using render_turn_ideal [OF Cons.prems(1,2) F(1) Cons.prems(4,5) False len] unfolding pd len by blast
      note E = erase_eqD [OF T(5)]
      have "list_all (turn_framed r1) turns" using rest by (simp only: turn_framed_erase [OF T(5)])
      then obtain t r' rb' where "renderThread cexp turns (r1, rb1) = Some (t, r', rb')" "rb_contents rb' = rest"
          "t_underrun t = low1" "\<not> low1 \<and> \<not> r_recoveringFromSilence r1 \<longrightarrow> t_played t = played1"
        using Cons.IH [OF Cons.prems(1) T(6), of rb1 played1 low1] T(2-4) P(2) I(1) Cons.prems(4,5) E by auto
      then show ?thesis using event T(1,7) I(2,3) by (auto simp: x Let_def)
    qed
  qed
qed

text \<open>What is written before the thread ends, and the list machine when all of it fits.\<close>

fun turn_ends :: "bool \<times> pcm \<times> wake \<Rightarrow> bool" where
  "turn_ends (running, written, wake) \<longleftrightarrow> \<not> running \<or> wake = Wake_Stop \<or> wake = Wake_Timeout"

fun written_until_end :: "(bool \<times> pcm \<times> wake) list \<Rightarrow> pcm" where
  "written_until_end [] = []"
| "written_until_end (turn # turns) = fst (snd turn) @ (if turn_ends turn then [] else written_until_end turns)"

lemma ideal_playback_complete:
  assumes "length q + length (written_until_end turns) \<le> cap"
    and "ideal_playback cap bufferFrames channels turns q = (played, low, rest)"
  shows "q @ written_until_end turns = concat played @ rest"
  using assms
proof (induction turns arbitrary: q played low)
  case Nil
  then show ?case by simp
next
  case (Cons turn turns)
  obtain running written wake where x: "turn = (running, written, wake)" by (rule prod_cases3)
  have fits: "take (cap - length q) written = written" using Cons.prems(1) by (simp add: x)
  show ?case
  proof (cases "turn_ends turn")
    case True
    then show ?thesis using Cons.prems(2) fits by (cases wake) (auto simp: x Let_def split: if_splits)
  next
    case False
    have room: "length (q @ written) + length (written_until_end turns) \<le> cap"
      using Cons.prems(1) False by (simp add: x)
    show ?thesis
    proof (cases wake)
      case (Wake_Event padding pData)
      show ?thesis
      proof (cases "bufferFrames - padding = 0")
        case True
        then show ?thesis using Cons.IH [OF room] Cons.prems(2) False fits by (simp add: x Wake_Event Let_def)
      next
        case ne: False
        let ?need = "unat (bufferFrames - padding) * channels"
        obtain played1 low1 where I: "ideal_playback cap bufferFrames channels turns (drop ?need (q @ written)) = (played1, low1, rest)"
            "played = take ?need (q @ written) # played1"
          using Cons.prems(2) False ne fits by (auto simp: x Wake_Event Let_def split: prod.splits)
        have "length (drop ?need (q @ written)) + length (written_until_end turns) \<le> cap" using room by simp
        then have "drop ?need (q @ written) @ written_until_end turns = concat played1 @ rest"
          using I(1) by (rule Cons.IH)
        then have "take ?need (q @ written) @ drop ?need (q @ written) @ written_until_end turns =
            concat played @ rest" by (simp only: I(2) concat.simps append_assoc)
        then show ?thesis using False by (simp only: append_assoc [symmetric] append_take_drop_id) (simp add: x)
      qed
    next
      case Wake_Other
      then show ?thesis using Cons.IH [OF room] Cons.prems(2) False fits by (simp add: x Let_def)
    qed (use False in \<open>simp_all add: x\<close>)
  qed
qed

section \<open>Any turns\<close>




text \<open>How the turn that ends the thread decides whether it calls \<open>onFatalTimeout\<close>.\<close>

lemma thread_ends:
  assumes "renderThread cexp turns (r, rb) = Some (t, r', rb')"
  shows "t_ended t \<longleftrightarrow> find turn_ends turns \<noteq> None"
    and "t_timeout t \<longleftrightarrow> (\<exists>written. find turn_ends turns = Some (True, written, Wake_Timeout))"
    and "length (t_played t) \<le> length (takeWhile (\<lambda>x. \<not> turn_ends x) turns)"
proof -
  have "(t_ended t \<longleftrightarrow> find turn_ends turns \<noteq> None) \<and>
    (t_timeout t \<longleftrightarrow> (\<exists>written. find turn_ends turns = Some (True, written, Wake_Timeout))) \<and>
    length (t_played t) \<le> length (takeWhile (\<lambda>x. \<not> turn_ends x) turns)"
    using assms
  proof (induction turns arbitrary: r rb t)
    case Nil
    then show ?case by (auto simp: t_idle_def)
  next
    case (Cons turn turns)
    obtain running written wake where x: "turn = (running, written, wake)" by (rule prod_cases3)
    show ?case
    proof (cases "turn_ends turn")
      case True
      then show ?thesis using Cons.prems by (cases wake) (auto simp: x t_idle_def Let_def split: if_splits)
    next
      case False
      then have running by (simp add: x)
      show ?thesis
      proof (cases wake)
        case (Wake_Event padding pData)
        obtain out low r1 rb1 t1 where
            "renderThread cexp turns (r1, rb1) = Some (t1, r', rb')"
            "t = t1\<lparr>t_played := (case out of None \<Rightarrow> t_played t1 | Some o' \<Rightarrow> o' # t_played t1),
               t_underrun := low \<or> t_underrun t1\<rparr>"
          using Cons.prems \<open>running\<close> by (auto simp: x Wake_Event Let_def split: option.splits)
        then show ?thesis using Cons.IH [of r1 rb1 t1] False by (auto split: option.split)
      next
        case Wake_Other
        then show ?thesis using Cons.IH [of r "snd (rb_put written rb)" t] Cons.prems False \<open>running\<close>
          by (simp add: x Let_def le_SucI)
      qed (use False in \<open>simp_all add: x\<close>)
    qed
  qed
  then show "t_ended t \<longleftrightarrow> find turn_ends turns \<noteq> None"
    and "length (t_played t) \<le> length (takeWhile (\<lambda>x. \<not> turn_ends x) turns)"
    and "t_timeout t \<longleftrightarrow> (\<exists>written. find turn_ends turns = Some (True, written, Wake_Timeout))"
    by blast+
qed

text \<open>What comes after the end is never looked at.\<close>

lemma thread_end_final:
  assumes "turn_ends x"
  shows "renderThread cexp (before @ x # after) s = renderThread cexp (before @ [x]) s"
proof (induction before arbitrary: s)
  case Nil
  obtain running written wake where x: "x = (running, written, wake)" by (rule prod_cases3)
  then show ?case using assms by (cases s; cases wake) (auto simp: x Let_def)
next
  case (Cons turn before)
  obtain running written wake where x: "turn = (running, written, wake)" by (rule prod_cases3)
  then show ?case using Cons by (cases s; cases wake) (auto simp: x Let_def split: option.split prod.split)
qed

section \<open>The speed limit\<close>

lemma permille_range:
  assumes "1 \<le> x" and "x \<le> 4"
  shows "1000 \<le> rne (rnd53 (x * 1000)) \<and> rne (rnd53 (x * 1000)) \<le> 4000 \<and>
    \<bar>of_int (rne (rnd53 (x * 1000))) - x * 1000\<bar> \<le> 1"
proof -
  let ?y = "rnd53 (x * 1000)"
  have "rnd53 1000 = (1000 :: rat)" "rnd53 4000 = (4000 :: rat)"
    using rnd53_of_int [of 1000] rnd53_of_int [of 4000] by simp_all
  moreover have "1000 \<le> x * 1000" "x * 1000 \<le> 4000" using assms by simp_all
  ultimately have y: "1000 \<le> ?y" "?y \<le> 4000" using rnd53_between [of 1000 4000 "x * 1000"] by blast+
  have r: "1000 \<le> rne ?y" "rne ?y \<le> 4000" using rne_mono [OF y(1)] rne_mono [OF y(2)] by simp_all
  have "\<bar>?y - x * 1000\<bar> \<le> 1 / 2"
    by (rule order_trans [OF rnd53_error [of _ "- 40"]])
      (use assms in \<open>simp_all add: abs_mult power_int_def power_le_one\<close>)
  then show ?thesis using r rne_near [of ?y] by linarith
qed

lemma setMaxSpeed_eq:
  obtains x where "1 \<le> x" and "x \<le> 4"
    and "setMaxSpeed d r = r\<lparr>r_maxSpeedPermille := of_int (rne (rnd53 (x * 1000)))\<rparr>"
    and "\<forall>a. d = Fin a \<and> 1 \<le> a \<and> a \<le> 4 \<longrightarrow> x = a" and "\<not> isfinite d \<longrightarrow> x = 1"
proof -
  define d1 where "d1 = (if \<not> isfinite d then Fin 1 else d)"
  have "d1 \<noteq> NaN" by (cases d) (simp_all add: d1_def isfinite_def)
  then obtain x where x: "dclamp d1 (Fin 1) (Fin 4) = Fin x" "1 \<le> x" "x \<le> 4"
    using dclamp_range [of d1 1 4] by auto
  have "\<bar>x * 1000\<bar> \<le> 2 ^ 12" using x(2,3) by (simp add: abs_mult)
  then have m: "dmul (Fin x) (Fin 1000) = Fin (rnd53 (x * 1000))"
    using to_double_pow [of "x * 1000" 12] by (simp only: double_ops)
  have l: "lrint (Fin (rnd53 (x * 1000))) = rne (rnd53 (x * 1000))"
    using permille_range [OF x(2,3)] by simp
  show ?thesis
  proof (rule that)
    show "setMaxSpeed d r = r\<lparr>r_maxSpeedPermille := of_int (rne (rnd53 (x * 1000)))\<rparr>"
      by (simp only: setMaxSpeed_def Let_def d1_def [symmetric] x(1) m l)
    show "\<forall>a. d = Fin a \<and> 1 \<le> a \<and> a \<le> 4 \<longrightarrow> x = a" using x(1) by (auto simp: d1_def double_ops)
    show "\<not> isfinite d \<longrightarrow> x = 1" using x(1) by (auto simp add: d1_def double_ops)
  qed (rule x(2), rule x(3))
qed

lemma u32_of_int: "0 \<le> n \<Longrightarrow> n < 2 ^ 32 \<Longrightarrow> unat (of_int n :: u32) = nat n"
  by (simp add: unat_eq_nat_uint uint_word_of_int)

lemma setMaxSpeed_limits [simp]: "speed_limits_ok (setMaxSpeed d r)"
proof -
  obtain x where x: "1 \<le> x" "x \<le> 4" "setMaxSpeed d r = r\<lparr>r_maxSpeedPermille := of_int (rne (rnd53 (x * 1000)))\<rparr>"
    by (rule setMaxSpeed_eq)
  note P = permille_range [OF x(1,2)]
  then have "unat (of_int (rne (rnd53 (x * 1000))) :: u32) = nat (rne (rnd53 (x * 1000)))"
    by (intro u32_of_int) simp_all
  then show ?thesis using P by (auto simp: x(3) speed_limits_ok_def nat_le_iff le_nat_iff)
qed

section \<open>Properties\<close>

text \<open>
  A stereo stream at an artificial 400 frames a second, so that a fade is two frames long, with
  two frames in the ring buffer; the device asks for four.
\<close>

definition demo_playing :: renderer where
  "demo_playing = idle_renderer\<lparr>r_sampleRate := 400, r_channels := 2, r_bufferFrames := 4,
     r_lastOutputSamples := [0, 0], r_pRenderClient := Some 0, r_running := True, r_thread := True\<rparr>"

definition demo_stream :: ring_buffer where
  "demo_stream = snd (rb_put [100, -100, 200, -200] (ring_new 16))"

definition demo_exp :: "double \<Rightarrow> double" where
  "demo_exp x = Fin (3 / 2)"

lemma demo_exp_ok: "exp_ok demo_exp"
  by (simp add: exp_ok_def demo_exp_def)

lemma demo_ready: "render_ready demo_playing" "render_ready (demo_playing\<lparr>r_dropBaselineDurationMs := 1\<rparr>)"
  by (simp_all add: render_ready_def speed_limits_ok_def speed_ok_def demo_playing_def idle_renderer_def)

lemma demo_channels: "unat (r_channels demo_playing) = 2"
  by (simp add: demo_playing_def)

lemma demo_stream_frames: "ring_frames 2 demo_stream"
proof -
  have new: "rb_inv (ring_new 16)" "rb_contents (ring_new 16) = []" using ring_new_spec [of 16] by simp_all
  have "rb_cap (ring_new 16) = 16" by code_simp
  then have "ring_frames 2 (ring_new 16)" using new by (simp add: ring_frames_def del: length_rb_contents)
  then show ?thesis unfolding demo_stream_def by (rule ring_frames_put) simp_all
qed

text \<open>
  C6: Every buffer that the device asks for is filled completely and in order: its first \<open>n\<close>
  samples are the oldest samples of the ring buffer, with at most one stretch cut out and
  cross-faded over, and only reduced in volume when they follow a silence; \<open>n\<close> is the size of the
  buffer or, if the ring buffer holds fewer samples, their number, and then the ring buffer is
  empty afterwards. Without a baseline for dropping,
  nothing is cut. The ring buffer keeps whole frames, and no field of the renderer changes that the turn does
  not own.
\<close>
theorem render_turn_output:
  assumes "exp_ok cexp" and "render_ready r" and "ring_frames (unat (r_channels r)) rb"
    and "r_pRenderClient r \<noteq> None" and "r_bufferFrames r - padding \<noteq> 0"
    and "length out0 = unat (r_bufferFrames r - padding) * unat (r_channels r)"
  shows "\<exists>out n r' rb' src w. render_turn cexp padding (Some out0) (r, rb) = Some (Some out, n < length out, r', rb') \<and>
    length out = length out0 \<and> n = min (length out) (length (rb_contents rb)) \<and> (n < length out \<longrightarrow> rb_contents rb' = []) \<and>
    rb_contents rb = src @ rb_contents rb' \<and> cut_and_fade (unat (r_channels r)) src w \<and> length w = n \<and>
    (\<forall>i<n. between 0 (w ! i) (out ! i)) \<and> (\<not> r_recoveringFromSilence r \<longrightarrow> take n out = w) \<and>
    (r_dropBaselineDurationMs r = 0 \<longrightarrow> w = src) \<and>
    ring_frames (unat (r_channels r)) rb' \<and> erase r' = erase r \<and> render_ready r'"
proof -
  obtain out n r' rb' where T: "render_turn cexp padding (Some out0) (r, rb) = Some (Some out, n < length out, r', rb')"
    "length out = length out0" "n = min (length out) (length (rb_contents rb))" "n < length out \<longrightarrow> rb_contents rb' = []" "plays r rb out n rb'"
    "ring_frames (unat (r_channels r)) rb'" "erase r' = erase r" "render_ready r'"
    using render_turn_plays [OF assms] by blast
  obtain src w where "rb_contents rb = src @ rb_contents rb'" "cut_and_fade (unat (r_channels r)) src w" "length w = n"
    "\<forall>i<n. between 0 (w ! i) (out ! i)" "\<not> r_recoveringFromSilence r \<longrightarrow> take n out = w"
    "r_dropBaselineDurationMs r = 0 \<longrightarrow> w = src"
    using T(5) unfolding plays_def by blast
  with T(1-4) T(6-8) show ?thesis by blast
qed

theorem render_turn_output_witness:
  "\<exists>out n r' rb' src w. render_turn demo_exp 0 (Some (replicate 8 9)) (demo_playing, demo_stream) =
      Some (Some out, n < length out, r', rb') \<and>
    length out = 8 \<and> rb_contents demo_stream = src @ rb_contents rb' \<and> cut_and_fade 2 src w \<and> take n out = w"
proof -
  have "r_bufferFrames demo_playing - 0 \<noteq> 0" "\<not> r_recoveringFromSilence demo_playing" "r_pRenderClient demo_playing \<noteq> None"
    "length (replicate 8 (9 :: 16 word)) = unat (r_bufferFrames demo_playing - 0) * unat (r_channels demo_playing)"
    by (simp_all add: demo_playing_def idle_renderer_def)
  with render_turn_output [OF demo_exp_ok demo_ready(1), of demo_stream 0 "replicate 8 9"] demo_stream_frames
  show ?thesis unfolding demo_channels length_replicate by blast
qed

text \<open>
  C16: An underrun is reported and runs out to silence: a turn reports an underrun exactly when the
  ring buffer holds fewer samples than the device asks for. Then the samples there are come first
  and the ring buffer is empty; every sample behind them lies between zero and the last sample of
  its channel, and after a fade of at most five milliseconds all of them are zero.
\<close>
theorem underrun_fades_to_silence:
  assumes "exp_ok cexp" and "render_ready r" and "ring_frames (unat (r_channels r)) rb"
    and "r_pRenderClient r \<noteq> None" and "r_bufferFrames r - padding \<noteq> 0"
    and "length out0 = unat (r_bufferFrames r - padding) * unat (r_channels r)"
  shows "\<exists>out r' rb'. render_turn cexp padding (Some out0) (r, rb) =
      Some (Some out, length (rb_contents rb) < length out0, r', rb') \<and> length out = length out0 \<and>
    (length (rb_contents rb) < length out0 \<longrightarrow> rb_contents rb' = [] \<and>
      (\<forall>i. length (rb_contents rb) \<le> i \<and> i < length out \<longrightarrow>
        between 0 (held_sample out (length (rb_contents rb)) r (i mod unat (r_channels r))) (out ! i)) \<and>
      (\<forall>i. length (rb_contents rb) + unat (max 1 (r_sampleRate r div 200)) * unat (r_channels r) \<le> i + unat (r_channels r) \<and>
        length (rb_contents rb) \<le> i \<and> i < length out \<longrightarrow> out ! i = 0))"
proof -
  obtain out n r' rb' where T: "render_turn cexp padding (Some out0) (r, rb) = Some (Some out, n < length out, r', rb')"
    "length out = length out0" "n = min (length out) (length (rb_contents rb))" "n < length out \<longrightarrow> rb_contents rb' = []"
    "\<forall>i. n \<le> i \<and> i < length out \<longrightarrow> between 0 (held_sample out n r (i mod unat (r_channels r))) (out ! i)"
    "\<forall>i. n + fade_max r * unat (r_channels r) \<le> i + unat (r_channels r) \<and> n \<le> i \<and> i < length out \<longrightarrow> out ! i = 0"
    using render_turn_plays [OF assms] by blast
  have low: "n < length out \<longleftrightarrow> length (rb_contents rb) < length out0" unfolding T(2,3) by linarith
  have n: "n = length (rb_contents rb)" if "length (rb_contents rb) < length out0"
    using that unfolding T(2,3) by linarith
  show ?thesis
    using T(1,2) T(4-6) [unfolded fade_max_def] n unfolding low by blast
qed

theorem underrun_fades_to_silence_witness:
  "\<exists>out r' rb'. render_turn demo_exp 0 (Some (replicate 8 9)) (demo_playing, demo_stream) =
      Some (Some out, True, r', rb') \<and> rb_contents rb' = [] \<and> length out = 8 \<and> out ! 6 = 0 \<and> out ! 7 = 0"
proof -
  have pre: "r_bufferFrames demo_playing - 0 \<noteq> 0" "r_pRenderClient demo_playing \<noteq> None"
    "length (replicate 8 (9 :: 16 word)) = unat (r_bufferFrames demo_playing - 0) * unat (r_channels demo_playing)"
    by (simp_all add: demo_playing_def idle_renderer_def)
  have frames: "ring_frames (unat (r_channels demo_playing)) demo_stream"
    unfolding demo_channels by (rule demo_stream_frames)
  have four: "length (rb_contents demo_stream) = 4" by code_simp
  have rate: "unat (max 1 (r_sampleRate demo_playing div 200)) = 2" by code_simp
  have low: "(4 < (8 :: nat)) = True" by simp
  obtain out r' rb' where T: "render_turn demo_exp 0 (Some (replicate 8 9)) (demo_playing, demo_stream) =
      Some (Some out, True, r', rb')" "length out = 8" "rb_contents rb' = []"
      "\<forall>i. 4 + 2 * 2 \<le> i + 2 \<and> 4 \<le> i \<and> i < length out \<longrightarrow> out ! i = 0"
    using underrun_fades_to_silence [OF demo_exp_ok demo_ready(1) frames pre(2,1,3)]
    unfolding four rate demo_channels length_replicate low by blast
  show ?thesis using T(1-3) T(4) [rule_format, of 6] T(4) [rule_format, of 7] by simp
qed



text \<open>
  C11: Playback is bit exact. Without a baseline for dropping, with whole frames written and
  buffers of the size asked for, the thread follows the list machine \<open>ideal_playback\<close>: a write adds
  what fits and drops the rest, an event takes the oldest samples, as many as the device has
  room for. The run succeeds, leaves the same samples, and reports an underrun exactly if the
  list machine runs short; if it does not, from a state that does not recover from silence, every buffer
  played is the one of the list machine. If all that is written before the end fits,
  the buffers played and the rest are together exactly the samples there were and those written, in order.
\<close>
theorem render_thread_bit_exact:
  assumes "exp_ok cexp" and "render_ready r" and "ring_frames (unat (r_channels r)) rb"
    and "r_pRenderClient r \<noteq> None" and "r_dropBaselineDurationMs r = 0"
    and "list_all (turn_framed r) turns"
    and "ideal_playback (rb_cap rb) (r_bufferFrames r) (unat (r_channels r)) turns (rb_contents rb) = (played, low, rest)"
  shows "\<exists>t r' rb'. renderThread cexp turns (r, rb) = Some (t, r', rb') \<and>
    rb_contents rb' = rest \<and> t_underrun t = low \<and>
    (\<not> low \<and> \<not> r_recoveringFromSilence r \<longrightarrow> t_played t = played \<and>
      (length (rb_contents rb) + length (written_until_end turns) \<le> rb_cap rb \<longrightarrow>
        rb_contents rb @ written_until_end turns = concat (t_played t) @ rb_contents rb'))"
  using thread_ideal [OF assms] ideal_playback_complete [OF _ assms(7)] by fastforce

theorem render_thread_bit_exact_witness:
  "\<exists>t r' rb'. renderThread demo_exp [(True, [300, -300], Wake_Event 2 (Some [9, 9, 9, 9]))]
      (demo_playing, demo_stream) = Some (t, r', rb') \<and> t_played t = [[100, -100, 200, -200]] \<and>
    \<not> t_underrun t \<and> rb_contents rb' = [300, -300]"
proof -
  let ?turns = "[(True, [300, -300], Wake_Event 2 (Some [9, 9, 9, 9]))]"
  have pre: "r_pRenderClient demo_playing \<noteq> None" "r_dropBaselineDurationMs demo_playing = 0"
    "list_all (turn_framed demo_playing) ?turns"
    by (simp_all add: demo_playing_def idle_renderer_def)
  have frames: "ring_frames (unat (r_channels demo_playing)) demo_stream"
    unfolding demo_channels by (rule demo_stream_frames)
  have stream: "rb_contents demo_stream = [100, -100, 200, -200]" "rb_cap demo_stream = 16" by code_simp+
  have ideal: "ideal_playback (rb_cap demo_stream) (r_bufferFrames demo_playing) (unat (r_channels demo_playing)) ?turns
      (rb_contents demo_stream) = ([[100, -100, 200, -200]], False, [300, -300])"
    unfolding stream by (simp add: demo_playing_def)
  have "\<not> r_recoveringFromSilence demo_playing" by (simp add: demo_playing_def idle_renderer_def)
  then show ?thesis
    using render_thread_bit_exact [OF demo_exp_ok demo_ready(1) frames pre ideal] by blast
qed

text \<open>
  C24: The thread ends exactly when \<open>stop\<close> has cleared the flag or set its event, or when the device
  has been silent for two seconds; only the last calls \<open>onFatalTimeout\<close>, and only as the first
  of these. It plays at most one buffer per turn before, and nothing after.
\<close>
theorem render_thread_ends:
  assumes "renderThread cexp turns (r, rb) = Some (t, r', rb')"
  shows "(t_ended t \<longleftrightarrow> find turn_ends turns \<noteq> None) \<and>
    (t_timeout t \<longleftrightarrow> (\<exists>written. find turn_ends turns = Some (True, written, Wake_Timeout))) \<and>
    length (t_played t) \<le> length (takeWhile (\<lambda>x. \<not> turn_ends x) turns) \<and>
    (\<forall>before x after. turns = before @ x # after \<and> turn_ends x \<longrightarrow>
      renderThread cexp (before @ [x]) (r, rb) = Some (t, r', rb'))"
proof (intro conjI allI impI)
  fix before x after assume "turns = before @ x # after \<and> turn_ends x"
  then show "renderThread cexp (before @ [x]) (r, rb) = Some (t, r', rb')"
    using thread_end_final [of x cexp before after "(r, rb)"] assms by simp
qed (rule thread_ends [OF assms])+

theorem render_thread_ends_witness:
  "renderThread demo_exp [(True, [], Wake_Other), (True, [], Wake_Timeout)] (demo_playing, demo_stream) =
    renderThread demo_exp [(True, [], Wake_Other), (True, [], Wake_Timeout), (True, [5], Wake_Stop)] (demo_playing, demo_stream)"
proof -
  let ?rb = "snd (rb_put [] (snd (rb_put [] demo_stream)))"
  have run: "renderThread demo_exp [(True, [], Wake_Other), (True, [], Wake_Timeout), (True, [5], Wake_Stop)]
      (demo_playing, demo_stream) = Some (t_idle\<lparr>t_timeout := True, t_ended := True\<rparr>, demo_playing, ?rb)"
    by (simp only: renderThread.simps Let_def wake.case not_True_eq_False if_False)
  have "[(True, [], Wake_Other), (True, [], Wake_Timeout), (True, [5], Wake_Stop)] =
      [(True, [], Wake_Other)] @ (True, [], Wake_Timeout) # [(True, [5], Wake_Stop)]" by simp
  then show ?thesis using render_thread_ends [OF run] run by fastforce
qed

text \<open>
  C17: The playing speed follows the backlog within bounds: it is always a number between one and
  the limit, itself at most four; it rises by at most the double nearest to 0.02 a turn (rounded once); and without
  a baseline for dropping it is one. This holds for every function in the place of \<open>std::exp\<close>
  that has no NaN, every backlog and every setting, since no operation before it overflows.
\<close>
theorem speed_follows_backlog:
  assumes "exp_ok cexp" and "r_sampleRate r * ucast (r_channels r) \<noteq> 0" and "n < 2 ^ 64"
    and "speed_limits_ok r" and "r_currentSpeed r = Fin s" and "1 \<le> s" and "s \<le> 4"
  shows "\<exists>s' mx. r_currentSpeed (speed_control cexp n r) = Fin s' \<and>
    ddiv (double_of_nat (unat (r_maxSpeedPermille r))) (Fin 1000) = Fin mx \<and> 1 \<le> s' \<and> s' \<le> mx \<and> mx \<le> 4 \<and>
    s' \<le> max s (rnd53 (s + rnd53 (2 / 100))) \<and> (r_dropBaselineDurationMs r = 0 \<longrightarrow> s' = 1)"
  using speed_control_range [OF assms] unfolding max_speed_def ramp_def .

theorem speed_follows_backlog_witness:
  "\<exists>s'. r_currentSpeed (speed_control demo_exp 1000 (demo_playing\<lparr>r_dropBaselineDurationMs := 1\<rparr>)) = Fin s' \<and>
    1 \<le> s' \<and> s' \<le> max 1 (rnd53 (1 + rnd53 (2 / 100)))"
  using speed_follows_backlog [OF demo_exp_ok, of "demo_playing\<lparr>r_dropBaselineDurationMs := 1\<rparr>" 1000 1] demo_ready(2)
  by (fastforce simp: render_ready_def demo_playing_def idle_renderer_def)

text \<open>
  C34: Whatever the maximal speed given on the command line, infinite and NaN included, the limit
  stored in the renderer lies between 1000 and 4000 per mille; a speed in range is kept to within
  one per mille, and what is not finite becomes no compression.
\<close>
theorem max_speed_in_range:
  "speed_limits_ok (setMaxSpeed d r) \<and>
    (\<not> isfinite d \<longrightarrow> r_maxSpeedPermille (setMaxSpeed d r) = 1000) \<and>
    (\<forall>x. d = Fin x \<and> 1 \<le> x \<and> x \<le> 4 \<longrightarrow>
      \<bar>of_nat (unat (r_maxSpeedPermille (setMaxSpeed d r))) - x * 1000\<bar> \<le> 1)"
proof (intro conjI impI allI)
  obtain y where y: "1 \<le> y" "y \<le> 4" "setMaxSpeed d r = r\<lparr>r_maxSpeedPermille := of_int (rne (rnd53 (y * 1000)))\<rparr>"
    "\<forall>a. d = Fin a \<and> 1 \<le> a \<and> a \<le> 4 \<longrightarrow> y = a" "\<not> isfinite d \<longrightarrow> y = 1"
    by (rule setMaxSpeed_eq [of d r])
  note P = permille_range [OF y(1,2)]
  show "speed_limits_ok (setMaxSpeed d r)" by (rule setMaxSpeed_limits)
  have "rnd53 1000 = (1000 :: rat)" using rnd53_of_int [of 1000] by simp
  then show "r_maxSpeedPermille (setMaxSpeed d r) = 1000" if "\<not> isfinite d"
    using y(3,5) that by simp
  fix x assume "d = Fin x \<and> 1 \<le> x \<and> x \<le> 4"
  then have x: "y = x" using y(4) by blast
  have u: "unat (of_int (rne (rnd53 (y * 1000))) :: u32) = nat (rne (rnd53 (y * 1000)))"
    using P by (intro u32_of_int) simp_all
  have "(of_nat (nat (rne (rnd53 (y * 1000)))) :: rat) = of_int (rne (rnd53 (y * 1000)))"
    using P by simp
  then show "\<bar>of_nat (unat (r_maxSpeedPermille (setMaxSpeed d r))) - x * 1000\<bar> \<le> 1"
    using P unfolding y(3) x [symmetric] by (simp add: u)
qed

theorem max_speed_in_range_witness:
  "r_maxSpeedPermille (setMaxSpeed NaN demo_playing) = 1000 \<and> speed_limits_ok (setMaxSpeed PInf demo_playing)"
  using max_speed_in_range [of NaN demo_playing] max_speed_in_range [of PInf demo_playing]
  by (simp add: isfinite_def)

text \<open>
  C18: The search for a place to cut returns the first of the places with the least cost, the sum
  of the differences between the frames that the cut would bring together, and stays inside the
  frames it was given. The 64-bit sum never wraps.
\<close>
theorem cut_is_cheapest:
  assumes "r_channels r \<noteq> 0" and "skip + fade < inputFrames" and "fade < 2 ^ 32"
  shows "findSmoothSkip inputFrames skip fade r =
    (LEAST i. i \<le> inputFrames - skip - fade \<and>
      (\<forall>j \<le> inputFrames - skip - fade.
        cut_cost (r_stretchInputBuf r) (unat (r_channels r)) skip fade (max 1 (fade div 32)) i
        \<le> cut_cost (r_stretchInputBuf r) (unat (r_channels r)) skip fade (max 1 (fade div 32)) j))"
proof -
  note L = findSmoothSkip_least [OF assms]
  show ?thesis
  proof (rule Least_equality [symmetric])
    fix i assume i: "i \<le> inputFrames - skip - fade \<and>
      (\<forall>j \<le> inputFrames - skip - fade.
        cut_cost (r_stretchInputBuf r) (unat (r_channels r)) skip fade (max 1 (fade div 32)) i
        \<le> cut_cost (r_stretchInputBuf r) (unat (r_channels r)) skip fade (max 1 (fade div 32)) j)"
    show "findSmoothSkip inputFrames skip fade r \<le> i"
      using L(3) [of i] i L(1) by (meson leD leI)
  qed (use L(1,2) in blast)
qed

theorem cut_is_cheapest_witness:
  "findSmoothSkip 5 1 2 (demo_playing\<lparr>r_channels := 1, r_stretchInputBuf := [0, 5, 9, 5, 1]\<rparr>) = 1 \<and>
    (LEAST i. i \<le> 2 \<and> (\<forall>j\<le>2. cut_cost [0, 5, 9, 5, 1] 1 1 2 1 i \<le> cut_cost [0, 5, 9, 5, 1] 1 1 2 1 j)) = 1"
proof -
  let ?r = "demo_playing\<lparr>r_channels := 1, r_stretchInputBuf := [0, 5, 9, 5, 1]\<rparr>"
  have "findSmoothSkip 5 1 2 ?r = 1" by code_simp
  then show ?thesis using cut_is_cheapest [of ?r 1 2 5] by simp
qed

text \<open>
  C7: Playing faster keeps the order and the ends: for any speed, backlog and buffer, the pitch
  preserving read delivers whole frames, short of the request only when it has emptied the ring
  buffer; they are the oldest samples with at most one stretch cut out and a cross-fade over
  it, each sample of which lies between the two it replaces; at most four times the samples
  delivered are used up; and the conversion of the wanted length to \<open>size_t\<close> is defined.
\<close>
theorem compression_cuts_once:
  fixes rb :: ring_buffer
  assumes "rb_inv rb" and "r_channels r \<noteq> 0" and "unat (r_channels r) dvd length (rb_contents rb)"
    and "length output = m * unat (r_channels r)" and "m < 2 ^ 32" and "speed \<noteq> NaN" and "speed_limits_ok r"
  shows "\<exists>n out buf rb' src. renderPitchPreserved output (m * unat (r_channels r)) speed (r, rb) =
      Some (n, out, r\<lparr>r_stretchInputBuf := buf\<rparr>, rb') \<and> rb_inv rb' \<and>
    length out = length output \<and> n = min (length out) (length (rb_contents rb)) \<and> unat (r_channels r) dvd n \<and>
    drop n out = drop n output \<and> (n < length out \<longrightarrow> rb_contents rb' = []) \<and>
    rb_contents rb = src @ rb_contents rb' \<and> unat (r_channels r) dvd length src \<and> length src \<le> 4 * length out \<and>
    cut_and_fade (unat (r_channels r)) src (take n out)"
proof -
  have c: "0 < unat (r_channels r)" using assms(2) by (simp add: unat_gt_0)
  obtain n out buf rb' where "renderPitchPreserved output (m * unat (r_channels r)) speed (r, rb) =
      Some (n, out, r\<lparr>r_stretchInputBuf := buf\<rparr>, rb')"
    and D: "delivers (unat (r_channels r)) (m * unat (r_channels r)) output rb (n, out, rb')"
    using renderPitchPreserved_delivers [OF assms(1) refl c assms(3-7)] by blast
  then show ?thesis
    using D unfolding delivers_def case_prod_conv assms(4) [symmetric] by metis
qed

theorem compression_cuts_once_witness:
  "\<exists>n out buf rb' src. renderPitchPreserved [9, 9] 2 (Fin 2) (demo_playing, demo_stream) =
      Some (n, out, demo_playing\<lparr>r_stretchInputBuf := buf\<rparr>, rb') \<and>
    rb_contents demo_stream = src @ rb_contents rb' \<and> cut_and_fade 2 src (take n out)"
proof -
  have pre: "rb_inv demo_stream" "r_channels demo_playing \<noteq> 0" "unat (r_channels demo_playing) dvd length (rb_contents demo_stream)"
    "length [9, 9 :: 16 word] = 1 * unat (r_channels demo_playing)" "(1 :: nat) < 2 ^ 32" "Fin 2 \<noteq> NaN"
    "speed_limits_ok demo_playing"
    using demo_stream_frames demo_ready(1) unfolding demo_channels
    by (simp_all add: ring_frames_def render_ready_def demo_playing_def)
  have two: "1 * (2 :: nat) = 2" by simp
  show ?thesis using compression_cuts_once [OF pre] unfolding demo_channels two by blast
qed

text \<open>
  C31: The unchecked result of \<open>GetService\<close>: when every other call of \<open>init\<close> and \<open>start\<close> succeeds and
  only \<open>GetService\<close> fails, \<open>init\<close> and \<open>start\<close> report success all the same, and the first turn of the
  render thread with room in the device buffer uses a null pointer, whatever was written,
  whatever \<open>GetBuffer\<close> would return and whatever comes later.
\<close>
theorem unchecked_service_crashes:
  assumes "com_ok E" and "FAILED (co_service E)" and "\<not> FAILED (co_start E)"
    and "\<not> r_running r" and "co_frames E - padding \<noteq> 0"
  shows "\<exists>r1 w1 r2. r_init E sr ch (r, w) = (True, r1, w1) \<and> r_start E r1 = (True, r2) \<and>
    renderThread cexp ((True, written, Wake_Event padding pData) # turns) (r2, rb) = None"
proof -
  obtain ok r1 w1 where "r_init E sr ch (r, w) = (ok, r1, w1)" by (rule prod_cases3)
  then have i: "r_init E sr ch (r, w) = (True, r1, w1)" using r_init_iff [of E sr ch r w ok r1 w1] assms(1) by simp
  obtain ok' r2 where "r_start E r1 = (ok', r2)" by fastforce
  then have st: "r_start E r1 = (True, r2)"
    using r_start_iff [of E r1 ok' r2] r_init_thread [OF i] assms(3,4) by simp
  have "r_pRenderClient r2 = None" "r_bufferFrames r2 = co_frames E"
    using r_init_ok(4,6) [OF i] assms(2) st by (auto simp: r_start_def split: if_splits)
  then have "turn_faults padding pData r2" using assms(5) by (simp add: turn_faults_def)
  then have "renderThread cexp ((True, written, Wake_Event padding pData) # turns) (r2, rb) = None"
    by (simp add: render_turn_faults Let_def)
  then show ?thesis using i st by blast
qed

theorem unchecked_service_crashes_witness:
  "\<exists>r1 w1 r2. r_init (demo_com\<lparr>co_service := 0x80004005\<rparr>) 48000 2 (idle_renderer, \<lparr>cw_next = 0, cw_live = []\<rparr>) =
      (True, r1, w1) \<and> r_start (demo_com\<lparr>co_service := 0x80004005\<rparr>) r1 = (True, r2) \<and>
    renderThread demo_exp [(True, [], Wake_Event 0 (Some (replicate 960 0)))] (r2, demo_stream) = None"
  by (rule unchecked_service_crashes)
    (simp_all add: FAILED_def demo_com_def com_ok_def idle_renderer_def)

end
