(* ===== verification/Server.thy ===== *)
theory Server
  imports Receive_Modes Tcp_Control Quic_Receiver Rendering
begin

text \<open>
  The main loop of \<open>main.cpp\<close>: it follows the shared configuration by starting and stopping a
  rendering session, waits for media, and hands each packet to one of the three receivers.
  One turn of the loop is \<open>main_iter\<close>, composed of the same phases as the code; \<open>main_pc\<close>
  names the points between them at which the TCP thread can get in. What the operating
  system, the bridge and COM return is read from the fields of \<open>env\<close>.
\<close>

datatype transport = Quic | Udp

record options =
  c_transport :: transport
  c_discardOutOfOrder :: bool
  c_dropBaselineMs :: u32
  c_protectMs :: u32
  c_maxSpeed :: double

record 'w env =
  env_dll :: "'w dll"
  env_com :: "'w \<Rightarrow> com_results \<times> 'w"
  env_socket :: "'w \<Rightarrow> socket \<times> 'w"
  env_recvfrom :: "socket \<Rightarrow> 'w \<Rightarrow> u8 list option \<times> 'w"
  env_now :: "'w \<Rightarrow> u64"
  env_exp :: "double \<Rightarrow> double"  \<comment> \<open>\<open>std::exp\<close>\<close>

record ('d, 'w) server =
  sv_g :: globals
  sv_rx :: "'d rx"
  sv_initialized :: bool
  sv_renderer :: renderer
  sv_com :: com_world
  sv_quic :: quic_receiver
  sv_w :: 'w

section \<open>Configuration\<close>

definition applyQuicConfig :: "quic_event \<Rightarrow> globals \<Rightarrow> globals" where
  "applyQuicConfig event g = g\<lparr>
     g_sampleRate := ev_sampleRate event, g_channels := ev_channels event, g_codec := ev_codec event,
     g_frameMs := ev_frameMs event, g_opusBitrateKbps := ucast (min (ev_bitrate event div 1000) 255),
     g_configReady := True\<rparr>"

definition no_event :: quic_event where
  "no_event = \<lparr>ev_kind = 0, ev_sampleRate = 0, ev_bitrate = 0, ev_sentAtEpochMs = 0, ev_payloadLength = 0,
     ev_sequence = 0, ev_channels = 0, ev_codec = 0, ev_frameMs = 0\<rparr>"

text \<open>\<open>quicReceiver.receive(event, recvBuf, sizeof(recvBuf), 100)\<close>\<close>

definition sv_receive :: "'w env \<Rightarrow> ('d, 'w) server \<Rightarrow> (int \<times> quic_event \<times> u8 list) \<times> ('d, 'w) server" where
  "sv_receive E s =
     (let (r, q, w) = q_receive (env_dll E) 65536 100 no_event (sv_quic s, sv_w s)
      in (r, s\<lparr>sv_quic := q, sv_w := w\<rparr>))"

definition with_g :: "(globals \<Rightarrow> globals) \<Rightarrow> ('d, 'w) server \<Rightarrow> ('d, 'w) server" where
  "with_g f s = s\<lparr>sv_g := f (sv_g s)\<rparr>"

text \<open>What the loop does on an event that is not a media packet.\<close>

definition sv_event :: "quic_event \<Rightarrow> ('d, 'w) server \<Rightarrow> ('d, 'w) server" where
  "sv_event event s =
     (if ev_kind event = QUIC_AUDIO_EVENT_CONFIG then with_g (applyQuicConfig event) s
      else if ev_kind event = QUIC_AUDIO_EVENT_DISCONNECTED then with_g clearActiveConfig s
      else s)"

definition sv_poll :: "options \<Rightarrow> 'w env \<Rightarrow> ('d, 'w) server \<Rightarrow> ('d, 'w) server" where
  "sv_poll opt E s =
     (if c_transport opt = Quic \<and> \<not> sv_initialized s then
        let ((result, event, payload), s1) = sv_receive E s
        in if result > 0 then sv_event event s1 else s1
      else s)"

section \<open>Starting and stopping a session\<close>

text \<open>Dropping the client whose configuration cannot be rendered.\<close>

definition sv_disconnect :: "options \<Rightarrow> ('d, 'w) server \<Rightarrow> ('d, 'w) server" where
  "sv_disconnect opt s =
     (if c_transport opt = Quic then s\<lparr>sv_quic := q_disconnectClient (sv_quic s)\<rparr>
      else with_g closeTcpClient s)"

text \<open>The state of the receive path after a successful start.\<close>

definition sv_session :: "options \<Rightarrow> u8 \<Rightarrow> ('d, 'w) server \<Rightarrow> ('d, 'w) server" where
  "sv_session opt codec s =
     s\<lparr>sv_renderer := setMaxSpeed (c_maxSpeed opt) (setProtect (c_protectMs opt)
         (setDropBaseline (c_dropBaselineMs opt) (sv_renderer s))),
       sv_initialized := True,
       sv_rx := (sv_rx s)\<lparr>rx_codec := codec, rx_expected := 0, rx_bufferLow := False,
                          rx_sorting := (\<lambda>_. None)\<rparr>,
       sv_g := (sv_g s)\<lparr>g_seqTimestamps := (\<lambda>_. 0), g_hbLastEndSeq := 0, g_expectedSeq := 0\<rparr>\<rparr>"

text \<open>\<open>new RingBuffer((size_t)sr * ch * 2)\<close>\<close>

definition session_ring :: "u32 \<Rightarrow> u8 \<Rightarrow> ring_buffer" where
  "session_ring sr ch = ring_new (ucast sr * ucast ch * 2)"

text \<open>The ring buffer, the decoder and the renderer of a session; the render thread runs at the end.\<close>

definition sv_prepare ::
    "'d opus_lib \<Rightarrow> 'w env \<Rightarrow> u32 \<Rightarrow> u8 \<Rightarrow> u8 \<Rightarrow> u8 \<Rightarrow> ('d, 'w) server \<Rightarrow> bool \<times> ('d, 'w) server" where
  "sv_prepare L E sr ch codec frameMs s0 =
     (let rx1 = (sv_rx s0)\<lparr>rx_ring := Some (session_ring sr ch)\<rparr>;
          (decoderReady, opus) = (if codec = AUDIO_CODEC_OPUS then opus_init L sr ch frameMs (rx_opus rx1)
                                  else (True, rx_opus rx1));
          s1 = s0\<lparr>sv_rx := rx1\<lparr>rx_opus := opus\<rparr>\<rparr>
      in if decoderReady then
           let (com, w1) = env_com E (sv_w s1);
               (ok, r1, cw1) = r_init com sr ch (sv_renderer s1, sv_com s1);
               r2 = (if ok then snd (r_start com r1) else r1)
           in (ok, s1\<lparr>sv_w := w1, sv_renderer := r2, sv_com := cw1\<rparr>)
         else (False, s1))"

text \<open>What is taken back when that fails.\<close>

definition sv_discard :: "('d, 'w) server \<Rightarrow> ('d, 'w) server" where
  "sv_discard s = s\<lparr>sv_rx := (sv_rx s)\<lparr>rx_opus := opus_reset (rx_opus (sv_rx s)), rx_ring := None\<rparr>\<rparr>"

definition sv_start ::
    "options \<Rightarrow> 'd opus_lib \<Rightarrow> 'w env \<Rightarrow> u32 \<Rightarrow> u8 \<Rightarrow> u8 \<Rightarrow> u8 \<Rightarrow> ('d, 'w) server \<Rightarrow> ('d, 'w) server" where
  "sv_start opt L E sr ch codec frameMs s0 =
     (let (ready, s) = sv_prepare L E sr ch codec frameMs s0
      in if ready then sv_session opt codec s else sv_disconnect opt (sv_discard s))"

definition sv_stop :: "('d, 'w) server \<Rightarrow> ('d, 'w) server" where
  "sv_stop s =
     (let (r, cw) = r_stop (sv_renderer s, sv_com s)
      in s\<lparr>sv_renderer := r, sv_com := cw, sv_initialized := False,
           sv_rx := (sv_rx s)\<lparr>rx_opus := opus_reset (rx_opus (sv_rx s)), rx_ring := None\<rparr>\<rparr>)"

definition sv_configure :: "options \<Rightarrow> 'd opus_lib \<Rightarrow> 'w env \<Rightarrow> ('d, 'w) server \<Rightarrow> ('d, 'w) server" where
  "sv_configure opt L E s =
     (let g = sv_g s;
          configReady = g_configReady g; sr = g_sampleRate g; ch = g_channels g;
          codec = g_codec g; frameMs = g_frameMs g
      in if configReady \<and> \<not> sv_initialized s then sv_start opt L E sr ch codec frameMs s
         else if \<not> configReady \<and> sv_initialized s then sv_stop s
         else s)"

text \<open>Without a session: a UDP socket that the TCP thread closed is opened again.\<close>

definition sv_reopen :: "options \<Rightarrow> 'w env \<Rightarrow> ('d, 'w) server \<Rightarrow> ('d, 'w) server" where
  "sv_reopen opt E s =
     (if c_transport opt = Udp \<and> g_udpSocket (sv_g s) = INVALID_SOCKET
      then let (u, w) = env_socket E (sv_w s) in s\<lparr>sv_g := (sv_g s)\<lparr>g_udpSocket := u\<rparr>, sv_w := w\<rparr>
      else s)"

section \<open>Media\<close>

text \<open>The next packet, if one came: its sequence number and payload.\<close>

definition sv_media :: "options \<Rightarrow> 'w env \<Rightarrow> ('d, 'w) server \<Rightarrow> (u8 \<times> u8 list) option \<times> ('d, 'w) server" where
  "sv_media opt E s =
     (if c_transport opt = Quic then
        let ((result, event, payload), s1) = sv_receive E s
        in if result \<le> 0 then (None, s1)
           else if ev_kind event \<noteq> QUIC_AUDIO_EVENT_PACKET then (None, sv_event event s1)
           else (Some (ev_sequence event, take (unat (ev_payloadLength event)) payload), s1)
      else
        let (r, w) = env_recvfrom E (g_udpSocket (sv_g s)) (sv_w s); s1 = s\<lparr>sv_w := w\<rparr>
        in case r of
             None \<Rightarrow> (None, s1)
           | Some [] \<Rightarrow> (None, s1)
           | Some (seq # audio) \<Rightarrow> (Some (seq, audio), s1))"

definition sv_dispatch :: "options \<Rightarrow> 'd opus_lib \<Rightarrow> u8 \<Rightarrow> u8 list \<Rightarrow> 'd rx \<Rightarrow> 'd rx" where
  "sv_dispatch opt L seq audio =
     (if c_transport opt = Quic then rx_quic L seq audio
      else if c_discardOutOfOrder opt then rx_discard L seq audio
      else rx_reorder L seq audio)"

definition stamp :: "u8 \<Rightarrow> u64 \<Rightarrow> globals \<Rightarrow> globals" where
  "stamp seq now g =
     (let prev = g_seqTimestamps g seq
      in if prev = 0 \<or> now - prev > 300 then g\<lparr>g_seqTimestamps := (g_seqTimestamps g)(seq := now)\<rparr> else g)"

definition sv_packet ::
    "options \<Rightarrow> 'd opus_lib \<Rightarrow> 'w env \<Rightarrow> u8 \<Rightarrow> u8 list \<Rightarrow> ('d, 'w) server \<Rightarrow> ('d, 'w) server" where
  "sv_packet opt L E seq audio s =
     (let s1 = s\<lparr>sv_rx := sv_dispatch opt L seq audio (sv_rx s)\<rparr>;
          s2 = (if c_transport opt = Udp then with_g (stamp seq (env_now E (sv_w s1))) s1 else s1)
      in with_g (\<lambda>g. g\<lparr>g_expectedSeq := rx_expected (sv_rx s2)\<rparr>) s2)"

section \<open>The loop\<close>

definition main_iter :: "options \<Rightarrow> 'd opus_lib \<Rightarrow> 'w env \<Rightarrow> ('d, 'w) server \<Rightarrow> ('d, 'w) server" where
  "main_iter opt L E s =
     (let s1 = sv_configure opt L E (sv_poll opt E s)
      in if \<not> sv_initialized s1 then sv_reopen opt E s1
         else case sv_media opt E s1 of
                (None, s2) \<Rightarrow> s2
              | (Some (seq, audio), s2) \<Rightarrow> sv_packet opt L E seq audio s2)"

text \<open>After the loop.\<close>

definition main_exit :: "('d, 'w) server \<Rightarrow> ('d, 'w) server" where
  "main_exit s =
     (let s1 = (if sv_initialized s
                then let (r, cw) = r_stop (sv_renderer s, sv_com s)
                     in s\<lparr>sv_renderer := r, sv_com := cw, sv_rx := (sv_rx s)\<lparr>rx_ring := None\<rparr>\<rparr>
                else s);
          s2 = (with_g (\<lambda>g. g\<lparr>g_running := False\<rparr>) s1)\<lparr>sv_quic := q_stop (sv_quic s1)\<rparr>
      in if g_udpSocket (sv_g s2) \<noteq> INVALID_SOCKET
         then with_g (\<lambda>g. net (Closed (g_udpSocket g)) g) s2 else s2)"

text \<open>The renderer's callback when its device stops sending events.\<close>

definition onFatalTimeout :: "options \<Rightarrow> ('d, 'w) server \<Rightarrow> ('d, 'w) server" where
  "onFatalTimeout opt s = sv_disconnect opt s"

section \<open>The invariant of a session\<close>

definition config_ok :: "globals \<Rightarrow> bool" where
  "config_ok g \<longleftrightarrow> (g_configReady g \<longrightarrow>
     g_sampleRate g \<in> {44100, 48000} \<and> g_channels g \<in> {1, 2} \<and>
     g_codec g \<in> {AUDIO_CODEC_PCM, AUDIO_CODEC_OPUS})"

text \<open>The bridge checks a client's configuration (\<open>parse_hello\<close>) before it reports it.\<close>

definition dll_config_ok :: "'w dll \<Rightarrow> bool" where
  "dll_config_ok D \<longleftrightarrow> (\<forall>h cap t w r event payload w'.
     dll_receive D h cap t w = ((r, event, payload), w') \<longrightarrow> ev_kind event = QUIC_AUDIO_EVENT_CONFIG \<longrightarrow>
       ev_sampleRate event \<in> {44100, 48000} \<and> ev_channels event \<in> {1, 2} \<and>
       ev_codec event \<in> {AUDIO_CODEC_PCM, AUDIO_CODEC_OPUS})"

text \<open>
  With \<open>aligned\<close> the samples are tracked in frames of the session's channels, which needs
  well-formed payloads; without it in single samples, which needs nothing.
\<close>

definition session_frame :: "bool \<Rightarrow> ('d, 'w) server \<Rightarrow> nat" where
  "session_frame aligned s = (if aligned then unat (r_channels (sv_renderer s)) else 1)"

definition sv_inv :: "bool \<Rightarrow> ('d, 'w) server \<Rightarrow> bool" where
  "sv_inv aligned s \<longleftrightarrow>
     config_ok (sv_g s) \<and> \<not> rx_nullDeref (sv_rx s) \<and>
     (if sv_initialized s then rx_framed (session_frame aligned s) (sv_rx s) \<and> render_ready (sv_renderer s)
      else rx_ring (sv_rx s) = None \<and> \<not> r_running (sv_renderer s) \<and> speed_limits_ok (sv_renderer s)) \<and>
     (r_thread (sv_renderer s) \<longrightarrow> r_running (sv_renderer s))"

lemma sv_invD:
  assumes "sv_inv aligned s"
  shows "config_ok (sv_g s)" and "\<not> rx_nullDeref (sv_rx s)"
    and "sv_initialized s \<Longrightarrow> rx_framed (session_frame aligned s) (sv_rx s)"
    and "\<not> sv_initialized s \<Longrightarrow> rx_ring (sv_rx s) = None"
    and "\<not> sv_initialized s \<Longrightarrow> \<not> r_running (sv_renderer s)"
    and "r_thread (sv_renderer s) \<Longrightarrow> r_running (sv_renderer s)"
    and "sv_initialized s \<Longrightarrow> render_ready (sv_renderer s)"
    and "speed_limits_ok (sv_renderer s)"
  using assms by (auto simp: sv_inv_def render_ready_def split: if_splits)

lemma sv_inv_update [simp]:
  "sv_inv aligned (s\<lparr>sv_quic := q\<rparr>) = sv_inv aligned s"
  "sv_inv aligned (s\<lparr>sv_w := w\<rparr>) = sv_inv aligned s"
  "sv_inv aligned (s\<lparr>sv_quic := q, sv_w := w\<rparr>) = sv_inv aligned s"
  by (simp_all add: sv_inv_def session_frame_def)

lemma session_frame_globals [simp]: "session_frame aligned (s\<lparr>sv_g := g\<rparr>) = session_frame aligned s"
  by (simp add: session_frame_def)

lemma sv_inv_globals: "sv_inv aligned s \<Longrightarrow> config_ok g \<Longrightarrow> sv_inv aligned (s\<lparr>sv_g := g\<rparr>)"
  by (simp add: sv_inv_def)

lemma config_ok_update [simp]:
  "config_ok (clearActiveConfig g)" "config_ok (closeTcpClient g) = config_ok g"
  "config_ok (net ev g) = config_ok g" "config_ok (g\<lparr>g_udpSocket := u\<rparr>) = config_ok g"
  "config_ok (g\<lparr>g_tcpClient := u\<rparr>) = config_ok g" "config_ok (g\<lparr>g_tcpSocket := u\<rparr>) = config_ok g"
  "config_ok (g\<lparr>g_expectedSeq := q\<rparr>) = config_ok g" "config_ok (g\<lparr>g_hbLastEndSeq := q\<rparr>) = config_ok g"
  "config_ok (g\<lparr>g_running := b\<rparr>) = config_ok g" "config_ok (stamp seq now g) = config_ok g"
  "config_ok (g\<lparr>g_seqTimestamps := ts\<rparr>) = config_ok g"
  by (simp_all add: config_ok_def clearActiveConfig_def closeTcpClient_def net_def stamp_def Let_def)

lemma session_ring_framed:
  assumes "sr \<in> {44100, 48000}" and "ch \<in> {1, 2}" and "c \<in> {1, unat ch}"
  shows "ring_framed c (Some (session_ring sr ch))"
proof -
  let ?n = "ucast sr * ucast ch * 2 :: u64"
  have n: "2 \<le> unat ?n" "unat ?n \<le> 2 ^ 63" using assms(1,2) by auto
  then have pos: "0 < unat ?n" by linarith
  note R = ring_new_spec [OF pos n(2)]
  obtain k where k: "rb_cap (ring_new ?n) = 2 ^ k" using R(1) by (auto simp: rb_inv_def rb_shape_def)
  have "(2::nat) ^ k \<noteq> 1" using R(3) n(1) k by linarith
  then have "2 dvd rb_cap (ring_new ?n)" unfolding k by (cases k) simp_all
  moreover have "c = 1 \<or> c = 2" using assms(2,3) by auto
  ultimately have "c dvd rb_cap (ring_new ?n)" by auto
  then show ?thesis using R(1,2) by (simp add: ring_framed_def session_ring_def del: length_rb_contents)
qed

section \<open>Every phase keeps the invariant\<close>

lemma sv_receive_spec:
  assumes "sv_receive E s = ((r, event, payload), s')"
  shows "\<exists>q w. s' = s\<lparr>sv_quic := q, sv_w := w\<rparr>"
    and "dll_config_ok (env_dll E) \<Longrightarrow> ev_kind event = QUIC_AUDIO_EVENT_CONFIG \<Longrightarrow>
      ev_sampleRate event \<in> {44100, 48000} \<and> ev_channels event \<in> {1, 2} \<and>
      ev_codec event \<in> {AUDIO_CODEC_PCM, AUDIO_CODEC_OPUS}"
proof -
  show "\<exists>q w. s' = s\<lparr>sv_quic := q, sv_w := w\<rparr>"
    using assms by (auto simp: sv_receive_def split: prod.splits)
  assume D: "dll_config_ok (env_dll E)" and kind: "ev_kind event = QUIC_AUDIO_EVENT_CONFIG"
  then have "event \<noteq> no_event" by (auto simp: no_event_def quic_kinds)
  then obtain h w' where "dll_receive (env_dll E) h 65536 100 (sv_w s) = ((r, event, payload), w')"
    using assms by (auto simp: sv_receive_def q_receive_def split: prod.splits option.splits if_splits)
  then show "ev_sampleRate event \<in> {44100, 48000} \<and> ev_channels event \<in> {1, 2} \<and>
      ev_codec event \<in> {AUDIO_CODEC_PCM, AUDIO_CODEC_OPUS}"
    using D kind unfolding dll_config_ok_def by blast
qed

lemma sv_event_frame:
  "sv_rx (sv_event event s) = sv_rx s" "sv_initialized (sv_event event s) = sv_initialized s"
  "sv_renderer (sv_event event s) = sv_renderer s" "session_frame aligned (sv_event event s) = session_frame aligned s"
  by (simp_all add: sv_event_def with_g_def session_frame_def)

lemma sv_event_inv:
  assumes "dll_config_ok (env_dll E)" and "sv_receive E s = ((r, event, payload), s')" and "sv_inv aligned s"
  shows "sv_inv aligned (sv_event event s')"
proof -
  note R = sv_receive_spec [OF assms(2)]
  have inv: "sv_inv aligned s'" using R(1) assms(3) by auto
  show ?thesis
  proof (cases "ev_kind event = QUIC_AUDIO_EVENT_CONFIG")
    case True
    then have "config_ok (applyQuicConfig event (sv_g s'))"
      using R(2) [OF assms(1)] by (simp add: config_ok_def applyQuicConfig_def)
    then show ?thesis using inv True by (simp add: sv_event_def with_g_def sv_inv_globals)
  next
    case False
    then show ?thesis using inv by (simp add: sv_event_def with_g_def sv_inv_globals)
  qed
qed

lemma sv_poll_inv:
  assumes "dll_config_ok (env_dll E)" and "sv_inv aligned s"
  shows "sv_inv aligned (sv_poll opt E s)"
proof -
  obtain r event payload s1 where r: "sv_receive E s = ((r, event, payload), s1)"
    by (metis surj_pair)
  have "sv_inv aligned s1" using sv_receive_spec(1) [OF r] assms(2) by auto
  then show ?thesis using assms(2) sv_event_inv [OF assms(1) r assms(2)] by (simp add: sv_poll_def r)
qed

lemma sv_disconnect_inv: "sv_inv aligned s \<Longrightarrow> sv_inv aligned (sv_disconnect opt s)"
  by (simp add: sv_disconnect_def with_g_def sv_inv_globals sv_invD)

lemma sv_disconnect_frame [simp]:
  "sv_rx (sv_disconnect opt s) = sv_rx s" "sv_initialized (sv_disconnect opt s) = sv_initialized s"
  "sv_renderer (sv_disconnect opt s) = sv_renderer s"
  "g_configReady (sv_g (sv_disconnect opt s)) = g_configReady (sv_g s)"
  by (simp_all add: sv_disconnect_def with_g_def closeTcpClient_def net_def Let_def)

lemma sv_stop_inv:
  assumes "sv_inv aligned s"
  shows "sv_inv aligned (sv_stop s)"
proof -
  obtain r cw where st: "r_stop (sv_renderer s, sv_com s) = (r, cw)" by fastforce
  have "\<not> r_running r" "r_thread r \<longrightarrow> r_thread (sv_renderer s) \<and> \<not> r_running (sv_renderer s)"
    "speed_limits_ok r = speed_limits_ok (sv_renderer s)"
    using st by (auto simp: r_stop_def speed_limits_ok_def Let_def split: if_splits)
  then show ?thesis using sv_invD [OF assms] by (auto simp: sv_inv_def sv_stop_def st)
qed

text \<open>What a start asks of COM and of the decoder.\<close>

definition session_com :: "'w env \<Rightarrow> ('d, 'w) server \<Rightarrow> com_results" where
  "session_com E s = fst (env_com E (sv_w s))"

definition decoder_ready :: "'d opus_lib \<Rightarrow> u32 \<Rightarrow> u8 \<Rightarrow> u8 \<Rightarrow> u8 \<Rightarrow> ('d, 'w) server \<Rightarrow> bool" where
  "decoder_ready L sr ch codec frameMs s \<longleftrightarrow>
     (codec = AUDIO_CODEC_OPUS \<longrightarrow> fst (opus_init L sr ch frameMs (rx_opus (sv_rx s))))"

text \<open>
  The two outcomes of a start. A failed one drops the client and keeps nothing of the session but
  what a failed \<open>init\<close> of the renderer has acquired.
\<close>

definition start_failed ::
    "options \<Rightarrow> 'w env \<Rightarrow> u32 \<Rightarrow> u8 \<Rightarrow> u8 \<Rightarrow> u8 \<Rightarrow> 'd opus_lib \<Rightarrow> ('d, 'w) server \<Rightarrow> ('d, 'w) server \<Rightarrow> bool" where
  "start_failed opt E sr ch codec frameMs L s s' \<longleftrightarrow>
     \<not> sv_initialized s' \<and> rx_ring (sv_rx s') = None \<and> rt_decoder (rx_opus (sv_rx s')) = None \<and>
     rx_nullDeref (sv_rx s') = rx_nullDeref (sv_rx s) \<and>
     (sv_renderer s', sv_com s') =
       (if decoder_ready L sr ch codec frameMs s then snd (r_init (session_com E s) sr ch (sv_renderer s, sv_com s))
        else (sv_renderer s, sv_com s)) \<and>
     (c_transport opt = Quic \<longrightarrow> sv_quic s' = q_disconnectClient (sv_quic s) \<and> sv_g s' = sv_g s) \<and>
     (c_transport opt = Udp \<longrightarrow> sv_quic s' = sv_quic s \<and> sv_g s' = closeTcpClient (sv_g s))"

definition start_ok ::
    "options \<Rightarrow> 'w env \<Rightarrow> u32 \<Rightarrow> u8 \<Rightarrow> u8 \<Rightarrow> u8 \<Rightarrow> 'd opus_lib \<Rightarrow> ('d, 'w) server \<Rightarrow> ('d, 'w) server \<Rightarrow> bool" where
  "start_ok opt E sr ch codec frameMs L s s' \<longleftrightarrow>
     sv_initialized s' \<and> rx_ring (sv_rx s') = Some (session_ring sr ch) \<and> rx_codec (sv_rx s') = codec \<and>
     rx_fresh (sv_rx s') \<and> rx_nullDeref (sv_rx s') = rx_nullDeref (sv_rx s) \<and>
     r_channels (sv_renderer s') = ch \<and> r_sampleRate (sv_renderer s') = sr \<and>
     r_pAudioClient (sv_renderer s') \<noteq> None \<and> r_currentSpeed (sv_renderer s') = Fin 1 \<and>
     r_dropBaselineDurationMs (sv_renderer s') = c_dropBaselineMs opt \<and>
     r_protectMs (sv_renderer s') = c_protectMs opt \<and>
     (\<exists>r. sv_renderer s' = setMaxSpeed (c_maxSpeed opt) r) \<and>
     (codec = AUDIO_CODEC_OPUS \<longrightarrow>
        opus_init L sr ch frameMs (rx_opus (sv_rx s)) = (True, rx_opus (sv_rx s'))) \<and>
     (r_running (sv_renderer s') \<longleftrightarrow> r_running (sv_renderer s) \<or> \<not> FAILED (co_start (session_com E s))) \<and>
     ((r_thread (sv_renderer s) \<longrightarrow> r_running (sv_renderer s)) \<longrightarrow>
        r_thread (sv_renderer s') \<longrightarrow> r_running (sv_renderer s')) \<and>
     sv_quic s' = sv_quic s \<and>
     sv_g s' = (sv_g s)\<lparr>g_seqTimestamps := (\<lambda>_. 0), g_hbLastEndSeq := 0, g_expectedSeq := 0\<rparr>"

text \<open>The states in which \<open>sv_prepare\<close> can end.\<close>

lemma sv_prepare_cases:
  assumes "sv_prepare L E sr ch codec frameMs s = (ready, s')"
  shows "ready \<longleftrightarrow> decoder_ready L sr ch codec frameMs s \<and> com_ok (session_com E s)"
    and "\<exists>opus w r cw. s' = s\<lparr>sv_rx := (sv_rx s)\<lparr>rx_ring := Some (session_ring sr ch), rx_opus := opus\<rparr>,
        sv_w := w, sv_renderer := r, sv_com := cw\<rparr> \<and>
      (codec = AUDIO_CODEC_OPUS \<longrightarrow> decoder_ready L sr ch codec frameMs s \<longrightarrow>
        opus_init L sr ch frameMs (rx_opus (sv_rx s)) = (True, opus)) \<and>
      (if decoder_ready L sr ch codec frameMs s
       then \<exists>ok r1. r_init (session_com E s) sr ch (sv_renderer s, sv_com s) = (ok, r1, cw) \<and>
         ok = ready \<and> r = (if ok then snd (r_start (session_com E s) r1) else r1)
       else r = sv_renderer s \<and> cw = sv_com s)"
proof -
  let ?rx = "(sv_rx s)\<lparr>rx_ring := Some (session_ring sr ch)\<rparr>"
  obtain dec opus where d: "(if codec = AUDIO_CODEC_OPUS then opus_init L sr ch frameMs (rx_opus ?rx)
      else (True, rx_opus ?rx)) = (dec, opus)" by fastforce
  have dec: "dec \<longleftrightarrow> decoder_ready L sr ch codec frameMs s"
    using d by (auto simp: decoder_ready_def split: if_splits)
  obtain com w1 where e: "env_com E (sv_w s) = (com, w1)" by fastforce
  then have com: "session_com E s = com" by (simp add: session_com_def)
  obtain ok r1 cw1 where i: "r_init com sr ch (sv_renderer s, sv_com s) = (ok, r1, cw1)" by (rule prod_cases3)
  note ok = r_init_iff [OF i]
  have run: "(ready, s') = (if dec
      then (ok, s\<lparr>sv_rx := ?rx\<lparr>rx_opus := opus\<rparr>, sv_w := w1,
        sv_renderer := (if ok then snd (r_start com r1) else r1), sv_com := cw1\<rparr>)
      else (False, s\<lparr>sv_rx := ?rx\<lparr>rx_opus := opus\<rparr>\<rparr>))"
    using assms unfolding sv_prepare_def Let_def d case_prod_conv by (cases dec) (auto simp: e i)
  then show "ready \<longleftrightarrow> decoder_ready L sr ch codec frameMs s \<and> com_ok (session_com E s)"
    using ok by (simp add: dec [symmetric] com split: if_splits)
  show "\<exists>opus w r cw. s' = s\<lparr>sv_rx := (sv_rx s)\<lparr>rx_ring := Some (session_ring sr ch), rx_opus := opus\<rparr>,
        sv_w := w, sv_renderer := r, sv_com := cw\<rparr> \<and>
      (codec = AUDIO_CODEC_OPUS \<longrightarrow> decoder_ready L sr ch codec frameMs s \<longrightarrow>
        opus_init L sr ch frameMs (rx_opus (sv_rx s)) = (True, opus)) \<and>
      (if decoder_ready L sr ch codec frameMs s
       then \<exists>ok r1. r_init (session_com E s) sr ch (sv_renderer s, sv_com s) = (ok, r1, cw) \<and>
         ok = ready \<and> r = (if ok then snd (r_start (session_com E s) r1) else r1)
       else r = sv_renderer s \<and> cw = sv_com s)"
  proof (cases dec)
    case True
    then show ?thesis using run d i dec
      by (intro exI [of _ opus] exI [of _ w1] exI [of _ "if ok then snd (r_start com r1) else r1"] exI [of _ cw1])
        (auto simp: com)
  next
    case False
    then show ?thesis using run dec
      by (intro exI [of _ opus] exI [of _ "sv_w s"] exI [of _ "sv_renderer s"] exI [of _ "sv_com s"]) auto
  qed
qed

lemma sv_start_result:
  assumes "\<not> sv_initialized s"
  shows "if decoder_ready L sr ch codec frameMs s \<and> com_ok (session_com E s)
    then start_ok opt E sr ch codec frameMs L s (sv_start opt L E sr ch codec frameMs s)
    else start_failed opt E sr ch codec frameMs L s (sv_start opt L E sr ch codec frameMs s)"
proof -
  let ?com = "session_com E s"
  obtain ready s' where p: "sv_prepare L E sr ch codec frameMs s = (ready, s')" by fastforce
  note ready = sv_prepare_cases(1) [OF p]
  obtain opus w r cw where s': "s' = s\<lparr>sv_rx := (sv_rx s)\<lparr>rx_ring := Some (session_ring sr ch), rx_opus := opus\<rparr>,
        sv_w := w, sv_renderer := r, sv_com := cw\<rparr>"
      "codec = AUDIO_CODEC_OPUS \<longrightarrow> decoder_ready L sr ch codec frameMs s \<longrightarrow>
        opus_init L sr ch frameMs (rx_opus (sv_rx s)) = (True, opus)"
      "if decoder_ready L sr ch codec frameMs s
       then \<exists>ok r1. r_init ?com sr ch (sv_renderer s, sv_com s) = (ok, r1, cw) \<and>
         ok = ready \<and> r = (if ok then snd (r_start ?com r1) else r1)
       else r = sv_renderer s \<and> cw = sv_com s"
    using sv_prepare_cases(2) [OF p] by blast
  show ?thesis
  proof (cases ready)
    case True
    then have dec: "decoder_ready L sr ch codec frameMs s" using ready by simp
    obtain r1 where I: "r_init ?com sr ch (sv_renderer s, sv_com s) = (True, r1, cw)" "r = snd (r_start ?com r1)"
      using s'(3) dec True by auto
    note ok = r_init_ok [OF I(1)] and th = r_init_thread [OF I(1)]
    have th': "r_thread r \<longrightarrow> r_running r" if "r_thread (sv_renderer s) \<longrightarrow> r_running (sv_renderer s)"
      using r_start_thread [of ?com r1 "fst (r_start ?com r1)" r] th that I(2) by simp
    have r: "r_pAudioClient r \<noteq> None" "r_sampleRate r = sr" "r_currentSpeed r = Fin 1" "r_channels r = ch"
      "r_running r \<longleftrightarrow> r_running (sv_renderer s) \<or> \<not> FAILED (co_start ?com)"
      using ok th by (simp_all add: I(2) r_start_def)
    have "start_ok opt E sr ch codec frameMs L s (sv_session opt codec s')"
      using s'(2) dec r th'
      by (auto simp: s'(1) start_ok_def sv_session_def setDropBaseline_def setProtect_def rx_fresh_def)
    then show ?thesis using True ready p by (simp add: sv_start_def)
  next
    case False
    then have "(r, cw) = (if decoder_ready L sr ch codec frameMs s
        then snd (r_init ?com sr ch (sv_renderer s, sv_com s)) else (sv_renderer s, sv_com s))"
      using s'(3) by (cases "decoder_ready L sr ch codec frameMs s") auto
    then have "start_failed opt E sr ch codec frameMs L s (sv_disconnect opt (sv_discard s'))"
      using assms by (cases "c_transport opt")
        (simp_all add: s'(1) start_failed_def sv_discard_def sv_disconnect_def with_g_def opus_reset_def)
    then show ?thesis using False ready p by (auto simp add: sv_start_def)
  qed
qed

lemma setMaxSpeed_ready:
  assumes "r_sampleRate r \<in> {44100, 48000}" and "r_channels r \<in> {1, 2}" and "r_currentSpeed r = Fin 1"
    and "speed_limits_ok r"
  shows "render_ready r"
  using assms by (auto simp: render_ready_def speed_ok_def)

lemma start_ok_ready:
  assumes "start_ok opt E sr ch codec frameMs L s s'" and "sr \<in> {44100, 48000}" and "ch \<in> {1, 2}"
  shows "render_ready (sv_renderer s')"
proof -
  have "speed_limits_ok (sv_renderer s')" using assms(1) by (auto simp: start_ok_def)
  then show ?thesis using assms by (intro setMaxSpeed_ready) (auto simp: start_ok_def)
qed

lemma r_init_speed_limits:
  "r_init E sr ch (r, w) = (ok, r', w') \<Longrightarrow> speed_limits_ok r' = speed_limits_ok r"
  by (auto simp: r_init_def r_finish_def speed_limits_ok_def Let_def split: prod.splits if_splits)

lemma start_failed_renderer:
  assumes "start_failed opt E sr ch codec frameMs L s s'"
  shows "r_running (sv_renderer s') = r_running (sv_renderer s)" and "r_thread (sv_renderer s') = r_thread (sv_renderer s)"
    and "speed_limits_ok (sv_renderer s') = speed_limits_ok (sv_renderer s)" and "config_ok (sv_g s') = config_ok (sv_g s)"
proof -
  obtain ok r cw where i: "r_init (session_com E s) sr ch (sv_renderer s, sv_com s) = (ok, r, cw)" by (rule prod_cases3)
  show "r_running (sv_renderer s') = r_running (sv_renderer s)" and "r_thread (sv_renderer s') = r_thread (sv_renderer s)"
    and "speed_limits_ok (sv_renderer s') = speed_limits_ok (sv_renderer s)"
    using assms r_init_thread [OF i] r_init_speed_limits [OF i] by (auto simp: start_failed_def i split: if_splits)
  show "config_ok (sv_g s') = config_ok (sv_g s)"
    using assms by (cases "c_transport opt") (auto simp: start_failed_def)
qed

lemma sv_start_inv:
  assumes inv: "sv_inv aligned s" and idle: "\<not> sv_initialized s"
    and sr: "sr \<in> {44100, 48000}" and ch: "ch \<in> {1, 2}" and codec: "codec \<in> {AUDIO_CODEC_PCM, AUDIO_CODEC_OPUS}"
  shows "sv_inv aligned (sv_start opt L E sr ch codec frameMs s)"
proof -
  let ?s = "sv_start opt L E sr ch codec frameMs s"
  note D = sv_invD [OF inv]
  consider (failed) "start_failed opt E sr ch codec frameMs L s ?s" | (ok) "start_ok opt E sr ch codec frameMs L s ?s"
    using sv_start_result [OF idle, of L sr ch codec frameMs E opt] by (auto split: if_splits)
  then show ?thesis
  proof cases
    case failed
    note R = start_failed_renderer [OF failed]
    have "\<not> sv_initialized ?s" "rx_ring (sv_rx ?s) = None" "rx_nullDeref (sv_rx ?s) = rx_nullDeref (sv_rx s)"
      using failed by (simp_all add: start_failed_def)
    then show ?thesis using D idle R by (auto simp: sv_inv_def)
  next
    case ok
    have "config_ok (sv_g ?s)" using ok D(1) by (simp add: start_ok_def)
    moreover have "rx_framed (session_frame aligned ?s) (sv_rx ?s)"
    proof (rule rx_framedI)
      show "ring_framed (session_frame aligned ?s) (rx_ring (sv_rx ?s))"
        using ok session_ring_framed [OF sr ch, of "session_frame aligned ?s"]
        by (simp add: start_ok_def session_frame_def)
      show "\<not> rx_nullDeref (sv_rx ?s)" using ok D(2) by (simp add: start_ok_def)
      show "session_frame aligned ?s dvd length p" if "rx_sorting (sv_rx ?s) q = Some p" for q p
        using that ok by (simp add: start_ok_def rx_fresh_def)
      show "session_frame aligned ?s dvd unat (rt_channels (rx_opus (sv_rx ?s)))"
        if "rx_codec (sv_rx ?s) \<noteq> AUDIO_CODEC_PCM"
        using that ok codec opus_init_frameSamples(2) [of L sr ch frameMs "rx_opus (sv_rx s)" "rx_opus (sv_rx ?s)"]
        by (auto simp: start_ok_def session_frame_def)
    qed
    moreover have "r_thread (sv_renderer ?s) \<longrightarrow> r_running (sv_renderer ?s)"
      using ok D(6) unfolding start_ok_def by blast
    moreover have "render_ready (sv_renderer ?s)" by (rule start_ok_ready [OF ok sr ch])
    ultimately show ?thesis using ok D(2) by (simp add: sv_inv_def start_ok_def)
  qed
qed

lemma sv_configure_inv:
  assumes "sv_inv aligned s"
  shows "sv_inv aligned (sv_configure opt L E s)"
proof (cases "g_configReady (sv_g s) \<and> \<not> sv_initialized s")
  case True
  then show ?thesis
    using sv_start_inv [OF assms] sv_invD(1) [OF assms]
    by (simp add: sv_configure_def Let_def config_ok_def)
next
  case False
  then show ?thesis using assms sv_stop_inv [OF assms] by (auto simp: sv_configure_def Let_def)
qed

lemma sv_reopen_inv: "sv_inv aligned s \<Longrightarrow> sv_inv aligned (sv_reopen opt E s)"
  by (cases "env_socket E (sv_w s)") (auto simp: sv_reopen_def sv_inv_def session_frame_def)

lemma sv_reopen_frame [simp]:
  "sv_initialized (sv_reopen opt E s) = sv_initialized s" "sv_rx (sv_reopen opt E s) = sv_rx s"
  by (simp_all add: sv_reopen_def split: prod.split)

lemma sv_media_frame:
  assumes "sv_media opt E s = (m, s')"
  shows "sv_rx s' = sv_rx s" and "sv_initialized s' = sv_initialized s" and "sv_renderer s' = sv_renderer s"
proof -
  obtain r event payload s1 where r: "sv_receive E s = ((r, event, payload), s1)"
    by (metis surj_pair)
  obtain q w where s1: "s1 = s\<lparr>sv_quic := q, sv_w := w\<rparr>" using sv_receive_spec(1) [OF r] by blast
  show "sv_rx s' = sv_rx s" and "sv_initialized s' = sv_initialized s" and "sv_renderer s' = sv_renderer s"
    using assms r s1
    by (auto simp: sv_media_def Let_def sv_event_frame split: prod.splits if_splits option.splits list.splits)
qed

lemma sv_media_inv:
  assumes "dll_config_ok (env_dll E)" and "sv_inv aligned s" and "sv_media opt E s = (m, s')"
  shows "sv_inv aligned s'"
proof (cases "c_transport opt")
  case Quic
  obtain r event payload s1 where r: "sv_receive E s = ((r, event, payload), s1)"
    by (metis surj_pair)
  have "sv_inv aligned s1" using sv_receive_spec(1) [OF r] assms(2) by auto
  then show ?thesis
    using assms(3) sv_event_inv [OF assms(1) r assms(2)]
    by (auto simp: sv_media_def r Quic split: if_splits)
next
  case Udp
  then show ?thesis
    using assms(2,3) by (auto simp: sv_media_def Let_def split: prod.splits option.splits list.splits)
qed

lemma sv_packet_frame [simp]:
  "sv_initialized (sv_packet opt L E q audio s) = sv_initialized s"
  "sv_renderer (sv_packet opt L E q audio s) = sv_renderer s"
  "sv_rx (sv_packet opt L E q audio s) = sv_dispatch opt L q audio (sv_rx s)"
  "g_configReady (sv_g (sv_packet opt L E q audio s)) = g_configReady (sv_g s)"
  by (simp_all add: sv_packet_def with_g_def stamp_def Let_def)

lemma config_ok_packet: "config_ok (sv_g (sv_packet opt L E q audio s)) = config_ok (sv_g s)"
  by (simp add: sv_packet_def with_g_def Let_def)

lemma sv_packet_inv:
  assumes "sv_inv aligned s" and "sv_initialized s"
    and "payload_framed (session_frame aligned s) (rx_codec (sv_rx s)) audio"
  shows "sv_inv aligned (sv_packet opt L E q audio s)"
proof -
  note D = sv_invD [OF assms(1)]
  let ?c = "session_frame aligned s" and ?rx = "sv_dispatch opt L q audio (sv_rx s)"
  have fr: "rx_framed ?c ?rx"
    using rx_quic_framed [OF D(3) [OF assms(2)] assms(3)] rx_discard_framed [OF D(3) [OF assms(2)] assms(3)]
      rx_reorder_framed [OF D(3) [OF assms(2)] assms(3)]
    by (simp add: sv_dispatch_def)
  have "session_frame aligned (sv_packet opt L E q audio s) = ?c" by (simp add: session_frame_def)
  then show ?thesis
    using D fr rx_framedD(2) [OF fr] assms(2) by (simp add: sv_inv_def config_ok_packet)
qed

text \<open>A whole turn of the loop. With \<open>aligned\<close>, its packet must be whole frames.\<close>

definition media_framed :: "bool \<Rightarrow> options \<Rightarrow> 'w env \<Rightarrow> ('d, 'w) server \<Rightarrow> bool" where
  "media_framed aligned opt E s \<longleftrightarrow> sv_initialized s \<longrightarrow>
     (case sv_media opt E s of
        (None, s') \<Rightarrow> True
      | (Some (q, audio), s') \<Rightarrow> payload_framed (session_frame aligned s) (rx_codec (sv_rx s)) audio)"

lemma media_framed_plain [simp]: "media_framed False opt E s"
  by (simp add: media_framed_def payload_framed_def session_frame_def split: prod.split option.split)

lemma main_iter_inv:
  assumes "dll_config_ok (env_dll E)" and "sv_inv aligned s"
    and "media_framed aligned opt E (sv_configure opt L E (sv_poll opt E s))"
  shows "sv_inv aligned (main_iter opt L E s)"
proof -
  let ?s1 = "sv_configure opt L E (sv_poll opt E s)"
  have inv: "sv_inv aligned ?s1" by (intro sv_configure_inv sv_poll_inv assms)
  show ?thesis
  proof (cases "sv_initialized ?s1")
    case False
    then show ?thesis using sv_reopen_inv [OF inv] by (simp add: main_iter_def Let_def)
  next
    case True
    obtain m s2 where m: "sv_media opt E ?s1 = (m, s2)" by fastforce
    note F = sv_media_frame [OF m]
    have inv2: "sv_inv aligned s2" by (rule sv_media_inv [OF assms(1) inv m])
    show ?thesis
    proof (cases m)
      case None
      then show ?thesis using True m inv2 by (simp add: main_iter_def Let_def)
    next
      case (Some pk)
      obtain q audio where pk: "pk = (q, audio)" by fastforce
      have "session_frame aligned s2 = session_frame aligned ?s1" by (simp only: session_frame_def F)
      then have "payload_framed (session_frame aligned s2) (rx_codec (sv_rx s2)) audio"
        using assms(3) m True by (simp add: media_framed_def Some pk F)
      then have "sv_inv aligned (sv_packet opt L E q audio s2)"
        using inv2 True F(2) by (intro sv_packet_inv) simp_all
      then show ?thesis using True m by (simp add: main_iter_def Let_def Some pk)
    qed
  qed
qed

section \<open>All threads\<close>

text \<open>
  The main thread between the points at which the other threads can get in. \<open>M_Config\<close> is before the
  look at the shared configuration, \<open>M_Apply\<close> holds what was read; in \<open>M_Session\<close> the render thread of
  a new session already runs, with the settings not yet made; in \<open>M_Drop\<close> the start has failed
  and the client is still to be dropped. \<open>M_Idle\<close> is before the look at the UDP
  socket when there is no session, \<open>M_Media\<close> before the wait for a packet.
\<close>

datatype main_pc = M_Top | M_Config | M_Apply bool u32 u8 u8 u8 | M_Session u8 | M_Drop
  | M_Idle | M_Media | M_Packet u8 "u8 list" | M_Done

fun main_step :: "options \<Rightarrow> 'd opus_lib \<Rightarrow> 'w env \<Rightarrow> main_pc \<times> ('d, 'w) server \<Rightarrow> main_pc \<times> ('d, 'w) server" where
  "main_step opt L E (M_Top, s) =
     (if \<not> g_running (sv_g s) then (M_Done, main_exit s) else (M_Config, sv_poll opt E s))"
| "main_step opt L E (M_Config, s) =
     (let g = sv_g s
      in (M_Apply (g_configReady g) (g_sampleRate g) (g_channels g) (g_codec g) (g_frameMs g), s))"
| "main_step opt L E (M_Apply configReady sr ch codec frameMs, s) =
     (if configReady \<and> \<not> sv_initialized s then
        let (ready, s1) = sv_prepare L E sr ch codec frameMs s
        in if ready then (M_Session codec, s1) else (M_Drop, sv_discard s1)
      else if \<not> configReady \<and> sv_initialized s then (M_Idle, sv_stop s)
      else (if sv_initialized s then M_Media else M_Idle, s))"
| "main_step opt L E (M_Session codec, s) = (M_Media, sv_session opt codec s)"
| "main_step opt L E (M_Drop, s) = (M_Idle, sv_disconnect opt s)"
| "main_step opt L E (M_Idle, s) = (M_Top, sv_reopen opt E s)"
| "main_step opt L E (M_Media, s) =
     (case sv_media opt E s of
        (None, s1) \<Rightarrow> (M_Top, s1)
      | (Some (q, audio), s1) \<Rightarrow> (M_Packet q audio, s1))"
| "main_step opt L E (M_Packet q audio, s) = (M_Top, sv_packet opt L E q audio s)"
| "main_step opt L E (M_Done, s) = (M_Done, s)"

text \<open>
  All threads of the process: the main loop, the TCP handler, the turns of the render thread
  (\<open>render_turn\<close>, for any padding and any buffer), its timeout, and the signal handler. A turn
  that finds no ring buffer or that fails kills the process: \<open>y_fault\<close> keeps the padding and the
  buffer of that turn, and nothing happens after it.
\<close>

record ('d, 'w) sys =
  y_main :: main_pc
  y_tcp :: tcp_pc
  y_sv :: "('d, 'w) server"
  y_fault :: "(u32 \<times> pcm option) option"

inductive sys_step :: "options \<Rightarrow> 'd opus_lib \<Rightarrow> 'w env \<Rightarrow> 'w os \<Rightarrow> u8 list \<Rightarrow> ('d, 'w) sys \<Rightarrow> ('d, 'w) sys \<Rightarrow> bool"
  for opt L E os stack where
  main: "y_fault y = None \<Longrightarrow> main_step opt L E (y_main y, y_sv y) = (pc, s) \<Longrightarrow>
    sys_step opt L E os stack y (y\<lparr>y_main := pc, y_sv := s\<rparr>)"
| tcp: "y_fault y = None \<Longrightarrow> c_transport opt = Udp \<Longrightarrow>
    tcp_step os stack (y_tcp y, sv_g (y_sv y), sv_w (y_sv y)) = (pc, g, w) \<Longrightarrow>
    sys_step opt L E os stack y (y\<lparr>y_tcp := pc, y_sv := (y_sv y)\<lparr>sv_g := g, sv_w := w\<rparr>\<rparr>)"
| render: "y_fault y = None \<Longrightarrow> r_running (sv_renderer (y_sv y)) \<Longrightarrow> rx_ring (sv_rx (y_sv y)) = Some rb \<Longrightarrow>
    render_turn (env_exp E) padding pData (sv_renderer (y_sv y), rb) = Some (out, low, r, rb') \<Longrightarrow>
    sys_step opt L E os stack y (y\<lparr>y_sv := (y_sv y)\<lparr>sv_renderer := r,
      sv_rx := (sv_rx (y_sv y))\<lparr>rx_ring := Some rb', rx_bufferLow := low \<or> rx_bufferLow (sv_rx (y_sv y))\<rparr>\<rparr>\<rparr>)"
| crash: "y_fault y = None \<Longrightarrow> r_running (sv_renderer (y_sv y)) \<Longrightarrow>
    (case rx_ring (sv_rx (y_sv y)) of None \<Rightarrow> True
     | Some rb \<Rightarrow> render_turn (env_exp E) padding pData (sv_renderer (y_sv y), rb) = None) \<Longrightarrow>
    sys_step opt L E os stack y (y\<lparr>y_fault := Some (padding, pData)\<rparr>)"
| timeout: "y_fault y = None \<Longrightarrow> r_running (sv_renderer (y_sv y)) \<Longrightarrow>
    sys_step opt L E os stack y (y\<lparr>y_sv := onFatalTimeout opt (y_sv y)\<rparr>)"
| signal: "y_fault y = None \<Longrightarrow>
    sys_step opt L E os stack y (y\<lparr>y_sv := (y_sv y)\<lparr>sv_g := signalHandler (sv_g (y_sv y)),
      sv_quic := q_disconnectClient (sv_quic (y_sv y))\<rparr>\<rparr>)"

inductive sys_reach :: "options \<Rightarrow> 'd opus_lib \<Rightarrow> 'w env \<Rightarrow> 'w os \<Rightarrow> u8 list \<Rightarrow> ('d, 'w) sys \<Rightarrow> ('d, 'w) sys \<Rightarrow> bool"
  for opt L E os stack y0 where
  start: "sys_reach opt L E os stack y0 y0"
| step: "sys_reach opt L E os stack y0 y \<Longrightarrow> sys_step opt L E os stack y y' \<Longrightarrow>
    sys_reach opt L E os stack y0 y'"

definition sys_init :: "('d, 'w) server \<Rightarrow> ('d, 'w) sys" where
  "sys_init s = \<lparr>y_main = M_Top, y_tcp = T_Accept, y_sv = s, y_fault = None\<rparr>"

section \<open>What every interleaving preserves\<close>

text \<open>What a render thread that runs relies on.\<close>

definition playable :: "('d, 'w) server \<Rightarrow> bool" where
  "playable s \<longleftrightarrow> ring_framed 1 (rx_ring (sv_rx s)) \<and> render_ready (sv_renderer s)"

text \<open>A session whose render thread has been started, and nothing else yet.\<close>

definition sv_starting :: "('d, 'w) server \<Rightarrow> bool" where
  "sv_starting s \<longleftrightarrow> config_ok (sv_g s) \<and> \<not> rx_nullDeref (sv_rx s) \<and> \<not> sv_initialized s \<and> playable s \<and>
     (r_thread (sv_renderer s) \<longrightarrow> r_running (sv_renderer s))"

fun main_inv :: "main_pc \<Rightarrow> ('d, 'w) server \<Rightarrow> bool" where
  "main_inv M_Top s = sv_inv False s"
| "main_inv M_Config s = sv_inv False s"
| "main_inv (M_Apply configReady sr ch codec frameMs) s = (sv_inv False s \<and>
     (configReady \<longrightarrow> sr \<in> {44100, 48000} \<and> ch \<in> {1, 2} \<and> codec \<in> {AUDIO_CODEC_PCM, AUDIO_CODEC_OPUS}))"
| "main_inv (M_Session codec) s = sv_starting s"
| "main_inv M_Drop s = (sv_inv False s \<and> \<not> sv_initialized s)"
| "main_inv M_Idle s = sv_inv False s"
| "main_inv M_Media s = (sv_inv False s \<and> sv_initialized s)"
| "main_inv (M_Packet q audio) s = (sv_inv False s \<and> sv_initialized s)"
| "main_inv M_Done s = (\<not> rx_nullDeref (sv_rx s) \<and> \<not> r_running (sv_renderer s))"

text \<open>A fault is a turn of a running thread with a ring buffer, and one of those that \<open>turn_faults\<close> names.\<close>

definition fault_explained :: "('d, 'w) sys \<Rightarrow> bool" where
  "fault_explained y \<longleftrightarrow> (\<forall>padding pData. y_fault y = Some (padding, pData) \<longrightarrow>
     r_running (sv_renderer (y_sv y)) \<and> turn_faults padding pData (sv_renderer (y_sv y)))"

definition sys_inv :: "('d, 'w) sys \<Rightarrow> bool" where
  "sys_inv y \<longleftrightarrow> main_inv (y_main y) (y_sv y) \<and> fault_explained y"

lemma sv_inv_playable: "sv_inv aligned s \<Longrightarrow> sv_initialized s \<Longrightarrow> playable s"
  using sv_invD(3,7) [of aligned s] rx_framedD(1)
  by (auto simp: playable_def ring_framed_def split: option.splits)

lemma main_inv_running:
  assumes "main_inv pc s" and "r_running (sv_renderer s)"
  shows "playable s" and "pc \<noteq> M_Done"
    and "sv_inv False s \<and> sv_initialized s \<or> (\<exists>codec. pc = M_Session codec) \<and> sv_starting s"
proof -
  show *: "sv_inv False s \<and> sv_initialized s \<or> (\<exists>codec. pc = M_Session codec) \<and> sv_starting s"
    using assms by (cases pc) (auto dest: sv_invD(5))
  show "pc \<noteq> M_Done" using assms by auto
  show "playable s" using * sv_inv_playable by (auto simp: sv_starting_def)
qed

text \<open>A change of what the main thread does not own.\<close>

lemma main_inv_mono:
  assumes "main_inv pc s" and "sv_inv False s \<Longrightarrow> sv_inv False s'" and "sv_starting s \<Longrightarrow> sv_starting s'"
    and "sv_initialized s' = sv_initialized s" and "rx_nullDeref (sv_rx s') = rx_nullDeref (sv_rx s)"
    and "r_running (sv_renderer s') = r_running (sv_renderer s)"
  shows "main_inv pc s'"
  using assms by (cases pc) auto

lemma config_ok_store: "config_supported c \<Longrightarrow> config_ok (store_config c g)"
  by (auto simp: config_supported_iff config_ok_def store_config_def getSampleRate_def protocol_consts)

lemma tcp_step_config_ok:
  assumes "tcp_step os stack (pc, g, w) = (pc', g', w')" and "config_ok g"
  shows "config_ok g'"
proof (cases pc)
  case T_Accept
  then show ?thesis using assms by (auto simp: tcp_accept_def split: prod.splits if_splits)
next
  case (T_Config c)
  then show ?thesis
    using assms by (auto simp: tcp_config_def Let_def config_ok_store split: prod.splits if_splits)
next
  case (T_Heartbeat c)
  then show ?thesis
    using assms by (auto simp: tcp_heartbeat_def hb_reply_def Let_def split: prod.splits if_splits option.splits)
qed (use assms in \<open>auto simp: tcp_close_udp_def tcp_close_client_def Let_def split: if_splits\<close>)

lemma signalHandler_config_ok [simp]: "config_ok (signalHandler g) = config_ok g"
  by (simp add: signalHandler_def Let_def)

lemma main_exit_done:
  assumes "sv_inv False s"
  shows "\<not> rx_nullDeref (sv_rx (main_exit s)) \<and> \<not> r_running (sv_renderer (main_exit s))"
proof -
  obtain r cw where st: "r_stop (sv_renderer s, sv_com s) = (r, cw)" by fastforce
  then have "\<not> r_running r" by (rule r_stop_idle)
  then show ?thesis
    using sv_invD [OF assms] st by (auto simp: main_exit_def with_g_def Let_def)
qed

lemma sv_prepare_starting:
  assumes "sv_inv False s" and "\<not> sv_initialized s" and "sr \<in> {44100, 48000}" and "ch \<in> {1, 2}"
    and "sv_prepare L E sr ch codec frameMs s = (ready, s')"
  shows "if ready then sv_starting s' else sv_inv False (sv_discard s') \<and> \<not> sv_initialized s'"
proof -
  let ?com = "session_com E s"
  note D = sv_invD [OF assms(1)]
  obtain opus w r cw where s': "s' = s\<lparr>sv_rx := (sv_rx s)\<lparr>rx_ring := Some (session_ring sr ch), rx_opus := opus\<rparr>,
        sv_w := w, sv_renderer := r, sv_com := cw\<rparr>"
      "if decoder_ready L sr ch codec frameMs s
       then \<exists>ok r1. r_init ?com sr ch (sv_renderer s, sv_com s) = (ok, r1, cw) \<and>
         ok = ready \<and> r = (if ok then snd (r_start ?com r1) else r1)
       else r = sv_renderer s \<and> cw = sv_com s"
    using sv_prepare_cases(2) [OF assms(5)] by blast
  show ?thesis
  proof (cases ready)
    case True
    then obtain r1 where i: "r_init ?com sr ch (sv_renderer s, sv_com s) = (True, r1, cw)" and r: "r = snd (r_start ?com r1)"
      using s'(2) sv_prepare_cases(1) [OF assms(5)] by auto
    note ok = r_init_ok [OF i] and th = r_init_thread [OF i] and lim = r_init_speed_limits [OF i]
    have "render_ready r"
      using assms(3,4) ok lim D(8) by (intro setMaxSpeed_ready) (simp_all add: r r_start_def speed_limits_ok_def)
    moreover have "r_thread r \<longrightarrow> r_running r" using th D(6) by (auto simp: r r_start_def)
    moreover have "ring_framed 1 (Some (session_ring sr ch))"
      using assms(3,4) by (intro session_ring_framed) simp_all
    ultimately show ?thesis using True D assms(2) by (simp add: s'(1) sv_starting_def playable_def)
  next
    case False
    have "r_running r = r_running (sv_renderer s) \<and> r_thread r = r_thread (sv_renderer s) \<and>
      speed_limits_ok r = speed_limits_ok (sv_renderer s)"
    proof (cases "decoder_ready L sr ch codec frameMs s")
      case True
      then obtain r1 where i: "r_init ?com sr ch (sv_renderer s, sv_com s) = (False, r1, cw)" "r = r1"
        using s'(2) False by auto
      then show ?thesis using r_init_thread [OF i(1)] r_init_speed_limits [OF i(1)] by simp
    qed (use s'(2) in simp)
    then show ?thesis using False D assms(2) by (auto simp: s'(1) sv_inv_def sv_discard_def)
  qed
qed

lemma sv_session_inv:
  assumes "sv_starting s"
  shows "sv_inv False (sv_session opt codec s)" and "sv_initialized (sv_session opt codec s)"
proof -
  let ?r = "setMaxSpeed (c_maxSpeed opt) (setProtect (c_protectMs opt) (setDropBaseline (c_dropBaselineMs opt) (sv_renderer s)))"
  have S: "ring_framed 1 (rx_ring (sv_rx s))" "render_ready (sv_renderer s)" "config_ok (sv_g s)"
    "\<not> rx_nullDeref (sv_rx s)" "r_thread (sv_renderer s) \<longrightarrow> r_running (sv_renderer s)"
    using assms by (simp_all add: sv_starting_def playable_def)
  have "render_ready ?r"
    using S(2) setMaxSpeed_limits by (simp add: render_ready_def speed_ok_def setProtect_def setDropBaseline_def)
  moreover have "rx_framed 1 (sv_rx (sv_session opt codec s))"
    by (rule rx_framedI) (use S(1,4) in \<open>simp_all add: sv_session_def\<close>)
  ultimately show "sv_inv False (sv_session opt codec s)"
    using S by (simp add: sv_inv_def sv_session_def session_frame_def setProtect_def setDropBaseline_def)
  show "sv_initialized (sv_session opt codec s)" by (simp add: sv_session_def)
qed

lemma main_step_inv:
  assumes "dll_config_ok (env_dll E)" and "main_inv pc s" and "main_step opt L E (pc, s) = (pc', s')"
  shows "main_inv pc' s'"
proof (cases pc)
  case M_Top
  then have inv: "sv_inv False s" using assms(2) by simp
  then show ?thesis
    using assms(3) M_Top main_exit_done [OF inv] sv_poll_inv [OF assms(1) inv] by (auto split: if_splits)
next
  case M_Config
  then show ?thesis using assms(2,3) sv_invD(1) [of False s] by (auto simp: config_ok_def Let_def)
next
  case (M_Apply configReady sr ch codec frameMs)
  then have inv: "sv_inv False s"
    and ok: "configReady \<Longrightarrow> sr \<in> {44100, 48000} \<and> ch \<in> {1, 2} \<and> codec \<in> {AUDIO_CODEC_PCM, AUDIO_CODEC_OPUS}"
    using assms(2) by simp_all
  obtain ready s1 where p: "sv_prepare L E sr ch codec frameMs s = (ready, s1)" by fastforce
  show ?thesis
  proof (cases "configReady \<and> \<not> sv_initialized s")
    case True
    then have "if ready then sv_starting s1 else sv_inv False (sv_discard s1) \<and> \<not> sv_initialized s1"
      using ok by (intro sv_prepare_starting [OF inv _ _ _ p]) simp_all
    then show ?thesis using assms(3) M_Apply True p by (auto simp: sv_discard_def split: if_splits)
  next
    case False
    then show ?thesis using assms(3) M_Apply inv sv_stop_inv [OF inv] by (auto split: if_splits)
  qed
next
  case (M_Session codec)
  then show ?thesis using assms(2,3) sv_session_inv [of s opt codec] by auto
next
  case M_Drop
  then show ?thesis using assms(2,3) sv_disconnect_inv [of False s opt] by auto
next
  case M_Idle
  then show ?thesis using assms(2,3) sv_reopen_inv [of False s opt E] by auto
next
  case M_Media
  then have inv: "sv_inv False s" "sv_initialized s" using assms(2) by simp_all
  obtain m s1 where m: "sv_media opt E s = (m, s1)" by fastforce
  have "sv_inv False s1" "sv_initialized s1"
    using sv_media_inv [OF assms(1) inv(1) m] sv_media_frame(2) [OF m] inv(2) by simp_all
  then show ?thesis using assms(3) M_Media m by (auto split: option.splits prod.splits)
next
  case (M_Packet q audio)
  then have inv: "sv_inv False s" "sv_initialized s" using assms(2) by simp_all
  have "payload_framed (session_frame False s) (rx_codec (sv_rx s)) audio"
    by (simp add: payload_framed_def session_frame_def)
  note sv_packet_inv [OF inv this, of opt L E q]
  then show ?thesis using assms(3) M_Packet by auto
next
  case M_Done
  then show ?thesis using assms(2,3) by auto
qed

text \<open>The other threads: a change of the shared globals, and a turn of the render thread.\<close>

lemma main_inv_globals:
  assumes "main_inv pc s" and "config_ok (sv_g s) \<Longrightarrow> config_ok g"
  shows "main_inv pc (s\<lparr>sv_g := g, sv_w := w\<rparr>)" and "main_inv pc (s\<lparr>sv_g := g, sv_quic := q\<rparr>)"
    and "main_inv pc (s\<lparr>sv_g := g\<rparr>)" and "main_inv pc (s\<lparr>sv_quic := q\<rparr>)"
  by (rule main_inv_mono [OF assms(1)];
      use assms(2) in \<open>auto simp: sv_inv_def sv_starting_def playable_def session_frame_def split: if_splits\<close>)+

lemma render_turn_keeps:
  assumes "exp_ok cexp" and "render_ready r" and "rb_inv rb"
    and "render_turn cexp padding pData (r, rb) = Some (out, low, r', rb')"
  shows "rb_inv rb'" and "erase r' = erase r" and "render_ready r'"
proof -
  have "\<not> turn_faults padding pData r" using render_turn_None_iff [OF assms(1-3)] assms(4) by force
  then have "rb_inv rb' \<and> erase r' = erase r \<and> render_ready r'"
    using render_turn_safe [OF assms(1-3), of padding pData] assms(4) by (auto simp: takes_front_def)
  then show "rb_inv rb'" and "erase r' = erase r" and "render_ready r'" by blast+
qed

lemma main_inv_render:
  assumes "main_inv pc s" and run: "r_running (sv_renderer s)" and "exp_ok cexp"
    and "rx_ring (sv_rx s) = Some rb"
    and "render_turn cexp padding pData (sv_renderer s, rb) = Some (out, low, r, rb')"
  shows "main_inv pc (s\<lparr>sv_renderer := r, sv_rx := (sv_rx s)\<lparr>rx_ring := Some rb', rx_bufferLow := b\<rparr>\<rparr>)"
proof -
  have "rb_inv rb" "render_ready (sv_renderer s)"
    using main_inv_running(1) [OF assms(1) run] assms(4) by (simp_all add: playable_def ring_framed_def)
  note K = render_turn_keeps [OF assms(3) this(2,1) assms(5)]
  note E = erase_eqD(1,2) [OF K(2)]
  have ring: "ring_framed 1 (Some rb')" using K(1) by (simp add: ring_framed_def)
  show ?thesis
  proof (rule main_inv_mono [OF assms(1)])
    show "sv_inv False (s\<lparr>sv_renderer := r, sv_rx := (sv_rx s)\<lparr>rx_ring := Some rb', rx_bufferLow := b\<rparr>\<rparr>)"
      if inv: "sv_inv False s"
    proof -
      have on: "sv_initialized s" using sv_invD(5) [OF inv] run by blast
      show ?thesis
        using sv_invD [OF inv] rx_framedD [OF sv_invD(3) [OF inv on]] ring on K(3) E run
        by (simp add: sv_inv_def rx_framed_def session_frame_def)
    qed
    show "sv_starting (s\<lparr>sv_renderer := r, sv_rx := (sv_rx s)\<lparr>rx_ring := Some rb', rx_bufferLow := b\<rparr>\<rparr>)"
      if "sv_starting s"
      using that ring K(3) E by (simp add: sv_starting_def playable_def)
  qed (use E in simp_all)
qed

lemma sys_step_inv:
  assumes "sys_step opt L E os stack y y'" and "dll_config_ok (env_dll E)" and "exp_ok (env_exp E)" and "sys_inv y"
  shows "sys_inv y'"
  using assms
proof (induction rule: sys_step.induct)
  case (main y pc s)
  then show ?case using main_step_inv [OF main(3) _ main(2)] by (simp add: sys_inv_def fault_explained_def)
next
  case (tcp y pc g w)
  then show ?case
    using main_inv_globals(1) [of "y_main y" "y_sv y" g w] tcp_step_config_ok [OF tcp(3)]
    by (simp add: sys_inv_def fault_explained_def)
next
  case (render y rb padding pData out low r rb')
  then show ?case using main_inv_render [OF _ render(2,6,3,4)] by (simp add: sys_inv_def fault_explained_def)
next
  case (crash y padding pData)
  have inv: "main_inv (y_main y) (y_sv y)" using crash(6) by (simp add: sys_inv_def)
  have "playable (y_sv y)" by (rule main_inv_running(1) [OF inv crash(2)])
  then obtain rb where rb: "rx_ring (sv_rx (y_sv y)) = Some rb" "rb_inv rb" "render_ready (sv_renderer (y_sv y))"
    by (auto simp: playable_def ring_framed_def)
  then have "turn_faults padding pData (sv_renderer (y_sv y))"
    using crash(3) render_turn_None_iff [OF crash(5) rb(3,2)] by simp
  then show ?case using inv crash(2) by (simp add: sys_inv_def fault_explained_def)
next
  case (timeout y)
  have "main_inv (y_main y) (onFatalTimeout opt (y_sv y))"
    using timeout(5) main_inv_globals(3,4) [of "y_main y" "y_sv y"]
    by (simp add: sys_inv_def onFatalTimeout_def sv_disconnect_def with_g_def)
  then show ?case using timeout(1) by (simp add: sys_inv_def fault_explained_def)
next
  case (signal y)
  then show ?case using main_inv_globals(2) [of "y_main y" "y_sv y"] by (simp add: sys_inv_def fault_explained_def)
qed

lemma sys_reach_inv:
  assumes "sys_reach opt L E os stack y0 y" and "dll_config_ok (env_dll E)" and "exp_ok (env_exp E)" and "sys_inv y0"
  shows "sys_inv y"
  using assms by (induction rule: sys_reach.induct) (auto intro: sys_step_inv)

text \<open>
  What the invariant says of memory: no write through a null ring buffer; a ring buffer exactly while
  there is a session; a running thread with a well-formed ring buffer and exactly the faults of
  \<open>turn_faults\<close>; and no other fault so far.
\<close>

definition has_session :: "('d, 'w) sys \<Rightarrow> bool" where
  "has_session y \<longleftrightarrow> sv_initialized (y_sv y) \<or> (\<exists>codec. y_main y = M_Session codec)"

lemma sys_inv_memory:
  assumes "sys_inv y" and "exp_ok cexp"
  shows "\<not> rx_nullDeref (sv_rx (y_sv y))"
    and "y_main y \<noteq> M_Done \<Longrightarrow> has_session y \<longleftrightarrow> rx_ring (sv_rx (y_sv y)) \<noteq> None"
    and "r_running (sv_renderer (y_sv y)) \<Longrightarrow> \<exists>rb. rx_ring (sv_rx (y_sv y)) = Some rb \<and> rb_inv rb \<and>
      render_ready (sv_renderer (y_sv y)) \<and>
      (\<forall>padding pData. render_turn cexp padding pData (sv_renderer (y_sv y), rb) = None \<longleftrightarrow>
        turn_faults padding pData (sv_renderer (y_sv y)))"
    and "y_fault y = Some (padding, pData) \<Longrightarrow>
      r_running (sv_renderer (y_sv y)) \<and> turn_faults padding pData (sv_renderer (y_sv y))"
proof -
  have inv: "main_inv (y_main y) (y_sv y)" using assms(1) by (simp add: sys_inv_def)
  have ring: "playable (y_sv y) \<Longrightarrow> rx_ring (sv_rx (y_sv y)) \<noteq> None"
    by (auto simp: playable_def ring_framed_def)
  show "\<not> rx_nullDeref (sv_rx (y_sv y))"
    using inv sv_invD(2) [of False "y_sv y"] by (cases "y_main y") (auto simp: sv_starting_def)
  show "has_session y \<longleftrightarrow> rx_ring (sv_rx (y_sv y)) \<noteq> None" if "y_main y \<noteq> M_Done"
  proof (cases "\<exists>codec. y_main y = M_Session codec")
    case True
    then show ?thesis using inv ring by (auto simp: has_session_def sv_starting_def)
  next
    case False
    then have sv: "sv_inv False (y_sv y)" using inv that by (cases "y_main y") auto
    then show ?thesis
      using False sv_invD(4) [OF sv] sv_inv_playable [OF sv] ring
      by (cases "sv_initialized (y_sv y)") (simp_all add: has_session_def)
  qed
  show "\<exists>rb. rx_ring (sv_rx (y_sv y)) = Some rb \<and> rb_inv rb \<and> render_ready (sv_renderer (y_sv y)) \<and>
      (\<forall>padding pData. render_turn cexp padding pData (sv_renderer (y_sv y), rb) = None \<longleftrightarrow>
        turn_faults padding pData (sv_renderer (y_sv y)))" if run: "r_running (sv_renderer (y_sv y))"
  proof -
    obtain rb where rb: "rx_ring (sv_rx (y_sv y)) = Some rb" "rb_inv rb" "render_ready (sv_renderer (y_sv y))"
      using main_inv_running(1) [OF inv run] by (auto simp: playable_def ring_framed_def)
    then show ?thesis using render_turn_None_iff [OF assms(2) rb(3,2)] by blast
  qed
  show "y_fault y = Some (padding, pData) \<Longrightarrow>
      r_running (sv_renderer (y_sv y)) \<and> turn_faults padding pData (sv_renderer (y_sv y))"
    using assms(1) by (simp add: sys_inv_def fault_explained_def)
qed

text \<open>The process right after its sockets or the bridge were set up.\<close>

definition sv_booted :: "('d, 'w) server \<Rightarrow> bool" where
  "sv_booted s \<longleftrightarrow> \<not> sv_initialized s \<and> rx_ring (sv_rx s) = None \<and> \<not> rx_nullDeref (sv_rx s) \<and>
     r_clean (sv_renderer s) \<and> speed_limits_ok (sv_renderer s) \<and> \<not> g_configReady (sv_g s)"

lemma idle_renderer_limits [simp]: "speed_limits_ok idle_renderer"
  by (simp add: idle_renderer_def speed_limits_ok_def)

lemma sv_booted_inv: "sv_booted s \<Longrightarrow> sv_inv aligned s"
  by (simp add: sv_booted_def sv_inv_def config_ok_def r_clean_def)

lemma sv_booted_sys_inv: "sv_booted s \<Longrightarrow> sys_inv (sys_init s)"
  by (simp add: sys_inv_def fault_explained_def sys_init_def sv_booted_inv)

text \<open>A turn of the TCP handler and one of the main thread as steps of the whole process.\<close>

lemma tcp_sys_step:
  assumes "c_transport opt = Udp" and "tcp_step os stack (t, sv_g s, sv_w s) = (t', g, w)"
  shows "sys_step opt L E os stack \<lparr>y_main = pc, y_tcp = t, y_sv = s, y_fault = None\<rparr>
    \<lparr>y_main = pc, y_tcp = t', y_sv = s\<lparr>sv_g := g, sv_w := w\<rparr>, y_fault = None\<rparr>"
  using sys_step.tcp [of "\<lparr>y_main = pc, y_tcp = t, y_sv = s, y_fault = None\<rparr>" opt os stack t' g w L E] assms by simp

lemma main_sys_step:
  assumes "main_step opt L E (pc, s) = (pc', s')"
  shows "sys_step opt L E os stack \<lparr>y_main = pc, y_tcp = t, y_sv = s, y_fault = None\<rparr>
    \<lparr>y_main = pc', y_tcp = t, y_sv = s', y_fault = None\<rparr>"
  using sys_step.main [of "\<lparr>y_main = pc, y_tcp = t, y_sv = s, y_fault = None\<rparr>" opt L E pc' s' os stack] assms by simp

section \<open>Properties\<close>

text \<open>A machine for the witnesses: audio works, the bridge is absent, every datagram is the same.\<close>

definition demo_env :: "u8 list env" where
  "demo_env = \<lparr>env_dll = \<lparr>dll_path = [], dll_load = (\<lambda>p w. (None, w)), dll_proc = (\<lambda>_ _. False),
       dll_start = (\<lambda>port w. (None, w)), dll_receive = (\<lambda>h c t w. ((0, no_event, []), w)),
       dll_last_error = (\<lambda>h w. [])\<rparr>,
     env_com = (\<lambda>w. (demo_com, w)), env_socket = (\<lambda>w. (5, w)),
     env_recvfrom = (\<lambda>s w. if s = INVALID_SOCKET then (None, w) else (Some [0, 1, 0, 2, 0], w)),
     env_now = (\<lambda>w. 1000), env_exp = demo_exp\<rparr>"

definition demo_options :: options where
  "demo_options = \<lparr>c_transport = Udp, c_discardOutOfOrder = False, c_dropBaselineMs = 0, c_protectMs = 50,
     c_maxSpeed = Fin (5 / 4)\<rparr>"

definition demo_server :: "(unit, u8 list) server" where
  "demo_server = \<lparr>sv_g = demo_globals, sv_rx = demo_rx\<lparr>rx_ring := None\<rparr>, sv_initialized = False,
     sv_renderer = idle_renderer, sv_com = \<lparr>cw_next = 0, cw_live = []\<rparr>, sv_quic = q_new,
     sv_w = [1, 1, 2, 0, 20, 32]\<rparr>"

lemma demo_dll_config_ok: "dll_config_ok (env_dll demo_env)"
  by (auto simp: dll_config_ok_def demo_env_def no_event_def quic_kinds)

lemma demo_env_exp_ok: "exp_ok (env_exp demo_env)"
  by (simp add: demo_env_def demo_exp_ok)

lemma demo_server_booted: "sv_booted demo_server"
  by (simp add: sv_booted_def demo_server_def demo_globals_def)

text \<open>
  C2: Memory safety of the whole server and its limits, over every interleaving of the main loop, the TCP
  handler, the render thread, its timeout callback and the signal handler, for either
  transport and whatever arrives. Nothing is ever written through a null ring buffer. While the process runs,
  a ring buffer exists exactly while there is a session. A running render thread always has a well-formed
  ring buffer, and its turns fail exactly for the reasons of \<open>turn_faults\<close>: the device has room, and
  \<open>GetService\<close> gave no render client or \<open>GetBuffer\<close> no buffer, or too short a one, whose results the code does
  not check. If the process has died from a failed turn, it was one of these.
\<close>

theorem server_memory_safe:
  assumes "dll_config_ok (env_dll E)" and "exp_ok (env_exp E)" and "sv_booted s0"
    and "sys_reach opt L E os stack (sys_init s0) y"
  shows "\<not> rx_nullDeref (sv_rx (y_sv y)) \<and>
    (y_main y \<noteq> M_Done \<longrightarrow> (has_session y \<longleftrightarrow> rx_ring (sv_rx (y_sv y)) \<noteq> None)) \<and>
    (r_running (sv_renderer (y_sv y)) \<longrightarrow> (\<exists>rb. rx_ring (sv_rx (y_sv y)) = Some rb \<and> rb_inv rb \<and>
      (\<forall>padding pData. render_turn (env_exp E) padding pData (sv_renderer (y_sv y), rb) = None \<longleftrightarrow>
        turn_faults padding pData (sv_renderer (y_sv y))))) \<and>
    (\<forall>padding pData. y_fault y = Some (padding, pData) \<longrightarrow>
      r_running (sv_renderer (y_sv y)) \<and> turn_faults padding pData (sv_renderer (y_sv y)))"
proof -
  have inv: "sys_inv y" by (rule sys_reach_inv [OF assms(4,1,2) sv_booted_sys_inv [OF assms(3)]])
  show ?thesis using sys_inv_memory [OF inv assms(2)] by meson
qed

text \<open>
  A session of the machine for the witnesses: a client has connected and configured, and the main
  thread has come to where the render thread runs.
\<close>

definition demo_configured :: "(unit, u8 list) server" where
  "demo_configured = demo_server\<lparr>sv_g := demo_globals\<lparr>g_configReady := True\<rparr>\<rparr>"

lemma demo_prepare:
  assumes "sv_renderer s = idle_renderer" and "sv_prepare demo_opus demo_env 48000 2 0 20 s = (ready, s')"
  shows "ready" and "r_running (sv_renderer s')" and "r_pRenderClient (sv_renderer s') \<noteq> None"
    and "r_bufferFrames (sv_renderer s') = 480" and "r_channels (sv_renderer s') = 2"
proof -
  have com: "session_com demo_env s = demo_com" by (simp add: session_com_def demo_env_def)
  have dec: "decoder_ready demo_opus 48000 2 0 20 s" by (simp add: decoder_ready_def protocol_consts)
  have "com_ok demo_com" by (simp add: com_ok_def demo_com_def FAILED_def)
  then show ready using sv_prepare_cases(1) [OF assms(2)] com dec by simp
  then obtain r1 cw where i: "r_init demo_com 48000 2 (sv_renderer s, sv_com s) = (True, r1, cw)"
      "sv_renderer s' = snd (r_start demo_com r1)"
    using sv_prepare_cases(2) [OF assms(2)] com dec by auto
  note ok = r_init_ok [OF i(1)] and th = r_init_thread [OF i(1)]
  show "r_running (sv_renderer s')" "r_pRenderClient (sv_renderer s') \<noteq> None"
    "r_bufferFrames (sv_renderer s') = 480" "r_channels (sv_renderer s') = 2"
    using ok th assms(1) by (simp_all add: i(2) r_start_def demo_com_def FAILED_def)
qed

lemma demo_running_reach:
  assumes udp: "c_transport opt = Udp" and s0: "sv_renderer s0 = idle_renderer" "\<not> sv_initialized s0"
    "g_running (sv_g s0)" "sv_w s0 = [1, 1, 2, 0, 20, 32]"
  obtains s where "sys_reach opt demo_opus demo_env drip_os [0] (sys_init s0)
      \<lparr>y_main = M_Session 0, y_tcp = T_Heartbeat 7, y_sv = s, y_fault = None\<rparr>"
    and "r_running (sv_renderer s)" and "r_pRenderClient (sv_renderer s) \<noteq> None"
    and "r_bufferFrames (sv_renderer s) = 480" and "r_channels (sv_renderer s) = 2"
proof -
  let ?R = "sys_step opt demo_opus demo_env drip_os [0]"
  let ?reach = "sys_reach opt demo_opus demo_env drip_os [0] (sys_init s0)"
  let ?y = "\<lambda>pc t s. \<lparr>y_main = pc, y_tcp = t, y_sv = s, y_fault = None\<rparr>"
  have r: "recvAll drip_os 7 [] 6 [1, 1, 2, 0, 20, 32] = (True, [1, 1, 2, 0, 20, 32], [])"
  proof -
    have "fst (recvAll drip_os 7 [] 6 [1, 1, 2, 0, 20, 32])"
      and "snd (recvAll drip_os 7 [] 6 [1, 1, 2, 0, 20, 32]) = ([1, 1, 2, 0, 20, 32], [])" by code_simp+
    then show ?thesis by (simp add: prod_eq_iff)
  qed
  have c: "config_supported (config_of_bytes [1, 1, 2, 0, 20, 32])" by code_simp
  define g1 where "g1 = (sv_g s0)\<lparr>g_tcpClient := 7\<rparr>"
  define g2 where "g2 = net (Sent 7 [0]) (store_config (config_of_bytes [1, 1, 2, 0, 20, 32]) g1)"
  define s1 where "s1 = s0\<lparr>sv_g := g1\<rparr>"
  define s2 where "s2 = s1\<lparr>sv_g := g2, sv_w := []\<rparr>"
  have g2: "g_running g2" "g_configReady g2" "g_sampleRate g2 = 48000" "g_channels g2 = 2" "g_codec g2 = 0" "g_frameMs g2 = 20"
    by (simp_all add: g2_def g1_def net_def store_config_def config_of_bytes_def getSampleRate_def s0(3))
  obtain ready s3 where p: "sv_prepare demo_opus demo_env 48000 2 0 20 s2 = (ready, s3)" by fastforce
  have "sv_renderer s2 = idle_renderer" by (simp add: s2_def s1_def s0)
  note P = demo_prepare [OF this p]
  have "tcp_step drip_os [0] (T_Accept, sv_g s0, sv_w s0) = (T_Config 7, g1, sv_w s0)"
    by (simp add: s0(3) drip_os_def tcp_accept_def INVALID_SOCKET_def g1_def)
  from tcp_sys_step [OF udp this]
  have a: "?R (?y M_Top T_Accept s0) (?y M_Top (T_Config 7) s1)" by (simp add: s1_def)
  have "tcp_step drip_os [0] (T_Config 7, sv_g s1, sv_w s1) = (T_Heartbeat 7, g2, [])"
    using r c by (simp add: s1_def s0(4) sizeof_TcpConfigPacket_def tcp_config_def Let_def g2_def)
  from tcp_sys_step [OF udp this]
  have b: "?R (?y M_Top (T_Config 7) s1) (?y M_Top (T_Heartbeat 7) s2)" by (simp add: s2_def)
  have d: "?R (?y M_Top (T_Heartbeat 7) s2) (?y M_Config (T_Heartbeat 7) s2)"
    by (rule main_sys_step) (simp add: s2_def g2(1) sv_poll_def udp)
  have e: "?R (?y M_Config (T_Heartbeat 7) s2) (?y (M_Apply True 48000 2 0 20) (T_Heartbeat 7) s2)"
    by (rule main_sys_step) (simp add: s2_def g2 Let_def)
  have "\<not> sv_initialized s2" by (simp add: s2_def s1_def s0)
  then have f: "?R (?y (M_Apply True 48000 2 0 20) (T_Heartbeat 7) s2) (?y (M_Session 0) (T_Heartbeat 7) s3)"
    using p P(1) by (intro main_sys_step) simp
  have "?reach (?y M_Top T_Accept s0)"
    using sys_reach.start [of opt demo_opus demo_env drip_os "[0]" "sys_init s0"]
    by (simp add: sys_init_def)
  then have "?reach (?y (M_Session 0) (T_Heartbeat 7) s3)"
    using a b d e f by (meson sys_reach.step)
  then show thesis using P(2-5) by (rule that)
qed

theorem server_memory_safe_witness:
  "\<exists>y rb. sys_reach demo_options demo_opus demo_env drip_os [0] (sys_init demo_server) y \<and>
    y_main y = M_Session 0 \<and> r_running (sv_renderer (y_sv y)) \<and> rx_ring (sv_rx (y_sv y)) = Some rb \<and>
    render_turn (env_exp demo_env) 0 (Some (replicate 960 0)) (sv_renderer (y_sv y), rb) \<noteq> None \<and>
    render_turn (env_exp demo_env) 0 None (sv_renderer (y_sv y), rb) = None"
proof -
  obtain s where s: "sys_reach demo_options demo_opus demo_env drip_os [0] (sys_init demo_server)
      \<lparr>y_main = M_Session 0, y_tcp = T_Heartbeat 7, y_sv = s, y_fault = None\<rparr>"
    "r_running (sv_renderer s)" "r_pRenderClient (sv_renderer s) \<noteq> None"
    "r_bufferFrames (sv_renderer s) = 480" "r_channels (sv_renderer s) = 2"
    by (rule demo_running_reach [of demo_options demo_server])
      (simp_all add: demo_options_def demo_server_def demo_globals_def)
  have "\<exists>rb. rx_ring (sv_rx s) = Some rb \<and> rb_inv rb \<and>
      (\<forall>padding pData. render_turn (env_exp demo_env) padding pData (sv_renderer s, rb) = None \<longleftrightarrow>
        turn_faults padding pData (sv_renderer s))"
    using server_memory_safe [OF demo_dll_config_ok demo_env_exp_ok demo_server_booted s(1)] s(2) by simp
  then obtain rb where rb: "rx_ring (sv_rx s) = Some rb"
    "\<forall>padding pData. render_turn (env_exp demo_env) padding pData (sv_renderer s, rb) = None \<longleftrightarrow>
      turn_faults padding pData (sv_renderer s)" by blast
  have "\<not> turn_faults 0 (Some (replicate 960 0)) (sv_renderer s)" "turn_faults 0 None (sv_renderer s)"
    using s(3-5) by (simp_all add: turn_faults_def)
  then have "render_turn (env_exp demo_env) 0 (Some (replicate 960 0)) (sv_renderer s, rb) \<noteq> None \<and>
      render_turn (env_exp demo_env) 0 None (sv_renderer s, rb) = None" unfolding rb(2) [rule_format] by blast
  then show ?thesis using s(1,2) rb(1)
    by (intro exI [of _ "\<lparr>y_main = M_Session 0, y_tcp = T_Heartbeat 7, y_sv = s, y_fault = None\<rparr>"] exI [of _ rb])
      (simp only: sys.select_convs simp_thms)
qed

text \<open>
  C20: One turn of the main loop keeps channel alignment, provided that the packet it handles, if any,
  is whole frames, which the code does not check: if the session is PCM, its payload must be a whole
  number of frames of the session's channels. Then the samples in the ring buffer, those waiting in the sorting
  area and those the decoder will produce remain whole frames of the session's channels,
  through session starts and stops and in all three receive modes.
\<close>

theorem main_loop_keeps_alignment:
  assumes "dll_config_ok (env_dll E)" and "sv_inv True s"
    and "media_framed True opt E (sv_configure opt L E (sv_poll opt E s))"
  shows "sv_inv True (main_iter opt L E s)"
  using assms by (rule main_iter_inv)

text \<open>A turn that starts a stereo session and handles a packet of one frame.\<close>

lemma demo_start:
  "start_ok demo_options demo_env 48000 2 0 20 demo_opus demo_configured
    (sv_configure demo_options demo_opus demo_env demo_configured)"
proof -
  have com: "com_ok (session_com demo_env demo_configured)"
    by (simp add: session_com_def demo_env_def com_ok_def demo_com_def FAILED_def)
  have dec: "decoder_ready demo_opus 48000 2 0 20 demo_configured" by (simp add: decoder_ready_def protocol_consts)
  have "\<not> sv_initialized demo_configured" by (simp add: demo_configured_def demo_server_def)
  moreover have "sv_configure demo_options demo_opus demo_env demo_configured =
      sv_start demo_options demo_opus demo_env 48000 2 0 20 demo_configured"
    by (simp add: sv_configure_def demo_configured_def demo_server_def demo_globals_def Let_def)
  ultimately show ?thesis
    using sv_start_result [of demo_configured demo_opus 48000 2 0 20 demo_env demo_options] com dec by simp
qed

theorem main_loop_keeps_alignment_witness:
  "sv_inv True (main_iter demo_options demo_opus demo_env demo_configured) \<and>
    sv_initialized (main_iter demo_options demo_opus demo_env demo_configured) \<and>
    main_iter demo_options demo_opus demo_env demo_configured =
      sv_packet demo_options demo_opus demo_env 0 [1, 0, 2, 0]
        (sv_configure demo_options demo_opus demo_env demo_configured)"
proof -
  let ?s1 = "sv_configure demo_options demo_opus demo_env demo_configured"
  have poll: "sv_poll demo_options demo_env demo_configured = demo_configured"
    by (simp add: sv_poll_def demo_options_def)
  have udp: "c_transport demo_options = Udp" "\<not> c_discardOutOfOrder demo_options" by (simp_all add: demo_options_def)
  have on: "sv_initialized ?s1" "r_channels (sv_renderer ?s1) = 2" "rx_codec (sv_rx ?s1) = 0"
    "rx_fresh (sv_rx ?s1)" "g_udpSocket (sv_g ?s1) = 5"
    using demo_start by (simp_all add: start_ok_def demo_configured_def demo_server_def demo_globals_def)
  have media: "sv_media demo_options demo_env ?s1 = (Some (0, [1, 0, 2, 0]), ?s1)"
    using udp on(5) by (simp add: sv_media_def demo_env_def INVALID_SOCKET_def Let_def)
  have "payload_framed 2 0 [1, 0, 2, 0]" by (simp add: payload_framed_def)
  then have framed: "media_framed True demo_options demo_env
      (sv_configure demo_options demo_opus demo_env (sv_poll demo_options demo_env demo_configured))"
    using on(2,3) by (simp add: poll media_framed_def media session_frame_def)
  have "sv_inv True demo_configured"
    by (simp add: sv_inv_def demo_configured_def demo_server_def config_ok_def demo_globals_def protocol_consts)
      (simp add: idle_renderer_def speed_limits_ok_def demo_rx_def)
  note main_loop_keeps_alignment [OF demo_dll_config_ok this framed]
  moreover have iter: "main_iter demo_options demo_opus demo_env demo_configured =
      sv_packet demo_options demo_opus demo_env 0 [1, 0, 2, 0] ?s1"
    using on(1) by (simp add: main_iter_def poll media Let_def)
  ultimately show ?thesis using on(1) by simp
qed

text \<open>
  C29: The session follows the shared configuration. When a configuration is ready and no
  session runs, the loop starts one if and only if the decoder is ready (Opus) and every call that
  \<open>init\<close> checks succeeds. A start has exactly the negotiated parameters: ring
  buffer, decoder and renderer set up, reordering state and time stamps fresh, the render thread
  running unless \<open>IAudioClient::Start\<close> failed. A failed one leaves no ring buffer and no decoder and
  drops the client, over its transport, but keeps the COM objects that a failed \<open>init\<close> has
  acquired. When the configuration is gone, the session is torn down completely, with
  every COM object released. Otherwise nothing changes.
\<close>

theorem session_follows_config:
  "(g_configReady (sv_g s) \<and> \<not> sv_initialized s \<longrightarrow>
      (if decoder_ready L (g_sampleRate (sv_g s)) (g_channels (sv_g s)) (g_codec (sv_g s)) (g_frameMs (sv_g s)) s \<and>
         com_ok (session_com E s)
       then start_ok opt E (g_sampleRate (sv_g s)) (g_channels (sv_g s)) (g_codec (sv_g s)) (g_frameMs (sv_g s)) L s
         (sv_configure opt L E s)
       else start_failed opt E (g_sampleRate (sv_g s)) (g_channels (sv_g s)) (g_codec (sv_g s)) (g_frameMs (sv_g s)) L s
         (sv_configure opt L E s))) \<and>
   (\<not> g_configReady (sv_g s) \<and> sv_initialized s \<longrightarrow>
      \<not> sv_initialized (sv_configure opt L E s) \<and> rx_ring (sv_rx (sv_configure opt L E s)) = None \<and>
      rt_decoder (rx_opus (sv_rx (sv_configure opt L E s))) = None \<and>
      r_refs (sv_renderer (sv_configure opt L E s)) = [] \<and> \<not> r_running (sv_renderer (sv_configure opt L E s)) \<and>
      cw_live (sv_com (sv_configure opt L E s)) =
        filter (\<lambda>i. i \<notin> set (r_refs (sv_renderer s))) (cw_live (sv_com s))) \<and>
   (g_configReady (sv_g s) = sv_initialized s \<longrightarrow> sv_configure opt L E s = s)"
proof (intro conjI impI)
  assume go: "g_configReady (sv_g s) \<and> \<not> sv_initialized s"
  then have "\<not> sv_initialized s" by simp
  note sv_start_result [OF this, of L "g_sampleRate (sv_g s)" "g_channels (sv_g s)" "g_codec (sv_g s)"
      "g_frameMs (sv_g s)" E opt]
  then show "if decoder_ready L (g_sampleRate (sv_g s)) (g_channels (sv_g s)) (g_codec (sv_g s)) (g_frameMs (sv_g s)) s \<and>
         com_ok (session_com E s)
       then start_ok opt E (g_sampleRate (sv_g s)) (g_channels (sv_g s)) (g_codec (sv_g s)) (g_frameMs (sv_g s)) L s
         (sv_configure opt L E s)
       else start_failed opt E (g_sampleRate (sv_g s)) (g_channels (sv_g s)) (g_codec (sv_g s)) (g_frameMs (sv_g s)) L s
         (sv_configure opt L E s)"
    using go by (simp add: sv_configure_def Let_def)
next
  assume gone: "\<not> g_configReady (sv_g s) \<and> sv_initialized s"
  obtain r cw where st: "r_stop (sv_renderer s, sv_com s) = (r, cw)" by fastforce
  note idle = r_stop_idle [OF st] and rel = r_stop_releases(1) [OF st]
  show "\<not> sv_initialized (sv_configure opt L E s)" "rx_ring (sv_rx (sv_configure opt L E s)) = None"
    "rt_decoder (rx_opus (sv_rx (sv_configure opt L E s))) = None"
    "r_refs (sv_renderer (sv_configure opt L E s)) = []" "\<not> r_running (sv_renderer (sv_configure opt L E s))"
    "cw_live (sv_com (sv_configure opt L E s)) = filter (\<lambda>i. i \<notin> set (r_refs (sv_renderer s))) (cw_live (sv_com s))"
    using gone idle rel by (simp_all add: sv_configure_def sv_stop_def opus_reset_def Let_def st)
next
  assume "g_configReady (sv_g s) = sv_initialized s"
  then show "sv_configure opt L E s = s" by (auto simp: sv_configure_def Let_def)
qed

theorem session_follows_config_witness:
  "sv_initialized (sv_configure demo_options demo_opus demo_env demo_configured) \<and>
    r_running (sv_renderer (sv_configure demo_options demo_opus demo_env demo_configured)) \<and>
    \<not> sv_initialized (sv_configure demo_options demo_opus
        (demo_env\<lparr>env_com := \<lambda>w. (demo_com\<lparr>co_activate := 0x88890004\<rparr>, w)\<rparr>) demo_configured) \<and>
    g_tcpClient (sv_g (sv_configure demo_options demo_opus
        (demo_env\<lparr>env_com := \<lambda>w. (demo_com\<lparr>co_activate := 0x88890004\<rparr>, w)\<rparr>) demo_configured)) = INVALID_SOCKET \<and>
    sv_configure demo_options demo_opus demo_env demo_server = demo_server"
proof -
  let ?E = "demo_env\<lparr>env_com := \<lambda>w. (demo_com\<lparr>co_activate := 0x88890004\<rparr>, w)\<rparr>"
  have g: "g_configReady (sv_g demo_configured) \<and> \<not> sv_initialized demo_configured" "g_sampleRate (sv_g demo_configured) = 48000"
    "g_channels (sv_g demo_configured) = 2" "g_codec (sv_g demo_configured) = 0" "g_frameMs (sv_g demo_configured) = 20"
    by (simp_all add: demo_configured_def demo_server_def demo_globals_def)
  have dec: "decoder_ready demo_opus 48000 2 0 20 demo_configured" by (simp add: decoder_ready_def protocol_consts)
  have com: "com_ok (session_com demo_env demo_configured)" "\<not> com_ok (session_com ?E demo_configured)"
    "\<not> FAILED (co_start (session_com demo_env demo_configured))"
    by (simp_all add: session_com_def demo_env_def com_ok_def demo_com_def FAILED_def)
  have "start_ok demo_options demo_env 48000 2 0 20 demo_opus demo_configured
      (sv_configure demo_options demo_opus demo_env demo_configured)"
    using session_follows_config [of demo_configured demo_opus demo_env demo_options] g dec com(1) by simp
  moreover have "start_failed demo_options ?E 48000 2 0 20 demo_opus demo_configured
      (sv_configure demo_options demo_opus ?E demo_configured)"
    using session_follows_config [of demo_configured demo_opus ?E demo_options] g com(2) by simp
  moreover have "sv_configure demo_options demo_opus demo_env demo_server = demo_server"
    using session_follows_config [of demo_server demo_opus demo_env demo_options]
    by (simp add: demo_server_def demo_globals_def)
  ultimately show ?thesis using com(3)
    by (simp add: start_ok_def start_failed_def demo_options_def closeTcpClient_def net_def Let_def)
qed

text \<open>
  The phases that the interleaving model steps through are the loop of the code: from
  the top of the loop, with the process running, at most six steps of the main thread
  amount to exactly one turn of \<open>main_iter\<close> and lead back to the top.
\<close>

lemma main_steps_configure:
  assumes "g_running (sv_g s)" and s1_def: "s1 = sv_configure opt L E (sv_poll opt E s)"
  shows "\<exists>n\<in>{3, 4}. (main_step opt L E ^^ n) (M_Top, s) = (if sv_initialized s1 then M_Media else M_Idle, s1)"
proof -
  let ?s0 = "sv_poll opt E s" let ?g = "sv_g ?s0"
  let ?apply = "M_Apply (g_configReady ?g) (g_sampleRate ?g) (g_channels ?g) (g_codec ?g) (g_frameMs ?g)"
  have two: "(main_step opt L E ^^ 2) (M_Top, s) = (?apply, ?s0)"
    using assms(1) by (simp add: numeral_2_eq_2 Let_def)
  have more: "(main_step opt L E ^^ 3) (M_Top, s) = main_step opt L E (?apply, ?s0)"
    "(main_step opt L E ^^ 4) (M_Top, s) = main_step opt L E (main_step opt L E (?apply, ?s0))"
    using two by (simp_all add: eval_nat_numeral)
  show ?thesis
  proof (cases "g_configReady ?g \<and> \<not> sv_initialized ?s0")
    case True
    obtain ready s' where p: "sv_prepare L E (g_sampleRate ?g) (g_channels ?g) (g_codec ?g) (g_frameMs ?g) ?s0 = (ready, s')"
      by fastforce
    have "s1 = sv_start opt L E (g_sampleRate ?g) (g_channels ?g) (g_codec ?g) (g_frameMs ?g) ?s0"
      using True by (simp add: s1_def sv_configure_def Let_def)
    then have "s1 = (if ready then sv_session opt (g_codec ?g) s' else sv_disconnect opt (sv_discard s'))"
      by (simp add: sv_start_def p)
    moreover have "sv_initialized (sv_session opt (g_codec ?g) s')" by (simp add: sv_session_def)
    moreover have "\<not> ready \<Longrightarrow> \<not> sv_initialized (sv_discard s')"
      using True sv_prepare_cases(2) [OF p] by (auto simp: sv_discard_def)
    ultimately have "(main_step opt L E ^^ 4) (M_Top, s) = (if sv_initialized s1 then M_Media else M_Idle, s1)"
      unfolding more using True p by (cases ready) simp_all
    then show ?thesis by blast
  next
    case False
    have "\<not> sv_initialized (sv_stop ?s0)" by (simp add: sv_stop_def split: prod.split)
    then have "(main_step opt L E ^^ 3) (M_Top, s) = (if sv_initialized s1 then M_Media else M_Idle, s1)"
      unfolding more using False by (auto simp: s1_def sv_configure_def Let_def)
    then show ?thesis by blast
  qed
qed

theorem main_steps_are_one_turn:
  assumes "g_running (sv_g s)"
  shows "\<exists>n\<in>{4, 5, 6}. (main_step opt L E ^^ n) (M_Top, s) = (M_Top, main_iter opt L E s)"
proof -
  let ?s1 = "sv_configure opt L E (sv_poll opt E s)"
  obtain n where n: "n \<in> {3, 4}" "(main_step opt L E ^^ n) (M_Top, s) = (if sv_initialized ?s1 then M_Media else M_Idle, ?s1)"
    using main_steps_configure [OF assms refl, of opt L E] by blast
  have more: "(main_step opt L E ^^ Suc n) (M_Top, s) = main_step opt L E (if sv_initialized ?s1 then M_Media else M_Idle, ?s1)"
    "(main_step opt L E ^^ Suc (Suc n)) (M_Top, s) =
      main_step opt L E (main_step opt L E (if sv_initialized ?s1 then M_Media else M_Idle, ?s1))"
    using n(2) by simp_all
  have "(main_step opt L E ^^ Suc n) (M_Top, s) = (M_Top, main_iter opt L E s) \<or>
      (main_step opt L E ^^ Suc (Suc n)) (M_Top, s) = (M_Top, main_iter opt L E s)"
    unfolding more by (auto simp: main_iter_def Let_def split: option.split prod.split)
  moreover have "Suc n \<in> {4, 5, 6}" "Suc (Suc n) \<in> {4, 5, 6}" using n(1) by auto
  ultimately show ?thesis by blast
qed

theorem main_steps_are_one_turn_witness:
  "\<exists>n\<in>{4, 5, 6}. (main_step demo_options demo_opus demo_env ^^ n) (M_Top, demo_server) =
    (M_Top, main_iter demo_options demo_opus demo_env demo_server)"
  by (rule main_steps_are_one_turn) (simp add: demo_server_def demo_globals_def)

text \<open>
  What a packet publishes to the TCP thread in UDP mode: the expected number of the
  receiver after the packet, and the arrival time of this number, which a duplicate within
  300 ms does not change; no other number's time and nothing else is touched.
\<close>

theorem packet_publishes:
  assumes "c_transport opt = Udp"
  shows "let g = sv_g s; g' = sv_g (sv_packet opt L E q audio s); now = env_now E (sv_w s) in
    g_expectedSeq g' = rx_expected (sv_dispatch opt L q audio (sv_rx s)) \<and>
    g_seqTimestamps g' q =
      (if g_seqTimestamps g q \<noteq> 0 \<and> now - g_seqTimestamps g q \<le> 300 then g_seqTimestamps g q else now) \<and>
    (\<forall>p. p \<noteq> q \<longrightarrow> g_seqTimestamps g' p = g_seqTimestamps g p) \<and>
    g' = g\<lparr>g_expectedSeq := g_expectedSeq g', g_seqTimestamps := g_seqTimestamps g'\<rparr>"
  using assms by (auto simp: sv_packet_def with_g_def stamp_def Let_def dest: leD)

theorem packet_publishes_witness:
  "g_seqTimestamps (sv_g (sv_packet demo_options demo_opus demo_env 3 [] demo_server)) 4 = 1004"
proof -
  have "c_transport demo_options = Udp" by (simp add: demo_options_def)
  from packet_publishes [OF this, where L = demo_opus and E = demo_env and q = 3 and audio = "[]" and s = demo_server]
  have "g_seqTimestamps (sv_g (sv_packet demo_options demo_opus demo_env 3 [] demo_server)) 4 =
      g_seqTimestamps (sv_g demo_server) 4" by (simp add: Let_def)
  then show ?thesis by (simp add: demo_server_def demo_globals_def)
qed

text \<open>
  C38: Opus at 44100 Hz is accepted by the handshake but can never play. libopus documents
  that a decoder can only be created for 8, 12, 16, 24 and 48 kHz; so after the server has
  acknowledged such a configuration, every attempt of the main loop to start the session
  fails, and the client is dropped.
\<close>

definition opus_documented_rates :: "'d opus_lib \<Rightarrow> bool" where
  "opus_documented_rates L \<longleftrightarrow>
     (\<forall>sr ch. sr \<notin> {8000, 12000, 16000, 24000, 48000} \<longrightarrow> snd (opus_create L sr ch) < 0)"

theorem opus_44100_never_plays:
  assumes "opus_documented_rates L" and "cfg_version c = 1" and "cfg_sampleRateIdx c = 0"
    and "cfg_channels c \<in> {1, 2}" and "cfg_codec c = 1" and "cfg_frameMs c \<in> {10, 20, 40}"
    and "\<not> sv_initialized s" and "sv_g s = store_config c g" and "c_transport opt = Udp"
  shows "config_supported c \<and> \<not> sv_initialized (sv_configure opt L E s) \<and>
    rx_ring (sv_rx (sv_configure opt L E s)) = None \<and>
    g_tcpClient (sv_g (sv_configure opt L E s)) = INVALID_SOCKET"
proof -
  have rate: "getSampleRate 0 = 44100" by (simp add: getSampleRate_def)
  have init: "opus_init L 44100 (cfg_channels c) (cfg_frameMs c) rt =
      (False, opus_reset rt)" for rt
  proof -
    obtain dec err where c: "opus_create L 44100 (uint (cfg_channels c)) = (dec, err)" by fastforce
    have "(44100 :: int) \<notin> {8000, 12000, 16000, 24000, 48000}" by simp
    then have "snd (opus_create L 44100 (uint (cfg_channels c))) < 0"
      using assms(1) unfolding opus_documented_rates_def by blast
    then show ?thesis using c by (simp add: opus_init_def opus_reset_def Let_def)
  qed
  have "config_supported c" using assms(2-6) by (simp add: config_supported_iff)
  moreover have "sv_configure opt L E s = sv_start opt L E 44100 (cfg_channels c) 1 (cfg_frameMs c) s"
    using assms(3,5,7,8) rate by (simp add: sv_configure_def store_config_def Let_def)
  ultimately show ?thesis
    using assms(7,9) init
    by (simp add: sv_start_def sv_prepare_def sv_discard_def Let_def protocol_consts sv_disconnect_def with_g_def
        closeTcpClient_def net_def)
qed

definition strict_opus :: "unit opus_lib" where
  "strict_opus = demo_opus\<lparr>opus_create := (\<lambda>sr ch.
     if sr \<in> {8000, 12000, 16000, 24000, 48000} then (Some (), 0) else (None, -1))\<rparr>"

theorem opus_44100_never_plays_witness:
  "\<not> sv_initialized (sv_configure demo_options strict_opus demo_env
    (demo_server\<lparr>sv_g := store_config (config_of_bytes [1, 0, 2, 1, 20, 32]) demo_globals\<rparr>))"
proof -
  have "opus_documented_rates strict_opus" by (simp add: opus_documented_rates_def strict_opus_def)
  then show ?thesis
    using opus_44100_never_plays [of strict_opus "config_of_bytes [1, 0, 2, 1, 20, 32]"
        "demo_server\<lparr>sv_g := store_config (config_of_bytes [1, 0, 2, 1, 20, 32]) demo_globals\<rparr>"
        demo_globals demo_options demo_env]
    by (simp add: config_of_bytes_def demo_server_def demo_options_def)
qed

lemma five_steps: "R a b \<Longrightarrow> R b c \<Longrightarrow> R c d \<Longrightarrow> R d e \<Longrightarrow> R e f \<Longrightarrow> R\<^sup>*\<^sup>* a f"
  by (blast intro: converse_rtranclp_into_rtranclp)

text \<open>The five turns of the handler from the end of one client to the configuration of the next.\<close>

lemma tcp_reconnect:
  assumes udp: "c_transport opt = Udp" and run: "g_running (sv_g s)"
    and acc: "os_accept os (sv_w s) = (c', w1)" "c' \<noteq> INVALID_SOCKET"
    and conf: "recvAll os c' [] 6 w1 = (True, bytes, w2)" "config_supported (config_of_bytes bytes)"
  shows "\<exists>s'. (sys_step opt L E os stack)\<^sup>*\<^sup>* \<lparr>y_main = pc, y_tcp = T_Clear c, y_sv = s, y_fault = None\<rparr>
      \<lparr>y_main = pc, y_tcp = T_Heartbeat c', y_sv = s', y_fault = None\<rparr> \<and>
    s' = s\<lparr>sv_g := sv_g s', sv_w := w2\<rparr> \<and> g_configReady (sv_g s') \<and> g_running (sv_g s') \<and>
    g_udpSocket (sv_g s') = INVALID_SOCKET \<and>
    g_sampleRate (sv_g s') = getSampleRate (cfg_sampleRateIdx (config_of_bytes bytes))"
proof -
  define gA where "gA = clearActiveConfig (sv_g s)"
  define gB where "gB = tcp_close_udp gA"
  define gC where "gC = tcp_close_client c gB"
  define gD where "gD = gC\<lparr>g_tcpClient := c'\<rparr>"
  define gE where "gE = net (Sent c' [0]) (store_config (config_of_bytes bytes) gD)"
  let ?y = "\<lambda>t g w. \<lparr>y_main = pc, y_tcp = t, y_sv = s\<lparr>sv_g := g, sv_w := w\<rparr>, y_fault = None\<rparr>"
  let ?R = "sys_step opt L E os stack"
  have running: "g_running gB" "g_running gC"
    using run by (simp_all add: gA_def gB_def gC_def clearActiveConfig_def tcp_close_udp_def tcp_close_client_def
        net_def Let_def)
  have closed: "g_udpSocket gB = INVALID_SOCKET" by (simp add: gB_def tcp_close_udp_def net_def Let_def)
  have s1: "?R \<lparr>y_main = pc, y_tcp = T_Clear c, y_sv = s, y_fault = None\<rparr> (?y (T_CloseUdp c) gA (sv_w s))"
    by (intro tcp_sys_step udp) (simp add: gA_def)
  have s2: "?R (?y (T_CloseUdp c) gA (sv_w s)) (?y (T_CloseClient c) gB (sv_w s))"
    using tcp_sys_step [OF udp, of os stack "T_CloseUdp c" "s\<lparr>sv_g := gA\<rparr>" "T_CloseClient c" gB "sv_w s" L E pc]
    by (simp add: gB_def)
  have s3: "?R (?y (T_CloseClient c) gB (sv_w s)) (?y T_Accept gC (sv_w s))"
    using tcp_sys_step [OF udp, of os stack "T_CloseClient c" "s\<lparr>sv_g := gB\<rparr>" T_Accept gC "sv_w s" L E pc]
    by (simp add: gC_def)
  have s4: "?R (?y T_Accept gC (sv_w s)) (?y (T_Config c') gD w1)"
    using tcp_sys_step [OF udp, of os stack T_Accept "s\<lparr>sv_g := gC\<rparr>" "T_Config c'" gD w1 L E pc] running acc
    by (simp add: gD_def tcp_accept_def)
  have s5: "?R (?y (T_Config c') gD w1) (?y (T_Heartbeat c') gE w2)"
    using tcp_sys_step [OF udp, of os stack "T_Config c'" "s\<lparr>sv_g := gD, sv_w := w1\<rparr>" "T_Heartbeat c'" gE w2 L E pc] conf
    by (simp add: gE_def sizeof_TcpConfigPacket_def tcp_config_def Let_def)
  have "?R\<^sup>*\<^sup>* \<lparr>y_main = pc, y_tcp = T_Clear c, y_sv = s, y_fault = None\<rparr> (?y (T_Heartbeat c') gE w2)"
    by (rule five_steps [of ?R, OF s1 s2 s3 s4 s5])
  moreover have "g_configReady gE" "g_running gE" "g_udpSocket gE = INVALID_SOCKET"
    "g_sampleRate gE = getSampleRate (cfg_sampleRateIdx (config_of_bytes bytes))"
    using running closed
    by (simp_all add: gE_def gD_def gC_def net_def store_config_def tcp_close_client_def)
  ultimately show ?thesis by (intro exI [of _ "s\<lparr>sv_g := gE, sv_w := w2\<rparr>"]) simp
qed

text \<open>
  C19: A client that reconnects at once starves. While the main thread waits for a datagram
  of the old session, the TCP handler can finish with the old client, accept the next one and
  store its configuration; the main thread then finds a configuration ready and a session
  initialised, keeps the old session (decoder, rates and expected number) for the new client,
  and waits on the UDP socket the handler has closed. From then on every turn of its loop
  changes nothing: no packet is received until this client, too, disconnects.
\<close>

theorem reconnect_race:
  assumes "c_transport opt = Udp" and "sv_initialized s" and "g_running (sv_g s)"
    and "os_accept os (sv_w s) = (c', w1)" and "c' \<noteq> INVALID_SOCKET"
    and "recvAll os c' [] 6 w1 = (True, bytes, w2)" and "config_supported (config_of_bytes bytes)"
    and closed: "\<And>w. env_recvfrom E INVALID_SOCKET w = (None, w)"
  shows "\<exists>s'. (sys_step opt L E os stack)\<^sup>*\<^sup>* \<lparr>y_main = M_Media, y_tcp = T_Clear c, y_sv = s, y_fault = None\<rparr>
      \<lparr>y_main = M_Top, y_tcp = T_Heartbeat c', y_sv = s', y_fault = None\<rparr> \<and>
    g_configReady (sv_g s') \<and> g_sampleRate (sv_g s') = getSampleRate (cfg_sampleRateIdx (config_of_bytes bytes)) \<and>
    sv_rx s' = sv_rx s \<and> sv_renderer s' = sv_renderer s \<and>
    (\<forall>n. (main_iter opt L E ^^ n) s' = s')"
proof -
  obtain s' where s': "(sys_step opt L E os stack)\<^sup>*\<^sup>* \<lparr>y_main = M_Media, y_tcp = T_Clear c, y_sv = s, y_fault = None\<rparr>
        \<lparr>y_main = M_Media, y_tcp = T_Heartbeat c', y_sv = s', y_fault = None\<rparr>"
      "s' = s\<lparr>sv_g := sv_g s', sv_w := w2\<rparr>" "g_configReady (sv_g s')" "g_udpSocket (sv_g s') = INVALID_SOCKET"
      "g_sampleRate (sv_g s') = getSampleRate (cfg_sampleRateIdx (config_of_bytes bytes))"
    using tcp_reconnect [OF assms(1,3-7)] by metis
  have same: "sv_rx s' = sv_rx s" "sv_renderer s' = sv_renderer s" "sv_initialized s'"
    using assms(2) by (subst s'(2); simp)+
  have media: "sv_media opt E s' = (None, s')"
    using assms(1) closed s'(4) by (simp add: sv_media_def)
  then have "sys_step opt L E os stack \<lparr>y_main = M_Media, y_tcp = T_Heartbeat c', y_sv = s', y_fault = None\<rparr>
      \<lparr>y_main = M_Top, y_tcp = T_Heartbeat c', y_sv = s', y_fault = None\<rparr>"
    by (intro main_sys_step) simp
  with s'(1) have "(sys_step opt L E os stack)\<^sup>*\<^sup>* \<lparr>y_main = M_Media, y_tcp = T_Clear c, y_sv = s, y_fault = None\<rparr>
      \<lparr>y_main = M_Top, y_tcp = T_Heartbeat c', y_sv = s', y_fault = None\<rparr>" by (rule rtranclp.rtrancl_into_rtrancl)
  moreover have "main_iter opt L E s' = s'"
    using assms(1) same s'(3) media by (simp add: main_iter_def sv_poll_def sv_configure_def Let_def)
  then have "(main_iter opt L E ^^ n) s' = s'" for n by (induction n) simp_all
  ultimately show ?thesis using same s'(3,5) by blast
qed

theorem reconnect_race_witness:
  "\<exists>s'. (sys_step demo_options demo_opus demo_env drip_os [0])\<^sup>*\<^sup>*
      \<lparr>y_main = M_Media, y_tcp = T_Clear 7, y_sv = demo_server\<lparr>sv_initialized := True\<rparr>, y_fault = None\<rparr>
      \<lparr>y_main = M_Top, y_tcp = T_Heartbeat 7, y_sv = s', y_fault = None\<rparr> \<and> g_configReady (sv_g s') \<and>
    (main_iter demo_options demo_opus demo_env ^^ 1000) s' = s'"
proof -
  have "fst (recvAll drip_os 7 [] 6 [1, 1, 2, 0, 20, 32])"
    and "snd (recvAll drip_os 7 [] 6 [1, 1, 2, 0, 20, 32]) = ([1, 1, 2, 0, 20, 32], [])" by code_simp+
  then have r: "recvAll drip_os 7 [] 6 [1, 1, 2, 0, 20, 32] = (True, [1, 1, 2, 0, 20, 32], [])"
    by (simp add: prod_eq_iff)
  have c: "config_supported (config_of_bytes [1, 1, 2, 0, 20, 32])" by code_simp
  show ?thesis
    using reconnect_race [OF _ _ _ _ _ r c, of demo_options "demo_server\<lparr>sv_initialized := True\<rparr>" demo_env demo_opus "[0]" 7]
    by (simp add: demo_options_def demo_server_def demo_globals_def drip_os_def demo_env_def INVALID_SOCKET_def) blast
qed

text \<open>
  When the render thread's timeout drops the client of a UDP session, the client's socket
  is closed twice: once by the callback and again by the handler, which still holds the
  handle and by then may be closing a socket that some other part of the process has opened.
\<close>

theorem timeout_closes_client_twice:
  assumes "c_transport opt = Udp" and "g_tcpClient (sv_g s) = c" and "c \<noteq> INVALID_SOCKET"
    and "g_udpSocket (sv_g s) \<noteq> c"
  shows "count_list (g_log (tcp_close_client c (tcp_close_udp (clearActiveConfig (sv_g (onFatalTimeout opt s))))))
      (Closed c) = count_list (g_log (sv_g s)) (Closed c) + 2"
  using assms
  by (simp add: onFatalTimeout_def sv_disconnect_def with_g_def closeTcpClient_def tcp_close_client_def
      tcp_close_udp_def clearActiveConfig_def net_def Let_def)

theorem timeout_closes_client_twice_witness:
  "count_list (g_log (tcp_close_client 7 (tcp_close_udp (clearActiveConfig
     (sv_g (onFatalTimeout demo_options demo_server)))))) (Closed 7) = 2"
  using timeout_closes_client_twice [of demo_options demo_server 7]
  by (simp add: demo_options_def demo_server_def demo_globals_def INVALID_SOCKET_def)

end
