(* ===== verification/Startup.thy ===== *)
theory Startup
  imports Server
begin

text \<open>
  Everything in \<open>main\<close> before its loop, and \<open>tcpHandler\<close> before its own: the initial state, the
  command line with \<open>atoi\<close> and \<open>atof\<close>, and the setup of the sockets or of the bridge.
\<close>

section \<open>\<open>atoi\<close> and \<open>atof\<close>\<close>

definition is_space :: "char \<Rightarrow> bool" where
  "is_space c \<longleftrightarrow> of_char c = (32 :: nat) \<or> 9 \<le> (of_char c :: nat) \<and> (of_char c :: nat) \<le> 13"

definition tolower :: "char \<Rightarrow> char" where
  "tolower c = (let n = of_char c :: nat in if 65 \<le> n \<and> n \<le> 90 then char_of (n + 32) else c)"

definition digit :: "char \<Rightarrow> nat option" where
  "digit c = (let n = of_char c in if 48 \<le> n \<and> n \<le> 57 then Some (n - 48) else None)"

definition hexdigit :: "char \<Rightarrow> nat option" where
  "hexdigit c = (case digit c of Some d \<Rightarrow> Some d | None \<Rightarrow>
     let n = of_char (tolower c) in if 97 \<le> n \<and> n \<le> 102 then Some (n - 87) else None)"

text \<open>The longest prefix of digits, and what follows it.\<close>

fun digits :: "(char \<Rightarrow> nat option) \<Rightarrow> string \<Rightarrow> nat list \<times> string" where
  "digits d [] = ([], [])"
| "digits d (c # s) =
     (case d c of None \<Rightarrow> ([], c # s) | Some v \<Rightarrow> let (vs, rest) = digits d s in (v # vs, rest))"

definition number :: "nat \<Rightarrow> nat list \<Rightarrow> nat" where
  "number base ds = foldl (\<lambda>a d. a * base + d) 0 ds"

fun signed_rest :: "string \<Rightarrow> bool \<times> string" where
  "signed_rest (c # s) = (if c = CHR ''-'' then (True, s) else if c = CHR ''+'' then (False, s) else (False, c # s))"
| "signed_rest [] = (False, [])"

text \<open>\<open>atoi\<close> of this platform: what does not fit an \<open>int\<close> becomes the nearest \<open>int\<close>.\<close>

definition atoi :: "string \<Rightarrow> int" where
  "atoi s = (let (neg, s1) = signed_rest (dropWhile is_space s);
                 n = int (number 10 (fst (digits digit s1)))
             in max (- (2 ^ 31)) (min (2 ^ 31 - 1) (if neg then - n else n)))"

text \<open>The digits around the point, the number of those after it, and the rest.\<close>

definition mantissa :: "(char \<Rightarrow> nat option) \<Rightarrow> string \<Rightarrow> nat list \<times> nat \<times> string" where
  "mantissa d s =
     (let (ip, s1) = digits d s;
          (fp, s2) = (case s1 of [] \<Rightarrow> ([], [])
                      | c # s' \<Rightarrow> if c = CHR ''.'' then digits d s' else ([], c # s'))
      in (ip @ fp, length fp, s2))"

text \<open>An exponent after its mark; without digits it is no exponent.\<close>

definition exponent :: "char \<Rightarrow> string \<Rightarrow> int" where
  "exponent mark s =
     (case s of [] \<Rightarrow> 0
      | c # s' \<Rightarrow> if tolower c = mark
          then let (neg, s1) = signed_rest s'; e = int (number 10 (fst (digits digit s1))) in if neg then - e else e
          else 0)"

definition hex_float :: "string \<Rightarrow> rat option" where
  "hex_float s =
     (case s of z # x # s' \<Rightarrow>
        (if z = CHR ''0'' \<and> tolower x = CHR ''x''
         then let (ds, places, rest) = mantissa hexdigit s'
              in if ds = [] then None
                 else Some (of_nat (number 16 ds) * 2 powi (exponent CHR ''p'' rest - 4 * int places))
         else None)
      | _ \<Rightarrow> None)"

definition decimal_float :: "string \<Rightarrow> rat" where
  "decimal_float s =
     (let (ds, places, rest) = mantissa digit s
      in if ds = [] then 0 else of_nat (number 10 ds) * 10 powi (exponent CHR ''e'' rest - int places))"

definition atof :: "string \<Rightarrow> double" where
  "atof s =
     (let (neg, s1) = signed_rest (dropWhile is_space s);
          word = map tolower (take 3 s1);
          d = (if word = ''inf'' then PInf else if word = ''nan'' then NaN
               else case hex_float s1 of Some x \<Rightarrow> to_double x | None \<Rightarrow> to_double (decimal_float s1))
      in if neg then dneg d else d)"

section \<open>The command line\<close>

record settings =
  o_options :: options
  o_tcpPort :: u16
  o_udpPort :: u16

definition default_settings :: settings where
  "default_settings = \<lparr>o_options = \<lparr>c_transport = Quic, c_discardOutOfOrder = False, c_dropBaselineMs = 0,
       c_protectMs = 50, c_maxSpeed = Fin (5 / 4)\<rparr>, o_tcpPort = 9000, o_udpPort = 9000\<rparr>"

definition with_options :: "(options \<Rightarrow> options) \<Rightarrow> settings \<Rightarrow> settings" where
  "with_options f st = st\<lparr>o_options := f (o_options st)\<rparr>"

text \<open>
  The loop over \<open>argv\<close>; \<open>None\<close> is \<open>return 1\<close>. An option that needs a value is skipped when it is
  the last argument, and so is everything unknown.
\<close>

fun parse_args :: "string list \<Rightarrow> settings \<Rightarrow> settings option" where
  "parse_args [] st = Some st"
| "parse_args (a # args) st =
     (if a = ''--discard-out-of-order'' then parse_args args (with_options (\<lambda>p. p\<lparr>c_discardOutOfOrder := True\<rparr>) st)
      else case args of
        [] \<Rightarrow> Some st
      | v # rest \<Rightarrow>
          if a = ''--drop-baseline-duration-ms''
          then parse_args rest (with_options (\<lambda>p. p\<lparr>c_dropBaselineMs := of_int (atoi v)\<rparr>) st)
          else if a = ''--protect-ms''
          then parse_args rest (with_options (\<lambda>p. p\<lparr>c_protectMs := of_int (atoi v)\<rparr>) st)
          else if a = ''--max-speed''
          then parse_args rest (with_options (\<lambda>p. p\<lparr>c_maxSpeed := dclamp (atof v) (Fin 1) (Fin 4)\<rparr>) st)
          else if a = ''--tcp'' then parse_args rest (st\<lparr>o_tcpPort := of_int (atoi v)\<rparr>)
          else if a = ''--udp'' then parse_args rest (st\<lparr>o_udpPort := of_int (atoi v)\<rparr>)
          else if a = ''--transport'' then
            (let m = map tolower v in
             if m = ''udp'' then parse_args rest (with_options (\<lambda>p. p\<lparr>c_transport := Udp\<rparr>) st)
             else if m = ''quic'' then parse_args rest (with_options (\<lambda>p. p\<lparr>c_transport := Quic\<rparr>) st)
             else None)
          else parse_args (v # rest) st)"

section \<open>Sockets and the bridge\<close>

text \<open>What \<open>socket\<close> and \<open>bind\<close> return to the two threads.\<close>

record startup_results =
  st_udpSocket :: socket
  st_udpBind :: bool
  st_tcpSocket :: socket
  st_tcpBind :: bool

text \<open>\<open>tcpHandler\<close> up to its loop; \<open>None\<close> is \<open>exit(1)\<close>.\<close>

definition tcp_listen :: "startup_results \<Rightarrow> globals \<Rightarrow> globals option" where
  "tcp_listen S g = (if st_tcpBind S then Some (g\<lparr>g_tcpSocket := st_tcpSocket S\<rparr>) else None)"

definition initial_globals :: globals where
  "initial_globals = \<lparr>g_running = True, g_udpSocket = INVALID_SOCKET, g_tcpSocket = INVALID_SOCKET,
     g_tcpClient = INVALID_SOCKET, g_configReady = False, g_sampleRate = 48000, g_channels = 2,
     g_codec = AUDIO_CODEC_PCM, g_frameMs = 20, g_opusBitrateKbps = 32, g_seqTimestamps = (\<lambda>_. 0),
     g_hbLastEndSeq = 0, g_expectedSeq = 0, g_log = []\<rparr>"

definition initial_rx :: "'d rx" where
  "initial_rx = \<lparr>rx_codec = AUDIO_CODEC_PCM,
     rx_opus = \<lparr>rt_decoder = None, rt_sampleRate = 0, rt_channels = 0, rt_frameSamples = 0\<rparr>,
     rx_ring = None, rx_sorting = (\<lambda>_. None), rx_expected = 0, rx_pcm = [],
     rx_bufferLow = False, rx_nullDeref = False\<rparr>"

definition initial_server :: "'w \<Rightarrow> ('d, 'w) server" where
  "initial_server w = \<lparr>sv_g = initial_globals, sv_rx = initial_rx, sv_initialized = False,
     sv_renderer = idle_renderer, sv_com = \<lparr>cw_next = 0, cw_live = []\<rparr>, sv_quic = q_new, sv_w = w\<rparr>"

text \<open>
  \<open>main\<close> up to its loop: the process exits with a code, dies in the bridge loader, or enters the
  loop with the settings of the command line.
\<close>

datatype 's startup = Exit int | Crash | Loop settings 's

definition main_startup :: "startup_results \<Rightarrow> 'w env \<Rightarrow> string list \<Rightarrow> 'w \<Rightarrow> ('d, 'w) server startup" where
  "main_startup S E args w =
     (case parse_args args default_settings of
        None \<Rightarrow> Exit 1
      | Some st \<Rightarrow>
          let s = initial_server w in
          if c_transport (o_options st) = Udp
          then let s1 = with_g (\<lambda>g. g\<lparr>g_udpSocket := st_udpSocket S\<rparr>) s
               in if st_udpBind S then Loop st s1 else Exit 1
          else case q_start (env_dll E) (o_udpPort st) (sv_quic s, sv_w s) of
            None \<Rightarrow> Crash
          | Some (False, q, w') \<Rightarrow> Exit 1
          | Some (True, q, w') \<Rightarrow> Loop st (s\<lparr>sv_quic := q, sv_w := w'\<rparr>))"

lemma main_startup_booted:
  assumes "main_startup S E args w = Loop st s"
  shows "sv_booted s" and "g_running (sv_g s)" and "q_inv (sv_quic s)"
    and "c_transport (o_options st) = Quic \<longleftrightarrow> q_handle (sv_quic s) \<noteq> None"
    and "parse_args args default_settings = Some st"
proof -
  have clean: "q_inv q_new" "q_handle q_new = None" by (rule q_new_inv) (simp add: q_new_def)
  have "sv_booted s \<and> g_running (sv_g s) \<and> q_inv (sv_quic s) \<and>
    (c_transport (o_options st) = Quic \<longleftrightarrow> q_handle (sv_quic s) \<noteq> None) \<and> parse_args args default_settings = Some st"
  proof (cases "parse_args args default_settings")
    case (Some st')
    show ?thesis
    proof (cases "c_transport (o_options st')")
      case Quic
      obtain q w' where q: "q_start (env_dll E) (o_udpPort st') (q_new, w) = Some (True, q, w')"
        and l: "s = (initial_server w)\<lparr>sv_quic := q, sv_w := w'\<rparr>" "st = st'"
        using assms by (auto simp: main_startup_def Let_def Some Quic initial_server_def split: option.splits bool.splits)
      show ?thesis using q_start_inv [OF clean(1) q] Quic Some
        by (simp add: l sv_booted_def initial_server_def initial_globals_def initial_rx_def)
    next
      case Udp
      then show ?thesis using assms clean Some
        by (auto simp: main_startup_def Let_def with_g_def sv_booted_def initial_server_def initial_globals_def
            initial_rx_def split: if_splits)
    qed
  qed (use assms in \<open>simp add: main_startup_def\<close>)
  then show "sv_booted s" and "g_running (sv_g s)" and "q_inv (sv_quic s)"
    and "c_transport (o_options st) = Quic \<longleftrightarrow> q_handle (sv_quic s) \<noteq> None"
    and "parse_args args default_settings = Some st" by blast+
qed

section \<open>Numbers are read back\<close>

text \<open>A natural number as a user writes it.\<close>

fun decimal :: "nat \<Rightarrow> string" where
  "decimal n = (if n < 10 then [] else decimal (n div 10)) @ [char_of (48 + n mod 10)]"

declare decimal.simps [simp del]

lemma digit_char [simp]: "d < 10 \<Longrightarrow> digit (char_of (48 + d)) = Some d"
  by (simp add: digit_def)

lemma number_snoc [simp]: "number base (ds @ [d]) = number base ds * base + d"
  by (simp add: number_def)

lemma digits_append:
  "list_all (\<lambda>c. d c \<noteq> None) s \<Longrightarrow> digits d s = (ds, []) \<Longrightarrow>
    digits d (s @ t) = (ds @ fst (digits d t), snd (digits d t))"
  by (induction s arbitrary: ds) (auto split: option.splits prod.splits)

lemma decimal_digits:
  "list_all (\<lambda>c. digit c \<noteq> None) (decimal n) \<and>
    (\<exists>ds. digits digit (decimal n) = (ds, []) \<and> number 10 ds = n)"
proof (induction n rule: decimal.induct)
  case (1 n)
  show ?case
  proof (cases "n < 10")
    case True
    then show ?thesis by (simp add: decimal.simps [of n] number_def)
  next
    case False
    then obtain ds where ds: "list_all (\<lambda>c. digit c \<noteq> None) (decimal (n div 10))"
      "digits digit (decimal (n div 10)) = (ds, [])" "number 10 ds = n div 10"
      using 1 by blast
    have "digits digit (decimal n) = (ds @ [n mod 10], [])"
      using False by (simp add: decimal.simps [of n] digits_append [OF ds(1,2)])
    then show ?thesis using ds(1,3) False by (simp add: decimal.simps [of n])
  qed
qed

lemma decimal_first: "\<exists>c s. decimal n = c # s \<and> digit c \<noteq> None"
proof -
  have "decimal n \<noteq> []" by (simp add: decimal.simps [of n])
  then show ?thesis using decimal_digits [of n] by (cases "decimal n") auto
qed

lemma digit_no_sign: "digit c \<noteq> None \<Longrightarrow> \<not> is_space c \<and> c \<noteq> CHR ''-'' \<and> c \<noteq> CHR ''+''"
  by (auto simp: digit_def is_space_def Let_def split: if_splits)

lemma atoi_decimal: "n < 2 ^ 31 \<Longrightarrow> atoi (decimal n) = int n"
proof -
  assume n: "n < 2 ^ 31"
  obtain c s where c: "decimal n = c # s" "digit c \<noteq> None" using decimal_first by blast
  then have "signed_rest (dropWhile is_space (decimal n)) = (False, decimal n)"
    using digit_no_sign [of c] by simp
  moreover obtain ds where "digits digit (decimal n) = (ds, [])" "number 10 ds = n"
    using decimal_digits by blast
  ultimately show ?thesis using n by (simp add: atoi_def)
qed

text \<open>The documented options, and what each is to do.\<close>

datatype setting =
    Discard_Out_Of_Order
  | Drop_Baseline nat
  | Protect nat
  | Max_Speed string
  | Tcp_Port nat
  | Udp_Port nat
  | Transport transport

fun args_of :: "setting \<Rightarrow> string list" where
  "args_of Discard_Out_Of_Order = [''--discard-out-of-order'']"
| "args_of (Drop_Baseline n) = [''--drop-baseline-duration-ms'', decimal n]"
| "args_of (Protect n) = [''--protect-ms'', decimal n]"
| "args_of (Max_Speed v) = [''--max-speed'', v]"
| "args_of (Tcp_Port n) = [''--tcp'', decimal n]"
| "args_of (Udp_Port n) = [''--udp'', decimal n]"
| "args_of (Transport t) = [''--transport'', (case t of Quic \<Rightarrow> ''quic'' | Udp \<Rightarrow> ''udp'')]"

fun apply_setting :: "setting \<Rightarrow> settings \<Rightarrow> settings" where
  "apply_setting Discard_Out_Of_Order st = with_options (\<lambda>p. p\<lparr>c_discardOutOfOrder := True\<rparr>) st"
| "apply_setting (Drop_Baseline n) st = with_options (\<lambda>p. p\<lparr>c_dropBaselineMs := of_nat n\<rparr>) st"
| "apply_setting (Protect n) st = with_options (\<lambda>p. p\<lparr>c_protectMs := of_nat n\<rparr>) st"
| "apply_setting (Max_Speed v) st = with_options (\<lambda>p. p\<lparr>c_maxSpeed := dclamp (atof v) (Fin 1) (Fin 4)\<rparr>) st"
| "apply_setting (Tcp_Port n) st = st\<lparr>o_tcpPort := of_nat (n mod 65536)\<rparr>"
| "apply_setting (Udp_Port n) st = st\<lparr>o_udpPort := of_nat (n mod 65536)\<rparr>"
| "apply_setting (Transport t) st = with_options (\<lambda>p. p\<lparr>c_transport := t\<rparr>) st"

fun setting_ok :: "setting \<Rightarrow> bool" where
  "setting_ok (Drop_Baseline n) = (n < 2 ^ 31)"
| "setting_ok (Protect n) = (n < 2 ^ 31)"
| "setting_ok (Tcp_Port n) = (n < 2 ^ 31)"
| "setting_ok (Udp_Port n) = (n < 2 ^ 31)"
| "setting_ok _ = True"

lemma of_nat_u16: "(of_nat (n mod 65536) :: u16) = of_nat n"
  by (simp add: word_unat_eq_iff unat_of_nat)

lemma parse_setting:
  "setting_ok x \<Longrightarrow> parse_args (args_of x @ args) st = parse_args args (apply_setting x st)"
  by (cases x) (simp_all add: atoi_decimal of_nat_u16 tolower_def split: transport.split)

section \<open>Properties\<close>

text \<open>
  C30: The command line does what it documents. Any sequence of documented options, in any
  order and with repetitions, sets exactly those settings, the last one winning: numbers are
  read back as written, a speed is limited to the range from one to four, and a port is taken
  modulo 65536.
\<close>
theorem command_line_roundtrip:
  assumes "list_all setting_ok xs"
  shows "parse_args (concat (map args_of xs)) st = Some (fold apply_setting xs st)"
  using assms by (induction xs arbitrary: st) (simp_all add: parse_setting)

theorem command_line_roundtrip_witness:
  "\<exists>st. parse_args [''--transport'', ''udp'', ''--tcp'', decimal 70000] default_settings = Some st \<and>
    o_tcpPort st = 4464 \<and> c_transport (o_options st) = Udp"
  using command_line_roundtrip [of "[Transport Udp, Tcp_Port 70000]" default_settings]
  by (simp add: with_options_def default_settings_def)

text \<open>
  C8: Memory safety of the whole program from its start, and its limits: whatever the command line, the sockets,
  the bridge and COM answer, a process that gets as far as its loops has the settings of the
  command line and has started the bridge exactly in QUIC mode. From there on, in every interleaving
  of its threads, nothing is written through a null ring buffer, a ring buffer exists exactly
  while there is a session, and a running render thread has a well-formed one; its turns fail exactly
  when the device has room and there is no render client, no buffer or too short a buffer, and
  only such a turn can have killed the process.
\<close>
theorem program_memory_safe:
  assumes "dll_config_ok (env_dll E)" and "exp_ok (env_exp E)"
    and "main_startup S E args w = Loop st s" and "tcp_listen S (sv_g s) = Some g"
    and "sys_reach (o_options st) L E os stack (sys_init (s\<lparr>sv_g := g\<rparr>)) y"
  shows "parse_args args default_settings = Some st \<and>
    (c_transport (o_options st) = Quic \<longleftrightarrow> q_handle (sv_quic s) \<noteq> None) \<and>
    \<not> rx_nullDeref (sv_rx (y_sv y)) \<and>
    (y_main y \<noteq> M_Done \<longrightarrow> (has_session y \<longleftrightarrow> rx_ring (sv_rx (y_sv y)) \<noteq> None)) \<and>
    (r_running (sv_renderer (y_sv y)) \<longrightarrow> (\<exists>rb. rx_ring (sv_rx (y_sv y)) = Some rb \<and> rb_inv rb \<and>
      render_ready (sv_renderer (y_sv y)) \<and>
      (\<forall>padding pData. render_turn (env_exp E) padding pData (sv_renderer (y_sv y), rb) = None \<longleftrightarrow>
        turn_faults padding pData (sv_renderer (y_sv y))))) \<and>
    (\<forall>padding pData. y_fault y = Some (padding, pData) \<longrightarrow>
      r_running (sv_renderer (y_sv y)) \<and> turn_faults padding pData (sv_renderer (y_sv y)))"
proof -
  note B = main_startup_booted [OF assms(3)]
  have "sv_booted (s\<lparr>sv_g := g\<rparr>)" using B(1) assms(4) by (auto simp: sv_booted_def tcp_listen_def split: if_splits)
  then have inv: "sys_inv y" by (rule sys_reach_inv [OF assms(5,1,2) sv_booted_sys_inv])
  show ?thesis using B(4,5) sys_inv_memory [OF inv assms(2)] by meson
qed

text \<open>The machine of the witnesses, with every socket call succeeding.\<close>

definition demo_startup :: startup_results where
  "demo_startup = \<lparr>st_udpSocket = 5, st_udpBind = True, st_tcpSocket = 6, st_tcpBind = True\<rparr>"

theorem program_memory_safe_witness:
  "\<exists>st s g y rb. main_startup demo_startup demo_env [''--transport'', ''UDP''] [1, 1, 2, 0, 20, 32] = Loop st s \<and>
    tcp_listen demo_startup (sv_g s) = Some g \<and>
    sys_reach (o_options st) demo_opus demo_env drip_os [0] (sys_init (s\<lparr>sv_g := g\<rparr>)) y \<and>
    r_running (sv_renderer (y_sv y)) \<and> rx_ring (sv_rx (y_sv y)) = Some rb \<and> rb_inv rb"
proof -
  let ?st = "with_options (\<lambda>p. p\<lparr>c_transport := Udp\<rparr>) default_settings"
  let ?s = "with_g (\<lambda>g. g\<lparr>g_udpSocket := 5\<rparr>) (initial_server [1, 1, 2, 0, 20, 32]) :: (unit, u8 list) server"
  have "map tolower ''UDP'' = ''udp''" by code_simp
  then have args: "parse_args [''--transport'', ''UDP''] default_settings = Some ?st" by simp
  have start: "main_startup demo_startup demo_env [''--transport'', ''UDP''] [1, 1, 2, 0, 20, 32] = Loop ?st ?s"
    unfolding main_startup_def args by (simp add: with_options_def demo_startup_def Let_def)
  have listen: "tcp_listen demo_startup (sv_g ?s) = Some ((sv_g ?s)\<lparr>g_tcpSocket := 6\<rparr>)"
    by (simp add: tcp_listen_def demo_startup_def)
  obtain s where s: "sys_reach (o_options ?st) demo_opus demo_env drip_os [0]
        (sys_init (?s\<lparr>sv_g := (sv_g ?s)\<lparr>g_tcpSocket := 6\<rparr>\<rparr>))
        \<lparr>y_main = M_Session 0, y_tcp = T_Heartbeat 7, y_sv = s, y_fault = None\<rparr>"
      "r_running (sv_renderer s)"
    by (rule demo_running_reach [of "o_options ?st" "?s\<lparr>sv_g := (sv_g ?s)\<lparr>g_tcpSocket := 6\<rparr>\<rparr>"])
      (simp_all add: with_options_def with_g_def initial_server_def initial_globals_def)
  have "\<exists>rb. rx_ring (sv_rx s) = Some rb \<and> rb_inv rb"
    using program_memory_safe [OF demo_dll_config_ok demo_env_exp_ok start listen s(1)] s(2)
    by (simp only: sys.select_convs) blast
  then show ?thesis using start listen s by fastforce
qed

end
