(* ===== verification/Spec2Isabelle.thy ===== *)
theory Spec2Isabelle
  imports Ring_Concurrent Packet_Queue Startup
begin

text \<open>
  A verification of udp-audio-server, a Windows server that receives audio over UDP or QUIC and
  plays it with low latency. The C++ sources are \<open>main.cpp\<close>, \<open>protocol.h\<close>, \<open>ring_buffer.h\<close>,
  \<open>packet_queue.h\<close>, \<open>opus_decoder.h/.cpp\<close>, \<open>quic_audio_receiver.h/.cpp\<close> and
  \<open>wasapi_renderer.h/.cpp\<close>.

  \<^bold>\<open>The program.\<close> The main thread (\<open>main\<close>) waits for a configuration, starts a rendering session
  (ring buffer, decoder, WASAPI renderer), receives packets, puts them in order, decodes them
  and writes samples into the ring buffer. The render thread reads the ring buffer, plays faster
  when too much has piled up in it, and fades to silence when it runs dry. In UDP mode
  a TCP thread (\<open>tcpHandler\<close>) performs the handshake, answers heartbeats with arrival times that
  the main thread recorded, and ends the session when the client goes. In QUIC mode both the
  configuration and the packets come from a bridge DLL behind \<open>QuicAudioReceiver\<close>.

  \<^bold>\<open>The theories.\<close>
  \<^item> \<open>Prelude\<close>: machine types, \<open>memcpy\<close> and \<open>resize\<close>, big-endian bytes, the circle of 256
    sequence numbers (\<open>ahead\<close>).
  \<^item> \<open>Protocol\<close>: \<open>protocol.h\<close>.
  \<^item> \<open>Fifo\<close>: the locale \<open>bounded_fifo\<close>, the contract between receiver and renderer, with what
    any sequence of operations preserves.
  \<^item> \<open>Ring_Buffer\<close>: \<open>RingBuffer\<close> with its 64-bit counters; the operations refine a list, and
    \<open>bounded_fifo\<close> is interpreted on them.
  \<^item> \<open>Ring_Concurrent\<close>: \<open>write\<close> and \<open>read\<close> cut at their atomic accesses and at every copied
    sample, interleaved; linearity, race freedom, and agreement with \<open>Ring_Buffer\<close>.
  \<^item> \<open>Packet_Queue\<close>: \<open>PacketQueue\<close>.
  \<^item> \<open>Opus_Runtime\<close>: \<open>OpusDecoderRuntime\<close> over an arbitrary libopus (\<open>opus_lib\<close>).
  \<^item> \<open>Receive\<close>: the lambdas \<open>decodeAudioPayload\<close> and \<open>writePcm\<close> of \<open>main\<close> and its three ways to
    treat a sequence number (\<open>rx_quic\<close>, \<open>rx_discard\<close>, \<open>rx_reorder\<close>). The state \<open>rx\<close> holds the
    locals of \<open>main\<close>: \<open>activeCodec\<close>, \<open>opusDecoder\<close>, \<open>ringBuffer\<close>, \<open>sortingArea\<close>, \<open>expectedSeq\<close>,
    \<open>decodedPcm\<close>, and the flag \<open>bufferLow_\<close> of the renderer.
  \<^item> \<open>Jitter_Spec\<close>: the abstract jitter buffer \<open>jb\<close> on unbounded indices: what it plays is
    strictly increasing, and complete under mild reordering.
  \<^item> \<open>Receive_Refine\<close>: \<open>rx_reorder\<close> implements \<open>jb_step\<close>.
  \<^item> \<open>Receive_Modes\<close>: the locales \<open>windowed_receiver\<close> and \<open>linear_receiver\<close>, interpreted on the
    three receivers; channel alignment; the properties of the receive path.
  \<^item> \<open>Tcp_Control\<close>: the globals the threads share, \<open>recvAll\<close>, the handshake, the heartbeat
    reply, and \<open>tcpHandler\<close> as \<open>tcp_step\<close> over program points.
  \<^item> \<open>Quic_Receiver\<close>: \<open>QuicAudioReceiver\<close>, with the legal sequences of calls into the bridge.
  \<^item> \<open>Double\<close>: binary64 numbers as rationals with rounding to nearest, infinities and NaN, and the
    operations of the renderer on them (\<open>std::clamp\<close>, \<open>std::lrint\<close>, \<open>std::ceil\<close>, conversions).
  \<^item> \<open>Renderer_Lifecycle\<close>: \<open>WasapiRenderer::init\<close>, \<open>start\<close>, \<open>stop\<close> and the setters, with the COM
    objects that the renderer owns.
  \<^item> \<open>Renderer_Signal\<close>: \<open>smoothStep\<close>, the fades around a silence, the memory of the last frame.
  \<^item> \<open>Time_Compression\<close>: \<open>findSmoothSkip\<close> and \<open>renderPitchPreserved\<close>, with \<open>cut_cost\<close> and
    \<open>cut_and_fade\<close> as their specifications.
  \<^item> \<open>Render_Thread\<close>: the speed control, a turn (\<open>render_turn\<close>) and the loop (\<open>renderThread\<close>) over
    what the other threads and the device do; \<open>Rendering\<close> holds the properties of playback.
  \<^item> \<open>Server\<close>: the main loop (\<open>main_iter\<close>), the same loop in steps (\<open>main_step\<close>), and
    \<open>sys_step\<close>, the interleaving of all threads, in which the render thread takes whole turns and a
    turn that fails ends the process with \<open>y_fault\<close>.
  \<^item> \<open>Startup\<close>: the initial state, \<open>atoi\<close> and \<open>atof\<close>, the option loop, and the setup of the sockets
    or the bridge; the process from its start.

  \<^bold>\<open>Parameters.\<close> Code that is not in the repository is an argument of the definitions: libopus
  (\<open>opus_lib\<close>), the socket interface and the clock (\<open>os\<close>, \<open>env\<close>), the bridge DLL and its loader
  (\<open>dll\<close>), COM (\<open>com_results\<close>; the padding and the buffers of a device in \<open>wake\<close>), and \<open>std::exp\<close>,
  whose rounding is not specified. Where a property needs their documented behaviour it is a named
  hypothesis: \<open>opus_bounded\<close>, \<open>opus_documented_rates\<close>, \<open>stream_os\<close>, \<open>dll_config_ok\<close>, \<open>exp_ok\<close>
  (the exponential of a number is not NaN), \<open>turn_framed\<close> (\<open>GetBuffer\<close> has room for what was asked,
  and whole frames are written). What the code relies on and does not check is a hypothesis too, and the
  properties say so: whole frames in PCM payloads (\<open>payload_framed\<close>), sequence numbers that stay close enough to be
  told apart (\<open>jb_synced\<close>, \<open>lin_synced\<close>, \<open>hb_advances\<close>), a render client and buffers (\<open>turn_faults\<close>).

  \<^bold>\<open>What the properties show.\<close> The ring buffer is a bounded queue, sequentially and under all
  interleavings of its two threads, without data races. The reordering receiver refines the
  abstract jitter buffer; it plays what was sent in strictly increasing order, and all of it if
  no packet overtakes more than three others. The other receivers play exactly what lies in
  their window. Samples keep their channel alignment from the packet to the ring buffer if PCM payloads
  are whole frames, and only then. The
  handshake reads exactly six bytes however TCP delivers them and accepts exactly the documented
  configurations; heartbeat replies fit their buffer, parse back to what was recorded, and report
  every number once. The bridge is used legally, COM objects are released. No interleaving
  of the threads, from the start of the process, writes through a null ring buffer; a memory error of the
  render thread is characterised exactly: it needs room in the device and a missing render client, a missing
  buffer or too short a one. Otherwise the render
  thread fills every buffer, plays what was written bit by bit unless it compresses or recovers,
  cuts at most one stretch per turn, at the cheapest place, runs out to silence without a jump,
  keeps its speed in range for every setting, and ends when it is told to. The command line sets
  what it documents. Several properties pin down defects: the
  reconnect race, the stall after a burst loss, packets given up because of duplicates, Opus at
  44100 Hz, unframed heartbeat requests, COM objects leaked on a failed start, a null render
  client after an unchecked error; the theorem \<open>timeout_closes_client_twice\<close> shows one more.

  \<^bold>\<open>Termination, bounds, widths.\<close> Counters, sequence numbers and samples have the width of the
  code (\<open>size_t\<close> is 64 bits; the build is x64). No fuel is used: the loops of the code terminate
  by a measure (occupied slots for \<open>release\<close>, missing bytes for \<open>recvAll\<close>, distance on the
  circle for \<open>hb_loop\<close>, frames left for \<open>score_loop\<close> and \<open>out_loop\<close>), and the endless loops are
  step functions or run over the list of what happens at their waits. Sizes and indices of the
  renderer's buffers are natural numbers; \<open>need_small\<close> bounds them far below \<open>2 ^ 64\<close>. The sequence window is
  fourteen numbers, so the eight-bit numbers identify a packet that is at most 242 late.

  \<^bold>\<open>Abstractions.\<close> Atomic accesses interleave sequentially consistently; each counter has one
  writer, and release stores publish the copies before them; \<open>memcpy\<close> copies sample by sample in order.
  A turn of the main loop is cut at
  the points where it waits, looks at what it shares with the other threads, or starts the render thread
  (\<open>main_pc\<close>); a configuration is read under the mutex in one step. What \<open>sv_prepare\<close> does before the render
  thread runs is one step, since until then it touches nothing that another thread sees; so are the stores to the
  settings and the counters in \<open>sv_session\<close>. \<open>recvAll\<close> is one step of the TCP thread although it can block
  between its calls of \<open>recv\<close>: it touches only the client's stream and its own buffer. The pointer
  \<open>ringBuffer_\<close> of the renderer is not kept apart from \<open>ringBuffer\<close> of \<open>main\<close>: a turn uses \<open>rx_ring\<close>, which is
  \<open>None\<close> once \<open>main\<close> has deleted the ring buffer, so that a later use would be a fault. A buffer from
  \<open>GetBuffer\<close> is a list; a turn that would store behind its end is a fault as well. Console output is left out. \<open>convertInt16ToFloat32\<close> is exact, so it is given in
  rationals. An allocation never fails.

  Doubles have no signed zeros, which the code cannot tell apart; \<open>lrint\<close> rounds to nearest. A turn
  of the render thread is one step towards the other threads: it takes one range of the ring
  buffer, and \<open>Ring_Concurrent\<close> justifies that for the accesses within it. The settings of the
  speed control are read once per turn, although the code reads them as separate atomics, since
  they change only while a session starts.

  \<^bold>\<open>Not modelled.\<close> The QUIC bridge (a library in Rust that the program loads; its entry points are parameters),
  the loading of \<open>wasapi_relink.dll\<close>, thread priorities, console output, and the two structs and the
  byte-order macros of \<open>protocol.h\<close> that nothing uses.
\<close>

end
